(* ===== verification/Prelude.thy ===== *)
theory Prelude
  imports Main "HOL-Library.Word" "HOL-Library.AList" "HOL-Library.Sublist"
begin

text \<open>
  Shared vocabulary of the development: the machine integers of the Rust sources, results,
  byte strings with the handful of \<^verbatim>\<open>str\<close> operations the code uses, hash maps as
  association lists, and the generic lemmas the components rest on.

  \<^item> \<^verbatim>\<open>u64\<close>, \<^verbatim>\<open>u32\<close>, \<^verbatim>\<open>u16\<close> are words: \<open>+\<close> and \<open>-\<close> wrap, as they do in a release build.
  \<^item> \<^verbatim>\<open>usize\<close> lengths and event counters are natural numbers: they measure objects in memory
    or count events one at a time, and never come near \<open>2 ^ 64\<close>.
  \<^item> A string is its UTF-8 bytes, so \<open>length\<close> is Rust's \<^verbatim>\<open>str::len\<close>.
  \<^item> \<open>'e + 'a\<close> is \<^verbatim>\<open>Result<A, E>\<close> with \<open>Inl\<close> the error.
  \<^item> A \<^verbatim>\<open>HashMap\<close> is an association list with distinct keys; the order of the list is the
    (unspecified) iteration order, over which every theorem is general.
\<close>

section \<open>Types\<close>

type_synonym u64 = "64 word"
type_synonym u32 = "32 word"
type_synonym u16 = "16 word"
type_synonym uuid = "128 word"
type_synonym ('k, 'v) hashmap = "('k \<times> 'v) list"

named_theorems str_simps \<open>characteristic equations of the string operations\<close>
named_theorems hm_simps \<open>characteristic equations of the hash-map operations\<close>
named_theorems u64_simps \<open>arithmetic of u64 values read as natural numbers\<close>

section \<open>Strings\<close>

definition code_of :: "char \<Rightarrow> nat" where
  "code_of c = of_char c"

definition is_ascii_lowercase :: "char \<Rightarrow> bool" where
  "is_ascii_lowercase c \<longleftrightarrow> 97 \<le> code_of c \<and> code_of c \<le> 122"

definition is_ascii_uppercase :: "char \<Rightarrow> bool" where
  "is_ascii_uppercase c \<longleftrightarrow> 65 \<le> code_of c \<and> code_of c \<le> 90"

definition is_ascii_digit :: "char \<Rightarrow> bool" where
  "is_ascii_digit c \<longleftrightarrow> 48 \<le> code_of c \<and> code_of c \<le> 57"

definition is_ascii_alphanumeric :: "char \<Rightarrow> bool" where
  "is_ascii_alphanumeric c \<longleftrightarrow>
     is_ascii_lowercase c \<or> is_ascii_uppercase c \<or> is_ascii_digit c"

definition to_ascii_lowercase :: "string \<Rightarrow> string" where
  "to_ascii_lowercase s = map (\<lambda>c. if is_ascii_uppercase c then char_of (code_of c + 32) else c) s"

definition eq_ignore_ascii_case :: "string \<Rightarrow> string \<Rightarrow> bool" where
  "eq_ignore_ascii_case a b \<longleftrightarrow> to_ascii_lowercase a = to_ascii_lowercase b"

text \<open>\<^verbatim>\<open>str::trim_matches(c)\<close> for one character.\<close>

definition trim_matches :: "char \<Rightarrow> string \<Rightarrow> string" where
  "trim_matches c s = rev (dropWhile (\<lambda>x. x = c) (rev (dropWhile (\<lambda>x. x = c) s)))"

text \<open>\<^verbatim>\<open>str::split(c)\<close>: always at least one piece.\<close>

fun split_on :: "char \<Rightarrow> string \<Rightarrow> string list" where
  "split_on d [] = [[]]"
| "split_on d (c # cs) =
     (if c = d then [] # split_on d cs
      else (case split_on d cs of [] \<Rightarrow> [[c]] | t # ts \<Rightarrow> (c # t) # ts))"

text \<open>The inverse of splitting: \<^verbatim>\<open>[_]::join\<close>.\<close>

fun join_with :: "char \<Rightarrow> string list \<Rightarrow> string" where
  "join_with d [] = []"
| "join_with d [t] = t"
| "join_with d (t # ts) = t @ d # join_with d ts"

text \<open>\<^verbatim>\<open>str::strip_prefix\<close>.\<close>

fun strip_prefix :: "string \<Rightarrow> string \<Rightarrow> string option" where
  "strip_prefix s [] = Some s"
| "strip_prefix [] (p # ps) = None"
| "strip_prefix (c # cs) (p # ps) = (if c = p then strip_prefix cs ps else None)"

definition starts_with :: "string \<Rightarrow> char \<Rightarrow> bool" where
  "starts_with s c \<longleftrightarrow> (case s of [] \<Rightarrow> False | x # _ \<Rightarrow> x = c)"

text \<open>\<^verbatim>\<open>str::chars\<close>: a continuation byte belongs to the character before it.\<close>

definition is_continuation :: "char \<Rightarrow> bool" where
  "is_continuation c \<longleftrightarrow> 128 \<le> code_of c \<and> code_of c < 192"

fun utf8_chars :: "string \<Rightarrow> string list" where
  "utf8_chars [] = []"
| "utf8_chars (c # cs) =
     (case utf8_chars cs of
        [] \<Rightarrow> [[c]]
      | t # ts \<Rightarrow>
          if is_continuation (hd t) then (c # t) # ts else [c] # t # ts)"

text \<open>\<^verbatim>\<open>Display\<close> of an unsigned integer.\<close>

fun nat_to_string :: "nat \<Rightarrow> string" where
  "nat_to_string n =
     (if n < 10 then [char_of (48 + n)] else nat_to_string (n div 10) @ [char_of (48 + n mod 10)])"

declare nat_to_string.simps [simp del]

section \<open>Hash maps\<close>

definition hget :: "('k, 'v) hashmap \<Rightarrow> 'k \<Rightarrow> 'v option" where
  "hget m k = map_of m k"

definition hinsert :: "'k \<Rightarrow> 'v \<Rightarrow> ('k, 'v) hashmap \<Rightarrow> ('k, 'v) hashmap" where
  "hinsert k v m = AList.update k v m"

definition hremove :: "'k \<Rightarrow> ('k, 'v) hashmap \<Rightarrow> ('k, 'v) hashmap" where
  "hremove k m = AList.delete k m"

text \<open>Removing or inserting a list of keys one by one.\<close>

definition hremove_all :: "'k list \<Rightarrow> ('k, 'v) hashmap \<Rightarrow> ('k, 'v) hashmap" where
  "hremove_all ks m = fold hremove ks m"

definition hinsert_all :: "'k list \<Rightarrow> 'v \<Rightarrow> ('k, 'v) hashmap \<Rightarrow> ('k, 'v) hashmap" where
  "hinsert_all ks v m = fold (\<lambda>k. hinsert k v) ks m"

definition hretain :: "('k \<Rightarrow> 'v \<Rightarrow> bool) \<Rightarrow> ('k, 'v) hashmap \<Rightarrow> ('k, 'v) hashmap" where
  "hretain P m = filter (\<lambda>(k, v). P k v) m"

text \<open>\<^verbatim>\<open>if let Some(v) = map.get_mut(k) { .. }\<close>.\<close>

definition hmodify :: "'k \<Rightarrow> ('v \<Rightarrow> 'v) \<Rightarrow> ('k, 'v) hashmap \<Rightarrow> ('k, 'v) hashmap" where
  "hmodify k f m = (case hget m k of None \<Rightarrow> m | Some v \<Rightarrow> hinsert k (f v) m)"

definition hm_ok :: "('k, 'v) hashmap \<Rightarrow> bool" where
  "hm_ok m \<longleftrightarrow> distinct (map fst m)"

section \<open>Word arithmetic\<close>

definition saturating_sub :: "u64 \<Rightarrow> u64 \<Rightarrow> u64" where
  "saturating_sub a b = (if a < b then 0 else a - b)"

definition saturating_add :: "u64 \<Rightarrow> u64 \<Rightarrow> u64" where
  "saturating_add a b = (if uint a + uint b < 2 ^ 64 then a + b else - 1)"

definition saturating_mul :: "u64 \<Rightarrow> u64 \<Rightarrow> u64" where
  "saturating_mul a b = (if uint a * uint b < 2 ^ 64 then a * b else - 1)"

section \<open>Lemmas on strings\<close>

lemma split_on_not_Nil [simp]: "split_on d s \<noteq> []"
  by (induction s) (auto split: list.splits)

lemma split_on_no_sep: "t \<in> set (split_on d s) \<Longrightarrow> d \<notin> set t"
proof (induction s arbitrary: t)
  case (Cons c cs)
  obtain u us where "split_on d cs = u # us"
    by (cases "split_on d cs") simp_all
  with Cons show ?case by (auto split: if_splits)
qed simp

lemma join_with_Cons: "ts \<noteq> [] \<Longrightarrow> join_with d (t # ts) = t @ d # join_with d ts"
  by (cases ts) simp_all

lemma join_split [simp]: "join_with d (split_on d s) = s"
proof (induction s)
  case (Cons c cs)
  obtain u us where eq: "split_on d cs = u # us"
    by (cases "split_on d cs") simp_all
  with Cons.IH have join: "join_with d (u # us) = cs" by simp
  have "join_with d ((c # u) # us) = c # join_with d (u # us)"
    by (cases us) simp_all
  with join eq show ?case by (simp add: join_with_Cons)
qed simp

lemma split_on_free: "d \<notin> set t \<Longrightarrow> split_on d t = [t]"
  by (induction t) auto

lemma split_on_append_sep:
  "d \<notin> set t \<Longrightarrow> split_on d (t @ d # s) = t # split_on d s"
  by (induction t) auto

lemma split_join:
  "ts \<noteq> [] \<Longrightarrow> (\<And>t. t \<in> set ts \<Longrightarrow> d \<notin> set t) \<Longrightarrow> split_on d (join_with d ts) = ts"
proof (induction ts)
  case (Cons t ts)
  show ?case
  proof (cases "ts = []")
    case True
    with Cons.prems show ?thesis by (simp add: split_on_free)
  next
    case False
    with Cons show ?thesis by (simp add: join_with_Cons split_on_append_sep)
  qed
qed simp

lemma split_on_inject: "split_on d s = split_on d t \<longleftrightarrow> s = t"
  by (metis join_split)

lemma split_on_empty [simp]: "split_on d s = [[]] \<longleftrightarrow> s = []"
  using split_on_inject [of d s "[]"] by simp

lemma strip_prefix_eq: "strip_prefix s p = Some r \<longleftrightarrow> s = p @ r"
  by (induction s p rule: strip_prefix.induct) auto

lemma strip_prefix_append [simp]: "strip_prefix (p @ r) p = Some r"
  by (simp add: strip_prefix_eq)

lemma strip_prefix_None: "strip_prefix s p = None \<longleftrightarrow> \<not> prefix p s"
  by (induction s p rule: strip_prefix.induct) auto

lemma starts_with_Cons [str_simps]: "starts_with s c \<longleftrightarrow> (\<exists>r. s = c # r)"
  by (auto simp: starts_with_def split: list.splits)

section \<open>Lemmas on hash maps\<close>

lemma hget_hinsert [hm_simps]: "hget (hinsert k v m) k' = (if k' = k then Some v else hget m k')"
  by (simp add: hget_def hinsert_def update_conv)

lemma hget_hremove [hm_simps]: "hget (hremove k m) k' = (if k' = k then None else hget m k')"
  by (simp add: hget_def hremove_def delete_conv)

lemma hget_hremove_all [hm_simps]:
  "hget (hremove_all ks m) k = (if k \<in> set ks then None else hget m k)"
  unfolding hremove_all_def by (induction ks arbitrary: m) (auto simp: hget_hremove)

lemma hget_hinsert_all [hm_simps]:
  "hget (hinsert_all ks v m) k = (if k \<in> set ks then Some v else hget m k)"
  unfolding hinsert_all_def by (induction ks arbitrary: m) (auto simp: hget_hinsert)

lemma hget_Nil [hm_simps]: "hget [] k = None"
  by (simp add: hget_def)

lemma hm_ok_Nil [simp]: "hm_ok []"
  by (simp add: hm_ok_def)

lemma hm_ok_hinsert [simp]: "hm_ok m \<Longrightarrow> hm_ok (hinsert k v m)"
  by (simp add: hm_ok_def hinsert_def distinct_update)

lemma hm_ok_hremove [simp]: "hm_ok m \<Longrightarrow> hm_ok (hremove k m)"
  by (simp add: hm_ok_def hremove_def distinct_delete)

lemma hm_ok_hretain [simp]: "hm_ok m \<Longrightarrow> hm_ok (hretain P m)"
  unfolding hm_ok_def hretain_def by (induction m) auto

lemma hm_ok_hmodify [simp]: "hm_ok m \<Longrightarrow> hm_ok (hmodify k f m)"
  by (simp add: hmodify_def split: option.splits)

lemma hget_hmodify [hm_simps]:
  "hget (hmodify k f m) k' = (if k' = k then map_option f (hget m k) else hget m k')"
  by (auto simp: hmodify_def hget_hinsert split: option.splits)

lemma fst_hmodify [simp]: "map fst (hmodify k f m) = map fst m"
proof (cases "hget m k")
  case (Some v)
  then have "k \<in> set (map fst m)" using map_of_SomeD [of m k v] by (force simp: hget_def)
  with Some show ?thesis by (simp add: hmodify_def hinsert_def update_keys)
qed (simp add: hmodify_def)

lemma hget_map_values [hm_simps]:
  "hget (map (\<lambda>(k, v). (k, f v)) m) k = map_option f (hget m k)"
  by (induction m) (auto simp: hget_def)

lemma hm_ok_map_values [simp]: "hm_ok (map (\<lambda>(k, v). (k, f v)) m) = hm_ok m"
  by (simp add: hm_ok_def comp_def case_prod_unfold)

lemma hget_set: "hm_ok m \<Longrightarrow> (k, v) \<in> set m \<longleftrightarrow> hget m k = Some v"
  by (simp add: hm_ok_def hget_def)

lemma hget_hretain:
  "hm_ok m \<Longrightarrow> hget (hretain P m) k =
     (case hget m k of None \<Rightarrow> None | Some v \<Rightarrow> if P k v then Some v else None)"
proof (induction m)
  case Nil
  then show ?case by (simp add: hget_def hretain_def)
next
  case (Cons e m)
  obtain k' v' where e: "e = (k', v')" by (cases e)
  have fresh: "hget m k' = None"
    using Cons.prems by (simp add: e hm_ok_def hget_def map_of_eq_None_iff)
  have "hm_ok m"
    using Cons.prems by (simp add: hm_ok_def)
  note IH = Cons.IH [OF this]
  show ?case
    using IH fresh by (auto simp: e hget_def hretain_def)
qed

section \<open>Lemmas on words\<close>

lemma unat_lt_64 [simp]: "unat (w :: u64) < 2 ^ 64"
  using unsigned_less [of w] by simp

lemma unat_u64_less [simp]: "unat (w :: u64) < 18446744073709551616"
  using unsigned_less [of w] by simp

lemma unat_u64_max [u64_simps]: "unat (- 1 :: u64) = 2 ^ 64 - 1"
  by (simp add: unsigned_minus_1_eq_mask mask_eq_exp_minus_1)

lemma u64_not_max:
  assumes "(a :: u64) \<noteq> - 1"
  shows "unat a + 1 < 2 ^ 64"
proof -
  have "unat a \<noteq> unat (- 1 :: u64)" using assms by (simp add: word_unat_eq_iff)
  then have "unat a \<noteq> 18446744073709551615" by (simp add: unat_u64_max)
  moreover have "unat a < 18446744073709551616" by simp
  ultimately have "unat a + 1 < 18446744073709551616" by linarith
  then show ?thesis by simp
qed

lemma unat_add_nat [u64_simps]:
  "unat a + n < 2 ^ 64 \<Longrightarrow> unat (a + of_nat n :: u64) = unat a + n"
  by (simp add: unat_word_ariths unat_of_nat)

lemma unat_Suc_u64 [u64_simps]:
  "unat a + 1 < 2 ^ 64 \<Longrightarrow> unat (a + 1 :: u64) = unat a + 1"
  using unat_add_nat [of a 1] by simp

lemma unat_Suc_add_nat [u64_simps]:
  "unat a + 1 + n < 2 ^ 64 \<Longrightarrow> unat (a + 1 + of_nat n :: u64) = unat a + 1 + n"
  using unat_add_nat [of "a + 1" n] unat_Suc_u64 [of a] by simp

lemma unat_saturating_sub [u64_simps]: "unat (saturating_sub a b) = unat a - unat b"
  by (auto simp: saturating_sub_def word_less_nat_alt unat_sub word_le_nat_alt)

lemma uint_add_bound: "uint (a :: u64) + uint b < 2 ^ 64 \<longleftrightarrow> unat a + unat b < 2 ^ 64"
  unfolding uint_nat by (metis of_nat_add of_nat_less_numeral_power_cancel_iff)

lemma uint_mul_bound: "uint (a :: u64) * uint b < 2 ^ 64 \<longleftrightarrow> unat a * unat b < 2 ^ 64"
  unfolding uint_nat by (metis of_nat_mult of_nat_less_numeral_power_cancel_iff)

lemma unat_saturating_add [u64_simps]:
  "unat (saturating_add a b) = min (unat a + unat b) (2 ^ 64 - 1)"
proof (cases "unat a + unat b < 2 ^ 64")
  case True
  then show ?thesis unfolding saturating_add_def uint_add_bound by (simp add: unat_word_ariths)
next
  case False
  then show ?thesis unfolding saturating_add_def uint_add_bound by (simp add: unat_u64_max)
qed

lemma unat_saturating_mul [u64_simps]:
  "unat (saturating_mul a b) = min (unat a * unat b) (2 ^ 64 - 1)"
proof (cases "unat a * unat b < 2 ^ 64")
  case True
  then show ?thesis unfolding saturating_mul_def uint_mul_bound by (simp add: unat_word_ariths)
next
  case False
  then show ?thesis unfolding saturating_mul_def uint_mul_bound by (simp add: unat_u64_max)
qed

end
