(* ===== verification/Channel.thy ===== *)
theory Channel
  imports Prelude
begin

text \<open>
  \<^verbatim>\<open>crates/whdr-proto/src/channel.rs\<close>: the grammar of channels and patterns and the matcher
  the fan-out and the replay scan use.  The index-driven loops of the code are kept as they
  are; the declarative reading of the grammar is \<open>tokens_match\<close>.
\<close>

section \<open>The code\<close>

datatype channel_error =
    Empty
  | EmptyToken
  | InvalidToken string
  | WildcardInChannel
  | TailWildcardNotFinal

text \<open>The messages of the \<^verbatim>\<open>Error\<close> derive.\<close>

fun channel_error_display :: "channel_error \<Rightarrow> string" where
  "channel_error_display Empty = ''empty channel''"
| "channel_error_display EmptyToken = ''empty token''"
| "channel_error_display (InvalidToken t) = ''invalid token: '' @ t"
| "channel_error_display WildcardInChannel = ''wildcard is not valid in channels''"
| "channel_error_display TailWildcardNotFinal =
     [CHR 0x27] @ ''>'' @ [CHR 0x27] @ '' wildcard must be the final pattern token''"

definition plain_byte :: "char \<Rightarrow> bool" where
  "plain_byte b \<longleftrightarrow>
     is_ascii_lowercase b \<or> is_ascii_digit b \<or> b = CHR ''_'' \<or> b = CHR ''-''"

definition valid_plain_token :: "string \<Rightarrow> bool" where
  "valid_plain_token token \<longleftrightarrow> token \<noteq> [] \<and> list_all plain_byte token"

fun validate_channel_tokens :: "string list \<Rightarrow> channel_error + unit" where
  "validate_channel_tokens [] = Inr ()"
| "validate_channel_tokens (token # rest) =
     (if token = [] then Inl EmptyToken
      else if token = ''*'' \<or> token = ''>'' then Inl WildcardInChannel
      else if \<not> valid_plain_token token then Inl (InvalidToken token)
      else validate_channel_tokens rest)"

definition validate_channel :: "string \<Rightarrow> channel_error + unit" where
  "validate_channel channel =
     (if channel = [] then Inl Empty
      else validate_channel_tokens (split_on (CHR ''.'') channel))"

fun validate_pattern_tokens :: "nat \<Rightarrow> nat \<Rightarrow> string list \<Rightarrow> channel_error + unit" where
  "validate_pattern_tokens len idx [] = Inr ()"
| "validate_pattern_tokens len idx (token # rest) =
     (if token = [] then Inl EmptyToken
      else if token = ''>'' then
        (if idx + 1 \<noteq> len then Inl TailWildcardNotFinal
         else validate_pattern_tokens len (idx + 1) rest)
      else if token = ''*'' then validate_pattern_tokens len (idx + 1) rest
      else if \<not> valid_plain_token token then Inl (InvalidToken token)
      else validate_pattern_tokens len (idx + 1) rest)"

definition validate_pattern :: "string \<Rightarrow> channel_error + unit" where
  "validate_pattern pattern =
     (if pattern = [] then Inl Empty
      else (let tokens = split_on (CHR ''.'') pattern
            in validate_pattern_tokens (length tokens) 0 tokens))"

text \<open>The loop of \<^verbatim>\<open>channel_matches\<close>: \<open>ci\<close> indexes the channel's tokens, \<open>pi\<close> the pattern's.\<close>

fun match_loop :: "string list \<Rightarrow> nat \<Rightarrow> nat \<Rightarrow> string list \<Rightarrow> bool" where
  "match_loop channel_tokens ci pi [] = (ci = length channel_tokens)"
| "match_loop channel_tokens ci pi (pattern_token # rest) =
     (if pattern_token = ''>'' then ci < length channel_tokens \<or> pi = 0
      else if pattern_token = ''*'' then
        (if ci \<ge> length channel_tokens then False
         else match_loop channel_tokens (ci + 1) (pi + 1) rest)
      else if (if ci < length channel_tokens then Some (channel_tokens ! ci) else None)
                \<noteq> Some pattern_token then False
      else match_loop channel_tokens (ci + 1) (pi + 1) rest)"

definition channel_matches :: "string \<Rightarrow> string \<Rightarrow> channel_error + bool" where
  "channel_matches channel pattern =
     (case validate_channel channel of
        Inl e \<Rightarrow> Inl e
      | Inr _ \<Rightarrow>
          (case validate_pattern pattern of
             Inl e \<Rightarrow> Inl e
           | Inr _ \<Rightarrow>
               Inr (match_loop (split_on (CHR ''.'') channel) 0 0
                      (split_on (CHR ''.'') pattern))))"

text \<open>\<^verbatim>\<open>Pattern\<close> is a newtype of a validated string; \<^verbatim>\<open>Pattern::new\<close> is the only constructor.\<close>

datatype pattern = Pattern string

primrec as_str :: "pattern \<Rightarrow> string" where
  "as_str (Pattern value) = value"

definition Pattern_new :: "string \<Rightarrow> channel_error + pattern" where
  "Pattern_new value =
     (case validate_pattern value of Inl e \<Rightarrow> Inl e | Inr _ \<Rightarrow> Inr (Pattern value))"

definition Pattern_matches :: "pattern \<Rightarrow> string \<Rightarrow> channel_error + bool" where
  "Pattern_matches self channel = channel_matches channel (as_str self)"

text \<open>\<^verbatim>\<open>pattern.matches(c).unwrap_or(false)\<close>, as every caller uses it.\<close>

definition matches_or_false :: "pattern \<Rightarrow> string \<Rightarrow> bool" where
  "matches_or_false p channel =
     (case Pattern_matches p channel of Inl _ \<Rightarrow> False | Inr b \<Rightarrow> b)"

section \<open>The grammar, declaratively\<close>

text \<open>
  A channel is one or more plain tokens.  A pattern is one or more tokens, each plain or
  \<^verbatim>\<open>*\<close>, optionally closed by a final \<^verbatim>\<open>>\<close>.  \<^verbatim>\<open>*\<close> stands for exactly one token, the final
  \<^verbatim>\<open>>\<close> for one or more (SPEC section 8).
\<close>

definition channel_grammar :: "string list \<Rightarrow> bool" where
  "channel_grammar ts \<longleftrightarrow> ts \<noteq> [] \<and> list_all valid_plain_token ts"

definition pattern_token_ok :: "string \<Rightarrow> bool" where
  "pattern_token_ok t \<longleftrightarrow> t = ''*'' \<or> valid_plain_token t"

definition pattern_grammar :: "string list \<Rightarrow> bool" where
  "pattern_grammar ts \<longleftrightarrow> ts \<noteq> [] \<and> list_all pattern_token_ok (butlast ts) \<and>
     (last ts = ''>'' \<or> pattern_token_ok (last ts))"

definition token_match :: "string \<Rightarrow> string \<Rightarrow> bool" where
  "token_match p c \<longleftrightarrow> p = ''*'' \<or> p = c"

definition tokens_match :: "string list \<Rightarrow> string list \<Rightarrow> bool" where
  "tokens_match ps cs \<longleftrightarrow>
     (if ps \<noteq> [] \<and> last ps = ''>''
      then (\<exists>front tail. cs = front @ tail \<and> tail \<noteq> [] \<and>
              list_all2 token_match (butlast ps) front)
      else list_all2 token_match ps cs)"

section \<open>Facts about the grammar\<close>

lemma plain_token_simps [simp]:
  "\<not> valid_plain_token []" "\<not> valid_plain_token ''*''" "\<not> valid_plain_token ''>''"
  by (simp_all add: valid_plain_token_def plain_byte_def is_ascii_lowercase_def
      is_ascii_digit_def code_of_def)

lemma pattern_token_simps [simp]:
  "\<not> pattern_token_ok []" "\<not> pattern_token_ok ''>''" "pattern_token_ok ''*''"
  by (simp_all add: pattern_token_ok_def)

lemma plain_no_dot: "plain_byte b \<Longrightarrow> b \<noteq> CHR ''.''"
  by (auto simp: plain_byte_def is_ascii_lowercase_def is_ascii_digit_def code_of_def)

lemma valid_plain_no_dot: "valid_plain_token t \<Longrightarrow> CHR ''.'' \<notin> set t"
  unfolding valid_plain_token_def list_all_iff by (blast dest: plain_no_dot)

lemma valid_plain_noteq:
  "valid_plain_token t \<Longrightarrow> t \<noteq> [] \<and> t \<noteq> ''*'' \<and> t \<noteq> ''>''"
  by (metis plain_token_simps)

lemma validate_channel_tokens_ok:
  "validate_channel_tokens ts = Inr () \<longleftrightarrow> list_all valid_plain_token ts"
  by (induction ts) (auto dest: valid_plain_noteq)

lemma validate_channel_ok:
  "validate_channel ch = Inr () \<longleftrightarrow> channel_grammar (split_on (CHR ''.'') ch)"
  by (cases "ch = []") (auto simp: validate_channel_def channel_grammar_def validate_channel_tokens_ok)

lemma validate_pattern_tokens_ok:
  "len = idx + length ts \<Longrightarrow>
   validate_pattern_tokens len idx ts = Inr () \<longleftrightarrow> ts = [] \<or> pattern_grammar ts"
proof (induction ts arbitrary: idx)
  case (Cons t ts)
  then have IH: "validate_pattern_tokens len (idx + 1) ts = Inr () \<longleftrightarrow>
      ts = [] \<or> pattern_grammar ts"
    by simp
  show ?case
  proof (cases "ts = []")
    case True
    with Cons.prems IH show ?thesis
      by (auto simp: pattern_grammar_def pattern_token_ok_def dest: valid_plain_noteq)
  next
    case False
    with Cons.prems IH show ?thesis
      by (auto simp: pattern_grammar_def pattern_token_ok_def dest: valid_plain_noteq)
  qed
qed simp

lemma validate_pattern_ok:
  "validate_pattern p = Inr () \<longleftrightarrow> pattern_grammar (split_on (CHR ''.'') p)"
proof (cases "p = []")
  case True
  then show ?thesis by (simp add: validate_pattern_def pattern_grammar_def)
next
  case False
  then show ?thesis
    using validate_pattern_tokens_ok [of _ 0 "split_on (CHR ''.'') p"]
    by (simp add: validate_pattern_def Let_def)
qed

lemma channel_is_pattern:
  "channel_grammar ts \<Longrightarrow> pattern_grammar ts \<and> ''>'' \<notin> set ts \<and> ''*'' \<notin> set ts"
  unfolding channel_grammar_def pattern_grammar_def pattern_token_ok_def list_all_iff
  by (metis in_set_butlastD last_in_set plain_token_simps(2,3))

section \<open>The matcher computes the grammar's reading\<close>

lemma match_loop_tokens:
  assumes "ts = [] \<or> pattern_grammar ts" and "ci \<le> length cs" and "pi = ci"
    and "cs \<noteq> []"
  shows "match_loop cs ci pi ts \<longleftrightarrow> tokens_match ts (drop ci cs)"
  using assms
proof (induction ts arbitrary: ci pi)
  case Nil
  then show ?case by (auto simp: tokens_match_def)
next
  case (Cons t ts)
  have tail: "ts = [] \<or> pattern_grammar ts"
    using Cons.prems(1) by (cases ts) (auto simp: pattern_grammar_def)
  show ?case
  proof (cases "t = ''>''")
    case True
    with Cons.prems(1) have "ts = []"
      by (cases ts) (auto simp: pattern_grammar_def)
    with True Cons.prems show ?thesis by (auto simp: tokens_match_def)
  next
    case not_tail: False
    show ?thesis
    proof (cases "ci < length cs")
      case False
      with not_tail Cons.prems show ?thesis
        by (auto simp: tokens_match_def butlast_append)
    next
      case True
      then have drop: "drop ci cs = cs ! ci # drop (ci + 1) cs"
        by (simp add: Cons_nth_drop_Suc)
      have IH: "match_loop cs (ci + 1) (pi + 1) ts \<longleftrightarrow> tokens_match ts (drop (ci + 1) cs)"
        using Cons.IH [of "ci + 1" "pi + 1"] tail Cons.prems True by simp
      have step: "tokens_match (t # ts) (drop ci cs) \<longleftrightarrow>
          token_match t (cs ! ci) \<and> tokens_match ts (drop (ci + 1) cs)"
        using not_tail unfolding drop tokens_match_def
        by (auto simp: Cons_eq_append_conv list_all2_Cons1)
      show ?thesis
        using not_tail True IH step by (auto simp: token_match_def)
    qed
  qed
qed

lemma channel_matches_iff:
  "channel_matches ch p = Inr b \<longleftrightarrow>
     channel_grammar (split_on (CHR ''.'') ch) \<and> pattern_grammar (split_on (CHR ''.'') p) \<and>
     b = tokens_match (split_on (CHR ''.'') p) (split_on (CHR ''.'') ch)"
  using validate_channel_ok [of ch] validate_pattern_ok [of p]
    match_loop_tokens [of "split_on (CHR ''.'') p" 0 "split_on (CHR ''.'') ch" 0]
  by (auto simp: channel_matches_def split: sum.splits)

section \<open>Properties\<close>

text \<open>
  C12: the matcher answers exactly when both arguments are in the grammar, and its answer is
  the grammar's reading: tokens agree one by one, \<^verbatim>\<open>*\<close> stands for one token and a final
  \<^verbatim>\<open>>\<close> for one or more.
\<close>

theorem channel_matches_spec:
  "channel_matches ch p = Inr b \<longleftrightarrow>
     channel_grammar (split_on (CHR ''.'') ch) \<and> pattern_grammar (split_on (CHR ''.'') p) \<and>
     b = tokens_match (split_on (CHR ''.'') p) (split_on (CHR ''.'') ch)"
  by (rule channel_matches_iff)

lemma tokens_match_literal:
  assumes "channel_grammar ps"
  shows "tokens_match ps cs \<longleftrightarrow> cs = ps"
proof -
  have plain: "''>'' \<notin> set ps" "''*'' \<notin> set ps" "ps \<noteq> []"
    using channel_is_pattern [OF assms] assms by (auto simp: channel_grammar_def)
  then have "last ps \<noteq> ''>''" by (metis last_in_set)
  moreover have "list_all2 token_match ps cs \<longleftrightarrow> list_all2 (=) ps cs"
    using plain(2)
  proof (induction ps arbitrary: cs)
    case (Cons p ps)
    then show ?case by (cases cs) (auto simp: token_match_def)
  qed simp
  ultimately show ?thesis by (auto simp: tokens_match_def list.rel_eq)
qed

text \<open>
  A channel name used as a pattern subscribes to that channel and to no other, and
  every valid channel is subscribed to by itself.
\<close>

theorem literal_pattern_exact:
  assumes "validate_channel p = Inr ()"
  shows "channel_matches ch p = Inr True \<longleftrightarrow> ch = p"
proof -
  have g: "channel_grammar (split_on (CHR ''.'') p)"
    using assms by (simp add: validate_channel_ok)
  show ?thesis
    unfolding channel_matches_iff using g channel_is_pattern [OF g] tokens_match_literal [OF g]
    by (auto simp: split_on_inject)
qed

theorem literal_pattern_exact_witness:
  "channel_matches ''github.push'' ''github.push'' = Inr True \<and>
   channel_matches ''github.pull'' ''github.push'' \<noteq> Inr True"
  using literal_pattern_exact [of "''github.push''"]
  by (simp add: validate_channel_def valid_plain_token_def plain_byte_def is_ascii_lowercase_def
      code_of_def)

end
