(* ===== verification/Messages.thy ===== *)
theory Messages
  imports Channel
begin

text \<open>
  \<^verbatim>\<open>crates/whdr-proto/src/messages.rs\<close> and \<^verbatim>\<open>ndjson.rs\<close>: the wire types of the three
  protocols (extension stdio, subscriber WebSocket, admin socket) and the line framing.
  JSON itself is not part of the sources: a serializer and a parser are arguments of the
  definitions that frame lines, and \<open>'j\<close> stands for an opaque \<^verbatim>\<open>serde_json::Value\<close>.
  A constructor carries its enum's prefix where the Rust name is used by two enums.
\<close>

section \<open>Wire types\<close>

definition PROTOCOL_VERSION :: u32 where
  "PROTOCOL_VERSION = 1"

datatype log_level = LogTrace | LogDebug | LogInfo | LogWarn | LogError

record event =
  ev_channel :: string
  ev_payload_b64 :: string

record http_reply =
  reply_status :: u16
  reply_headers :: "(string \<times> string) list"
  reply_body :: string

record 'j register_msg =
  reg_protocol :: u32
  reg_id :: "string option"
  reg_paths :: "string list"
  reg_channels :: "string list"
  reg_meta :: 'j

datatype 'j ext_msg =
    ExtRegister "'j register_msg"
  | ExtResult uuid http_reply "event list"
  | ExtEvent event
  | ExtLog log_level string

record dispatch_msg =
  d_req_id :: uuid
  d_method :: string
  d_path :: string
  d_query :: "string option"
  d_headers :: "(string \<times> string) list"
  d_body_b64 :: string
  d_secret :: "string option"

datatype srv_msg = Dispatch dispatch_msg | SrvShutdown

text \<open>
  \<^verbatim>\<open>impl Debug for SrvMsg\<close>: every field is printed as it is, the secret only as present or
  absent.  What is printed is the record after redaction.
\<close>

fun srv_msg_debug :: "srv_msg \<Rightarrow> srv_msg" where
  "srv_msg_debug (Dispatch d) =
     Dispatch (d\<lparr>d_secret := map_option (\<lambda>_. ''<redacted>'') (d_secret d)\<rparr>)"
| "srv_msg_debug SrvShutdown = SrvShutdown"

record replay_request =
  rr_after_seq :: u64

datatype sub_client_msg =
    Subscribe "string list" "replay_request option"
  | Unsubscribe "string list"
  | Ping

datatype closing_reason = CloseShutdown | CloseRevoked

text \<open>The fields of \<^verbatim>\<open>SubServerMsg::Event\<close>: an event with its identity and sequence.\<close>

record stamped_event =
  st_seq :: u64
  st_id :: uuid
  st_ts_ms :: u64
  st_channel :: string
  st_payload_b64 :: string

datatype sub_server_msg =
    Welcome string
  | SubOk string
  | SubError string string
  | SubEvent stamped_event
  | Replayed u64
  | ReplayGap u64 u64
  | Lagged u64
  | Pong
  | Closing closing_reason

datatype control_request =
    Status
  | TokenAdd string
  | TokenRotate string
  | TokenRevoke string
  | TokenList

record token_summary =
  sum_name :: string
  sum_fingerprint :: string
  sum_created :: string
  sum_active_conns :: nat

datatype 'j control_response =
    CtlStatus 'j
  | CtlToken string string
  | CtlTokens "token_summary list"
  | CtlOk
  | CtlError string

section \<open>Line framing\<close>

text \<open>\<^verbatim>\<open>str::trim\<close>: the characters with the Unicode property White\_Space, as UTF-8 bytes.\<close>

definition white_space :: "string list" where
  "white_space =
     map (\<lambda>c. [c]) [CHR 0x09, CHR 0x0A, CHR 0x0B, CHR 0x0C, CHR 0x0D, CHR 0x20] @
     [[CHR 0xC2, CHR 0x85], [CHR 0xC2, CHR 0xA0], [CHR 0xE1, CHR 0x9A, CHR 0x80]] @
     map (\<lambda>c. [CHR 0xE2, CHR 0x80, c])
       [CHR 0x80, CHR 0x81, CHR 0x82, CHR 0x83, CHR 0x84, CHR 0x85, CHR 0x86, CHR 0x87, CHR 0x88,
        CHR 0x89, CHR 0x8A, CHR 0xA8, CHR 0xA9, CHR 0xAF] @
     [[CHR 0xE2, CHR 0x81, CHR 0x9F], [CHR 0xE3, CHR 0x80, CHR 0x80]]"

fun strip_any :: "string list \<Rightarrow> string \<Rightarrow> string option" where
  "strip_any [] s = None"
| "strip_any (w # ws) s =
     (case strip_prefix s w of None \<Rightarrow> strip_any ws s | Some r \<Rightarrow> Some r)"

text \<open>Each round strips at least one byte, so \<open>length s\<close> rounds are enough.\<close>

fun trim_rounds :: "nat \<Rightarrow> string list \<Rightarrow> string \<Rightarrow> string" where
  "trim_rounds 0 ws s = s"
| "trim_rounds (Suc n) ws s =
     (case strip_any ws s of None \<Rightarrow> s | Some r \<Rightarrow> trim_rounds n ws r)"

definition trim_start :: "string \<Rightarrow> string" where
  "trim_start s = trim_rounds (length s) white_space s"

definition trim_end :: "string \<Rightarrow> string" where
  "trim_end s = rev (trim_rounds (length s) (map rev white_space) (rev s))"

definition trim :: "string \<Rightarrow> string" where
  "trim s = trim_end (trim_start s)"

datatype ndjson_error = MalformedJson

definition newline :: char where
  "newline = CHR 0x0A"

definition encode_line :: "('a \<Rightarrow> string option) \<Rightarrow> 'a \<Rightarrow> ndjson_error + string" where
  "encode_line to_string value =
     (case to_string value of
        None \<Rightarrow> Inl MalformedJson
      | Some line \<Rightarrow> Inr (line @ [newline]))"

definition decode_line :: "(string \<Rightarrow> 'a option) \<Rightarrow> string \<Rightarrow> ndjson_error + 'a option" where
  "decode_line from_str line =
     (let trimmed = trim line
      in if trimmed = [] then Inr None
         else (case from_str trimmed of
                 None \<Rightarrow> Inl MalformedJson
               | Some value \<Rightarrow> Inr (Some value)))"

section \<open>Facts\<close>

lemma strip_any_suffix: "strip_any ws s = Some r \<Longrightarrow> \<exists>w \<in> set ws. s = w @ r"
  by (induction ws) (auto simp: strip_prefix_eq split: option.splits)

lemma strip_any_None: "strip_any ws s = None \<longleftrightarrow> (\<forall>w \<in> set ws. \<not> prefix w s)"
  by (induction ws) (auto simp: strip_prefix_None strip_prefix_eq split: option.splits)

text \<open>With non-empty separators and enough rounds nothing is left to strip.\<close>

lemma trim_rounds_done:
  assumes "[] \<notin> set ws"
  shows "length s \<le> n \<Longrightarrow> strip_any ws (trim_rounds n ws s) = None"
proof (induction n arbitrary: s)
  case 0
  then show ?case using assms by (auto simp: strip_any_None)
next
  case (Suc n)
  show ?case
  proof (cases "strip_any ws s")
    case None
    then show ?thesis by simp
  next
    case (Some r)
    with assms obtain w where "w \<noteq> []" "s = w @ r"
      by (metis strip_any_suffix)
    with Suc.prems have "length r \<le> n" by (cases w) auto
    with Some Suc.IH show ?thesis by simp
  qed
qed

lemma trim_rounds_stable: "strip_any ws s = None \<Longrightarrow> trim_rounds n ws s = s"
  by (cases n) simp_all

lemma white_space_not_Nil: "[] \<notin> set white_space"
  by (auto simp: white_space_def)

lemma newline_white: "[newline] \<in> set white_space"
  by (simp add: white_space_def newline_def)

lemma strip_any_Cons_self:
  "strip_any ws s = None \<Longrightarrow> \<forall>w \<in> set ws. prefix w (c # s) \<longrightarrow> w = [c] \<Longrightarrow> [c] \<in> set ws \<Longrightarrow>
   strip_any ws (c # s) = Some s"
proof -
  assume none: "strip_any ws s = None" and only: "\<forall>w \<in> set ws. prefix w (c # s) \<longrightarrow> w = [c]"
    and mem: "[c] \<in> set ws"
  have "strip_any ws (c # s) \<noteq> None"
    using mem by (auto simp: strip_any_None intro: bexI [of _ "[c]"])
  then obtain r where r: "strip_any ws (c # s) = Some r" by auto
  then obtain w where "w \<in> set ws" "c # s = w @ r"
    using strip_any_suffix by blast
  with only have "w = [c]" by (auto simp: prefix_def)
  with \<open>c # s = w @ r\<close> r show ?thesis by simp
qed

text \<open>
  White\_Space sequences of several bytes never contain a newline, so the frame's newline
  is stripped by itself.
\<close>

lemma newline_alone:
  "w \<in> set (map rev white_space) \<Longrightarrow> prefix w (newline # s) \<Longrightarrow> w = [newline]"
  by (auto simp: white_space_def newline_def prefix_def)

text \<open>Text a JSON serializer produces: not blank at either end.\<close>

definition trimmed_text :: "string \<Rightarrow> bool" where
  "trimmed_text s \<longleftrightarrow> s \<noteq> [] \<and> strip_any white_space s = None \<and>
     strip_any (map rev white_space) (rev s) = None"

lemma strip_any_append_None:
  "strip_any ws s = None \<Longrightarrow> (\<And>w. w \<in> set ws \<Longrightarrow> prefix w (s @ t) \<Longrightarrow> prefix w s) \<Longrightarrow>
   strip_any ws (s @ t) = None"
  by (auto simp: strip_any_None)

lemma white_space_newline_end:
  "w \<in> set white_space \<Longrightarrow> newline \<in> set w \<Longrightarrow> w = [newline]"
  by (auto simp: white_space_def newline_def)

lemma trim_framed:
  assumes "trimmed_text s"
  shows "trim (s @ [newline]) = s"
proof -
  have "strip_any white_space (s @ [newline]) = None"
  proof (rule strip_any_append_None)
    show "strip_any white_space s = None" using assms by (simp add: trimmed_text_def)
  next
    fix w assume w: "w \<in> set white_space" "prefix w (s @ [newline])"
    show "prefix w s"
    proof (cases "w = s @ [newline]")
      case True
      with white_space_newline_end [OF w(1)] assms show ?thesis
        by (simp add: trimmed_text_def)
    next
      case False
      with w(2) show ?thesis by (simp add: prefix_snoc)
    qed
  qed
  then have start: "trim_start (s @ [newline]) = s @ [newline]"
    by (simp only: trim_start_def trim_rounds_stable)
  have "strip_any (map rev white_space) (newline # rev s) = Some (rev s)"
    using assms newline_white newline_alone
    by (intro strip_any_Cons_self) (auto simp: trimmed_text_def image_iff intro: bexI [of _ "[newline]"])
  moreover have "strip_any (map rev white_space) (rev s) = None"
    using assms by (simp add: trimmed_text_def)
  ultimately have "trim_end (s @ [newline]) = s"
    by (simp add: trim_end_def trim_rounds_stable)
  with start show ?thesis by (simp add: trim_def)
qed

lemma trim_stable: "trimmed_text s \<Longrightarrow> trim s = s"
  by (simp add: trimmed_text_def trim_def trim_start_def trim_end_def trim_rounds_stable)

section \<open>Properties\<close>

text \<open>A value whose serialization is one non-blank line that parses back to it.\<close>

definition line_codec :: "('a \<Rightarrow> string option) \<Rightarrow> (string \<Rightarrow> 'a option) \<Rightarrow> 'a \<Rightarrow> bool" where
  "line_codec to_string from_str v \<longleftrightarrow>
     (\<exists>s. to_string v = Some s \<and> trimmed_text s \<and> newline \<notin> set s \<and> from_str s = Some v)"

text \<open>
  C27: a stream of messages framed one per line is recovered by splitting it at newlines and
  decoding each piece: every message comes back, in order, and the empty piece after the last
  newline decodes to nothing.  The serializer is assumed to write one line per value that
  its parser reads back.
\<close>

theorem ndjson_stream_roundtrip:
  assumes "\<forall>v \<in> set vs. line_codec to_string from_str v"
  shows "\<exists>ls. map (encode_line to_string) vs = map Inr ls \<and>
    map (decode_line from_str) (split_on newline (concat ls)) = map (Inr \<circ> Some) vs @ [Inr None]"
  using assms
proof (induction vs)
  case Nil
  then show ?case by (simp add: decode_line_def trim_def trim_start_def trim_end_def)
next
  case (Cons v vs)
  then obtain s ls where s: "to_string v = Some s" "trimmed_text s" "newline \<notin> set s"
      "from_str s = Some v"
    and ls: "map (encode_line to_string) vs = map Inr ls"
      "map (decode_line from_str) (split_on newline (concat ls)) = map (Inr \<circ> Some) vs @ [Inr None]"
    by (auto simp: line_codec_def)
  have "split_on newline (concat ((s @ [newline]) # ls)) = s # split_on newline (concat ls)"
    using split_on_append_sep [OF s(3), of "concat ls"] by simp
  moreover have "decode_line from_str s = Inr (Some v)"
    using s trim_stable [OF s(2)] by (auto simp: decode_line_def trimmed_text_def)
  moreover have "encode_line to_string v = Inr (s @ [newline])"
    by (simp add: encode_line_def s(1))
  ultimately show ?case using ls by (intro exI [of _ "(s @ [newline]) # ls"]) simp
qed

definition sample_to_string :: "srv_msg \<Rightarrow> string option" where
  "sample_to_string m = (case m of SrvShutdown \<Rightarrow> Some (''s'') | _ \<Rightarrow> None)"

definition sample_from_str :: "string \<Rightarrow> srv_msg option" where
  "sample_from_str s = (if s = ''s'' then Some SrvShutdown else None)"

lemma sample_trimmed: "trimmed_text (''s'') \<and> newline \<notin> set (''s'')"
  by (auto simp: trimmed_text_def strip_any_None white_space_def newline_def)

lemma sample_codec: "line_codec sample_to_string sample_from_str SrvShutdown"
  using sample_trimmed by (simp add: line_codec_def sample_to_string_def sample_from_str_def)

theorem ndjson_stream_roundtrip_witness:
  "\<exists>ls. map (encode_line sample_to_string) [SrvShutdown, SrvShutdown] = map Inr ls \<and>
    map (decode_line sample_from_str) (split_on newline (concat ls)) =
      [Inr (Some SrvShutdown), Inr (Some SrvShutdown), Inr None]"
  using ndjson_stream_roundtrip [of "[SrvShutdown, SrvShutdown]" sample_to_string sample_from_str]
    sample_codec by simp

end
