(* ===== verification/Outbound_Queue.thy ===== *)
theory Outbound_Queue
  imports Messages
begin

text \<open>
  \<^verbatim>\<open>crates/whdr-server/src/outbound_queue.rs\<close>: the per-connection queue with a frame-count
  and a byte budget, drop-oldest eviction, and lag accounting.  Each operation runs under the
  queue's mutex (or is one atomic on a counter), so an execution of several tasks is a sequence of
  operations; \<open>pop\<close> is \<open>None\<close> where the code would wait for a notification.  The
  serializer is an argument.
\<close>

section \<open>The code\<close>

record frame =
  fr_text :: string
  fr_closing :: bool
  fr_is_event :: bool

record outbound_queue =
  q_frames :: "frame list"
  q_max_events :: nat
  q_max_event_bytes :: nat
  q_delivered :: nat
  q_dropped :: nat
  q_lag_pending :: nat

definition OutboundQueue_new :: "nat \<Rightarrow> nat \<Rightarrow> outbound_queue" where
  "OutboundQueue_new max_events max_event_bytes =
     \<lparr>q_frames = [], q_max_events = max max_events 1,
      q_max_event_bytes = max max_event_bytes 1,
      q_delivered = 0, q_dropped = 0, q_lag_pending = 0\<rparr>"

definition record_drop :: "outbound_queue \<Rightarrow> outbound_queue" where
  "record_drop q = q\<lparr>q_dropped := q_dropped q + 1, q_lag_pending := q_lag_pending q + 1\<rparr>"

definition take_pending_lag :: "outbound_queue \<Rightarrow> nat option \<times> outbound_queue" where
  "take_pending_lag q =
     ((if q_lag_pending q = 0 then None else Some (q_lag_pending q)),
      q\<lparr>q_lag_pending := 0\<rparr>)"

definition over_budget :: "frame list \<Rightarrow> nat \<Rightarrow> nat \<Rightarrow> nat \<Rightarrow> bool" where
  "over_budget frames incoming_bytes max_events max_event_bytes =
     (let event_count = length (filter fr_is_event frames)
      in if event_count = 0 then False
         else (let event_bytes = sum_list (map (length \<circ> fr_text) (filter fr_is_event frames))
               in event_count + 1 > max_events \<or> event_bytes + incoming_bytes > max_event_bytes))"

text \<open>\<^verbatim>\<open>iter().position(|frame| frame.is_event)\<close> and \<^verbatim>\<open>VecDeque::remove\<close>.\<close>

fun position_event :: "frame list \<Rightarrow> nat option" where
  "position_event [] = None"
| "position_event (f # fs) =
     (if fr_is_event f then Some 0 else map_option Suc (position_event fs))"

definition remove_at :: "nat \<Rightarrow> 'a list \<Rightarrow> 'a list" where
  "remove_at i xs = take i xs @ drop (Suc i) xs"

lemma position_event_length: "position_event fs = Some i \<Longrightarrow> i < length fs"
  by (induction fs arbitrary: i) (auto split: if_splits)

text \<open>The eviction loop of \<^verbatim>\<open>push_event\<close>: every round removes a frame.\<close>

function evict_loop :: "outbound_queue \<Rightarrow> nat \<Rightarrow> outbound_queue" where
  "evict_loop q incoming =
     (if over_budget (q_frames q) incoming (q_max_events q) (q_max_event_bytes q)
      then (case position_event (q_frames q) of
              None \<Rightarrow> q
            | Some evict_at \<Rightarrow>
                evict_loop (record_drop (q\<lparr>q_frames := remove_at evict_at (q_frames q)\<rparr>)) incoming)
      else q)"
  by pat_completeness auto
termination
  by (relation "measure (\<lambda>(q, _). length (q_frames q))")
    (auto simp: remove_at_def record_drop_def dest: position_event_length)

definition event_frame :: "string \<Rightarrow> frame" where
  "event_frame text = \<lparr>fr_text = text, fr_closing = False, fr_is_event = True\<rparr>"

definition push_event :: "outbound_queue \<Rightarrow> string \<Rightarrow> outbound_queue" where
  "push_event q text =
     (if length text > q_max_event_bytes q then record_drop q
      else (let q' = evict_loop q (length text)
            in q'\<lparr>q_frames := q_frames q' @ [event_frame text]\<rparr>))"

fun is_closing :: "sub_server_msg \<Rightarrow> bool" where
  "is_closing (Closing _) = True"
| "is_closing _ = False"

definition push_control ::
  "(sub_server_msg \<Rightarrow> string option) \<Rightarrow> outbound_queue \<Rightarrow> sub_server_msg \<Rightarrow> outbound_queue" where
  "push_control to_string q msg =
     (case to_string msg of
        None \<Rightarrow> q
      | Some text \<Rightarrow>
          q\<lparr>q_frames := q_frames q @
             [\<lparr>fr_text = text, fr_closing = is_closing msg, fr_is_event = False\<rparr>]\<rparr>)"

definition pop :: "outbound_queue \<Rightarrow> (frame \<times> outbound_queue) option" where
  "pop q =
     (case q_frames q of
        [] \<Rightarrow> None
      | f # fs \<Rightarrow>
          Some (f, q\<lparr>q_frames := fs,
                     q_delivered := (if fr_is_event f then q_delivered q + 1 else q_delivered q)\<rparr>))"

declare evict_loop.simps [simp del]

section \<open>Eviction: the oldest events, and no more of them than needed\<close>

abbreviation events_of :: "frame list \<Rightarrow> frame list" where
  "events_of fs \<equiv> filter fr_is_event fs"

abbreviation controls_of :: "frame list \<Rightarrow> frame list" where
  "controls_of fs \<equiv> filter (\<lambda>f. \<not> fr_is_event f) fs"

definition event_bytes :: "frame list \<Rightarrow> nat" where
  "event_bytes fs = sum_list (map (length \<circ> fr_text) fs)"

text \<open>Removing the \<open>k\<close> oldest events, control frames staying where they are.\<close>

fun drop_events :: "nat \<Rightarrow> frame list \<Rightarrow> frame list" where
  "drop_events k [] = []"
| "drop_events 0 fs = fs"
| "drop_events (Suc k) (f # fs) =
     (if fr_is_event f then drop_events k fs else f # drop_events (Suc k) fs)"

text \<open>The incoming event fits after the \<open>k\<close> oldest events are gone.\<close>

definition fits_after :: "outbound_queue \<Rightarrow> nat \<Rightarrow> nat \<Rightarrow> bool" where
  "fits_after q incoming k \<longleftrightarrow>
     (let es = drop k (events_of (q_frames q))
      in es = [] \<or>
         (length es + 1 \<le> q_max_events q \<and> event_bytes es + incoming \<le> q_max_event_bytes q))"

lemma drop_events_0 [simp]: "drop_events 0 fs = fs"
  by (cases fs) simp_all

lemma events_of_drop_events [simp]: "events_of (drop_events k fs) = drop k (events_of fs)"
  by (induction k fs rule: drop_events.induct) auto

lemma controls_of_drop_events [simp]: "controls_of (drop_events k fs) = controls_of fs"
  by (induction k fs rule: drop_events.induct) auto

lemma over_budget_iff:
  "over_budget fs n me mb \<longleftrightarrow> events_of fs \<noteq> [] \<and>
     (length (events_of fs) + 1 > me \<or> event_bytes (events_of fs) + n > mb)"
  by (simp add: over_budget_def event_bytes_def Let_def)

lemma position_event_None: "position_event fs = None \<longleftrightarrow> events_of fs = []"
  by (induction fs) auto

lemma remove_position: "position_event fs = Some i \<Longrightarrow> remove_at i fs = drop_events 1 fs"
proof (induction fs arbitrary: i)
  case (Cons f fs)
  then show ?case by (cases i) (auto simp: remove_at_def split: if_splits)
qed simp

lemma drop_events_Suc: "drop_events k (drop_events (Suc 0) fs) = drop_events (Suc k) fs"
proof (induction fs arbitrary: k)
  case (Cons f fs)
  then show ?case by (cases k) auto
qed simp

definition evicted :: "nat \<Rightarrow> outbound_queue \<Rightarrow> outbound_queue" where
  "evicted k q = q\<lparr>q_frames := drop_events k (q_frames q),
     q_dropped := q_dropped q + k, q_lag_pending := q_lag_pending q + k\<rparr>"

lemma fits_after_evicted: "fits_after (evicted j q) n k \<longleftrightarrow> fits_after q n (k + j)"
  by (simp add: fits_after_def evicted_def Let_def)

lemma evicted_0 [simp]: "evicted 0 q = q"
  by (simp add: evicted_def)

lemma evicted_Suc: "evicted k (evicted (Suc 0) q) = evicted (Suc k) q"
  by (simp add: evicted_def drop_events_Suc)

lemma evict_loop_unfold:
  "evict_loop q n = (if fits_after q n 0 then q else evict_loop (evicted 1 q) n)"
proof (cases "over_budget (q_frames q) n (q_max_events q) (q_max_event_bytes q)")
  case False
  then have "fits_after q n 0"
    by (auto simp: over_budget_iff fits_after_def Let_def)
  with False show ?thesis by (simp add: evict_loop.simps [of q n])
next
  case True
  then have nofit: "\<not> fits_after q n 0"
    by (auto simp: over_budget_iff fits_after_def Let_def)
  from True obtain i where i: "position_event (q_frames q) = Some i"
    using position_event_None [of "q_frames q"] by (auto simp: over_budget_iff)
  then have "record_drop (q\<lparr>q_frames := remove_at i (q_frames q)\<rparr>) = evicted 1 q"
    by (simp add: record_drop_def evicted_def remove_position)
  with True i nofit show ?thesis by (simp add: evict_loop.simps [of q n])
qed

lemma evict_loop_least:
  "\<exists>k \<le> length (events_of (q_frames q)). evict_loop q n = evicted k q \<and>
     fits_after q n k \<and> (\<forall>j < k. \<not> fits_after q n j)"
proof (induction "length (events_of (q_frames q))" arbitrary: q)
  case 0
  then have "fits_after q n 0" by (simp add: fits_after_def)
  then show ?case by (auto simp: evict_loop_unfold [of q n] intro!: exI [of _ 0])
next
  case (Suc m)
  show ?case
  proof (cases "fits_after q n 0")
    case True
    then show ?thesis by (auto simp: evict_loop_unfold [of q n] intro!: exI [of _ 0])
  next
    case False
    have "m = length (events_of (q_frames (evicted 1 q)))"
      using Suc(2) by (simp add: evicted_def)
    from Suc(1) [OF this] obtain k where k: "k \<le> m" "evict_loop (evicted 1 q) n = evicted (Suc k) q"
      "fits_after q n (Suc k)" "\<forall>j < k. \<not> fits_after q n (Suc j)"
      using \<open>m = _\<close> by (auto simp: evicted_Suc fits_after_evicted)
    have "\<forall>j < Suc k. \<not> fits_after q n j"
      using k(4) False less_Suc_eq_0_disj by auto
    with k False Suc(2) show ?thesis
      by (auto simp: evict_loop_unfold [of q n] intro!: exI [of _ "Suc k"])
  qed
qed

lemma push_event_cases:
  obtains (oversized) "length text > q_max_event_bytes q" "push_event q text = record_drop q"
  | (queued) k where "length text \<le> q_max_event_bytes q"
      "k \<le> length (events_of (q_frames q))"
      "push_event q text =
         (evicted k q)\<lparr>q_frames := drop_events k (q_frames q) @ [event_frame text]\<rparr>"
      "fits_after q (length text) k" "\<forall>j < k. \<not> fits_after q (length text) j"
proof (cases "length text > q_max_event_bytes q")
  case True
  then show ?thesis using oversized by (simp add: push_event_def)
next
  case False
  obtain k where "k \<le> length (events_of (q_frames q))" "evict_loop q (length text) = evicted k q"
    "fits_after q (length text) k" "\<forall>j < k. \<not> fits_after q (length text) j"
    using evict_loop_least by blast
  with False show ?thesis
    using queued [of k] by (simp add: push_event_def Let_def evicted_def)
qed

section \<open>The budget invariant and the accounting of every operation\<close>

definition queue_inv :: "outbound_queue \<Rightarrow> bool" where
  "queue_inv q \<longleftrightarrow> 1 \<le> q_max_events q \<and> 1 \<le> q_max_event_bytes q \<and>
     length (events_of (q_frames q)) \<le> q_max_events q \<and>
     event_bytes (events_of (q_frames q)) \<le> q_max_event_bytes q \<and>
     q_lag_pending q \<le> q_dropped q"

lemma event_frame_simps [simp]: "fr_is_event (event_frame t)" "fr_text (event_frame t) = t"
  by (simp_all add: event_frame_def)

lemma queue_inv_new: "queue_inv (OutboundQueue_new a b)"
  by (simp add: queue_inv_def OutboundQueue_new_def event_bytes_def)

lemma queue_inv_push_event: "queue_inv q \<Longrightarrow> queue_inv (push_event q t)"
proof (cases rule: push_event_cases [of q t])
  case (queued k)
  assume "queue_inv q"
  with queued show ?thesis
    by (auto simp: queue_inv_def evicted_def fits_after_def event_bytes_def Let_def)
qed (simp_all add: queue_inv_def record_drop_def)

lemma queue_inv_push_control: "queue_inv q \<Longrightarrow> queue_inv (push_control ser q msg)"
  by (auto simp: queue_inv_def push_control_def split: option.splits)

lemma queue_inv_pop: "queue_inv q \<Longrightarrow> pop q = Some (f, q') \<Longrightarrow> queue_inv q'"
  by (auto simp: queue_inv_def pop_def event_bytes_def split: list.splits if_splits)

lemma queue_inv_take_lag: "queue_inv q \<Longrightarrow> queue_inv (snd (take_pending_lag q))"
  by (simp add: queue_inv_def take_pending_lag_def)

section \<open>The contract of an outbox, and the code's queue as one\<close>

text \<open>
  What the fan-out and the connection loop rely on: control frames are never lost or
  reordered, events leave in the order they came, every event is delivered, still queued or
  counted as dropped, and every drop is reported as lag exactly once.
\<close>

datatype outbox_op = OpEvent string | OpControl sub_server_msg | OpPop | OpLag

text \<open>
  An execution: a sequence of operations, in the order the mutex serialises them.  The
  result is the final state, the frames popped in order, and the total of the lag reports.
\<close>

fun run_ops ::
  "('q \<Rightarrow> outbox_op \<Rightarrow> 'q \<times> frame list \<times> nat) \<Rightarrow> 'q \<Rightarrow> outbox_op list \<Rightarrow>
   'q \<times> frame list \<times> nat" where
  "run_ops step q [] = (q, [], 0)"
| "run_ops step q (x # xs) =
     (case step q x of (q1, fs1, n1) \<Rightarrow>
        (case run_ops step q1 xs of (q2, fs2, n2) \<Rightarrow> (q2, fs1 @ fs2, n1 + n2)))"

fun queue_step ::
  "(sub_server_msg \<Rightarrow> string option) \<Rightarrow> outbound_queue \<Rightarrow> outbox_op \<Rightarrow>
   outbound_queue \<times> frame list \<times> nat" where
  "queue_step to_string q (OpEvent t) = (push_event q t, [], 0)"
| "queue_step to_string q (OpControl m) = (push_control to_string q m, [], 0)"
| "queue_step to_string q OpPop =
     (case pop q of None \<Rightarrow> (q, [], 0) | Some (f, q') \<Rightarrow> (q', [f], 0))"
| "queue_step to_string q OpLag =
     (case take_pending_lag q of
        (None, q') \<Rightarrow> (q', [], 0)
      | (Some n, q') \<Rightarrow> (q', [], n))"

definition control_frame ::
  "(sub_server_msg \<Rightarrow> string option) \<Rightarrow> sub_server_msg \<Rightarrow> frame option" where
  "control_frame to_string msg =
     map_option (\<lambda>text. \<lparr>fr_text = text, fr_closing = is_closing msg, fr_is_event = False\<rparr>)
       (to_string msg)"

text \<open>The frame an operation offers to the queue.\<close>

fun offered :: "(sub_server_msg \<Rightarrow> frame option) \<Rightarrow> outbox_op \<Rightarrow> frame list" where
  "offered render (OpEvent t) = [event_frame t]"
| "offered render (OpControl m) = (case render m of None \<Rightarrow> [] | Some f \<Rightarrow> [f])"
| "offered render _ = []"

fun is_put :: "outbox_op \<Rightarrow> bool" where
  "is_put (OpEvent _) = True"
| "is_put _ = False"

locale outbox =
  fixes inv :: "'q \<Rightarrow> bool"
    and contents :: "'q \<Rightarrow> frame list"
    and put_event :: "'q \<Rightarrow> string \<Rightarrow> 'q"
    and put_control :: "'q \<Rightarrow> sub_server_msg \<Rightarrow> 'q"
    and take :: "'q \<Rightarrow> (frame \<times> 'q) option"
    and lag :: "'q \<Rightarrow> nat option \<times> 'q"
    and delivered dropped unreported :: "'q \<Rightarrow> nat"
    and render :: "sub_server_msg \<Rightarrow> frame option"
  assumes inv_put_event: "inv q \<Longrightarrow> inv (put_event q t)"
    and inv_put_control: "inv q \<Longrightarrow> inv (put_control q m)"
    and inv_take: "inv q \<Longrightarrow> take q = Some (f, q') \<Longrightarrow> inv q'"
    and inv_lag: "inv q \<Longrightarrow> inv (snd (lag q))"
    and event_keeps_controls: "controls_of (contents (put_event q t)) = controls_of (contents q)"
    and event_order: "subseq (contents (put_event q t)) (contents q @ [event_frame t])"
    and event_count: "length (events_of (contents (put_event q t))) + dropped (put_event q t) =
          length (events_of (contents q)) + dropped q + 1"
    and event_unreported: "unreported (put_event q t) + dropped q =
          unreported q + dropped (put_event q t)"
    and event_delivered: "delivered (put_event q t) = delivered q"
    and control_contents: "contents (put_control q m) = contents q @
          (case render m of None \<Rightarrow> [] | Some f \<Rightarrow> [f])"
    and control_counts: "delivered (put_control q m) = delivered q"
          "dropped (put_control q m) = dropped q" "unreported (put_control q m) = unreported q"
    and render_control: "render m = Some f \<Longrightarrow> \<not> fr_is_event f"
    and take_None: "take q = None \<longleftrightarrow> contents q = []"
    and take_contents: "take q = Some (f, q') \<Longrightarrow> contents q = f # contents q'"
    and take_counts: "take q = Some (f, q') \<Longrightarrow>
          delivered q' = delivered q + (if fr_is_event f then 1 else 0) \<and>
          dropped q' = dropped q \<and> unreported q' = unreported q"
    and lag_report: "fst (lag q) = (if unreported q = 0 then None else Some (unreported q))"
    and lag_state: "contents (snd (lag q)) = contents q" "unreported (snd (lag q)) = 0"
          "delivered (snd (lag q)) = delivered q" "dropped (snd (lag q)) = dropped q"
begin

fun op_step :: "'q \<Rightarrow> outbox_op \<Rightarrow> 'q \<times> frame list \<times> nat" where
  "op_step q (OpEvent t) = (put_event q t, [], 0)"
| "op_step q (OpControl m) = (put_control q m, [], 0)"
| "op_step q OpPop = (case take q of None \<Rightarrow> (q, [], 0) | Some (f, q') \<Rightarrow> (q', [f], 0))"
| "op_step q OpLag = (snd (lag q), [], case fst (lag q) of None \<Rightarrow> 0 | Some n \<Rightarrow> n)"

lemma controls_rendered [simp]:
  "controls_of (case render m of None \<Rightarrow> [] | Some f \<Rightarrow> [f]) =
     (case render m of None \<Rightarrow> [] | Some f \<Rightarrow> [f])"
  using render_control by (auto split: option.splits)

lemma events_rendered [simp]:
  "events_of (case render m of None \<Rightarrow> [] | Some f \<Rightarrow> [f]) = []"
  using render_control by (auto split: option.splits)

lemma step_inv: "inv q \<Longrightarrow> inv (fst (op_step q x))"
  by (cases x) (auto simp: inv_put_event inv_put_control inv_lag dest: inv_take split: option.splits)

lemma step_controls:
  "op_step q x = (q', fs, n) \<Longrightarrow>
   controls_of fs @ controls_of (contents q') = controls_of (contents q) @ controls_of (offered render x)"
  by (cases x) (auto simp: event_keeps_controls control_contents lag_state
      dest: take_contents render_control split: option.splits)

lemma step_order:
  "op_step q x = (q', fs, n) \<Longrightarrow> subseq (fs @ contents q') (contents q @ offered render x)"
  by (cases x) (auto simp: event_order control_contents lag_state dest: take_contents split: option.splits)

lemma take_props:
  "take q = Some (f, q') \<Longrightarrow> contents q = f # contents q' \<and>
     delivered q' = delivered q + (if fr_is_event f then 1 else 0) \<and>
     dropped q' = dropped q \<and> unreported q' = unreported q"
  using take_contents take_counts by blast

lemma step_count:
  "op_step q x = (q', fs, n) \<Longrightarrow>
   delivered q' + length (events_of (contents q')) + dropped q' =
   delivered q + length (events_of (contents q)) + dropped q + (if is_put x then 1 else 0)"
  using event_count [of q] event_delivered [of q]
  by (cases x) (auto simp: control_contents control_counts lag_state
      dest!: take_props dest: render_control split: option.splits)

lemma step_lag:
  "op_step q x = (q', fs, n) \<Longrightarrow> n + unreported q' + dropped q = unreported q + dropped q'"
  using event_unreported [of q]
  by (cases x) (auto simp: control_counts lag_state lag_report dest!: take_counts
      split: option.splits if_splits)

lemma run_inv: "inv q \<Longrightarrow> inv (fst (run_ops op_step q xs))"
proof (induction xs arbitrary: q)
  case (Cons x xs)
  have "inv (fst (run_ops op_step (fst (op_step q x)) xs))"
    using Cons.IH step_inv Cons.prems by blast
  then show ?case by (auto split: prod.splits)
qed simp

lemma run_controls:
  "run_ops op_step q xs = (q', fs, n) \<Longrightarrow>
   controls_of fs @ controls_of (contents q') =
   controls_of (contents q) @ controls_of (concat (map (offered render) xs))"
proof (induction xs arbitrary: q q' fs n)
  case (Cons x xs)
  obtain q1 fs1 n1 where 1: "op_step q x = (q1, fs1, n1)" by (cases "op_step q x") auto
  obtain fs2 n2 where 2: "run_ops op_step q1 xs = (q', fs2, n2)" and fs: "fs = fs1 @ fs2"
    using Cons.prems 1 by (auto split: prod.splits)
  have "controls_of fs @ controls_of (contents q') =
      (controls_of fs1 @ controls_of (contents q1)) @ controls_of (concat (map (offered render) xs))"
    using Cons.IH [OF 2] by (simp add: fs)
  then show ?case using step_controls [OF 1] by simp
qed simp

lemma run_order:
  "run_ops op_step q xs = (q', fs, n) \<Longrightarrow>
   subseq (fs @ contents q') (contents q @ concat (map (offered render) xs))"
proof (induction xs arbitrary: q q' fs n)
  case (Cons x xs)
  obtain q1 fs1 n1 where 1: "op_step q x = (q1, fs1, n1)" by (cases "op_step q x") auto
  obtain fs2 n2 where 2: "run_ops op_step q1 xs = (q', fs2, n2)" and fs: "fs = fs1 @ fs2"
    using Cons.prems 1 by (auto split: prod.splits)
  have "subseq (fs1 @ fs2 @ contents q') (fs1 @ contents q1 @ concat (map (offered render) xs))"
    using Cons.IH [OF 2] by (simp add: subseq_append_le_same_iff list_emb_append_mono)
  moreover have "subseq (fs1 @ contents q1 @ concat (map (offered render) xs))
      ((contents q @ offered render x) @ concat (map (offered render) xs))"
    using step_order [OF 1] by (metis append_assoc list_emb_append_mono subseq_order.order_refl)
  ultimately show ?case
    using subseq_order.order_trans by (fastforce simp: fs)
qed simp

lemma run_count:
  "run_ops op_step q xs = (q', fs, n) \<Longrightarrow>
   delivered q' + length (events_of (contents q')) + dropped q' =
   delivered q + length (events_of (contents q)) + dropped q + length (filter is_put xs)"
proof (induction xs arbitrary: q q' fs n)
  case (Cons x xs)
  obtain q1 fs1 n1 where 1: "op_step q x = (q1, fs1, n1)" by (cases "op_step q x") auto
  obtain fs2 n2 where 2: "run_ops op_step q1 xs = (q', fs2, n2)"
    using Cons.prems 1 by (auto split: prod.splits)
  show ?case using Cons.IH [OF 2] step_count [OF 1] by simp
qed simp

lemma run_lag:
  "run_ops op_step q xs = (q', fs, n) \<Longrightarrow> n + unreported q' + dropped q = unreported q + dropped q'"
proof (induction xs arbitrary: q q' fs n)
  case (Cons x xs)
  obtain q1 fs1 n1 where 1: "op_step q x = (q1, fs1, n1)" by (cases "op_step q x") auto
  obtain fs2 n2 where 2: "run_ops op_step q1 xs = (q', fs2, n2)" and n: "n = n1 + n2"
    using Cons.prems 1 by (auto split: prod.splits)
  show ?case using Cons.IH [OF 2] step_lag [OF 1] by (simp add: n)
qed simp

end

lemma drop_events_subseq: "subseq (drop_events k fs) fs"
  by (induction k fs rule: drop_events.induct) auto

interpretation oq: outbox queue_inv q_frames push_event "push_control to_string" pop
  take_pending_lag q_delivered q_dropped q_lag_pending "control_frame to_string"
  for to_string :: "sub_server_msg \<Rightarrow> string option"
proof
  fix q t
  show "controls_of (q_frames (push_event q t)) = controls_of (q_frames q)"
    by (cases rule: push_event_cases [of q t]) (simp_all add: record_drop_def)
  show "subseq (q_frames (push_event q t)) (q_frames q @ [event_frame t])"
    by (cases rule: push_event_cases [of q t])
      (simp_all add: record_drop_def drop_events_subseq list_emb_append_mono subseq_rev_drop_many)
  show "length (events_of (q_frames (push_event q t))) + q_dropped (push_event q t) =
      length (events_of (q_frames q)) + q_dropped q + 1"
    by (cases rule: push_event_cases [of q t]) (simp_all add: record_drop_def evicted_def)
  show "q_lag_pending (push_event q t) + q_dropped q = q_lag_pending q + q_dropped (push_event q t)"
    by (cases rule: push_event_cases [of q t]) (simp_all add: record_drop_def evicted_def)
  show "q_delivered (push_event q t) = q_delivered q"
    by (cases rule: push_event_cases [of q t]) (simp_all add: record_drop_def evicted_def)
next
  fix q m f q'
  show "queue_inv q \<Longrightarrow> queue_inv (push_control to_string q m)"
    by (rule queue_inv_push_control)
  show "queue_inv q \<Longrightarrow> pop q = Some (f, q') \<Longrightarrow> queue_inv q'"
    by (rule queue_inv_pop)
  show "queue_inv q \<Longrightarrow> queue_inv (snd (take_pending_lag q))"
    by (rule queue_inv_take_lag)
qed (auto simp: queue_inv_push_event push_control_def control_frame_def take_pending_lag_def pop_def
    split: option.splits list.splits if_splits)

lemma queue_step_eq: "queue_step to_string = oq.op_step to_string"
proof (intro ext)
  fix q x
  show "queue_step to_string q x = oq.op_step to_string q x"
    by (cases x) (auto simp: take_pending_lag_def)
qed

text \<open>The two limits never change.\<close>

lemma queue_step_budget:
  "queue_step to_string q x = (q', fs, n) \<Longrightarrow>
   q_max_events q' = q_max_events q \<and> q_max_event_bytes q' = q_max_event_bytes q"
proof (cases x)
  case (OpEvent t)
  assume "queue_step to_string q x = (q', fs, n)"
  with OpEvent have q': "q' = push_event q t" by simp
  show ?thesis
    unfolding q' by (cases rule: push_event_cases [of q t]) (simp_all add: record_drop_def evicted_def)
qed (auto simp: push_control_def pop_def take_pending_lag_def split: option.splits list.splits if_splits)

lemma run_ops_budget:
  "run_ops (queue_step to_string) q xs = (q', fs, n) \<Longrightarrow>
   q_max_events q' = q_max_events q \<and> q_max_event_bytes q' = q_max_event_bytes q"
proof (induction xs arbitrary: q fs n)
  case (Cons x xs)
  obtain q1 fs1 n1 where 1: "queue_step to_string q x = (q1, fs1, n1)"
    by (cases "queue_step to_string q x") auto
  with Cons.prems obtain fs2 n2 where "run_ops (queue_step to_string) q1 xs = (q', fs2, n2)"
    by (auto split: prod.splits)
  from Cons.IH [OF this] queue_step_budget [OF 1] show ?case by simp
qed simp

section \<open>Properties\<close>

text \<open>
  C11: pushing an event never blocks and never grows the queue past its budget: an event larger
  than the whole byte budget is dropped alone; otherwise it is appended after evicting the
  oldest events, exactly as many as needed, and every eviction is counted.
\<close>

theorem push_event_evicts_least:
  "if length t > q_max_event_bytes q then push_event q t = record_drop q
   else \<exists>k. push_event q t =
          q\<lparr>q_frames := drop_events k (q_frames q) @ [event_frame t],
            q_dropped := q_dropped q + k, q_lag_pending := q_lag_pending q + k\<rparr> \<and>
        fits_after q (length t) k \<and> (\<forall>j < k. \<not> fits_after q (length t) j)"
proof (cases rule: push_event_cases [of q t])
  case oversized
  then show ?thesis by simp
next
  case (queued k)
  have "push_event q t = q\<lparr>q_frames := drop_events k (q_frames q) @ [event_frame t],
      q_dropped := q_dropped q + k, q_lag_pending := q_lag_pending q + k\<rparr>"
    unfolding queued(3) by (simp add: evicted_def)
  with queued(1,4,5) show ?thesis by (simp only: not_less [symmetric] if_False) blast
qed

definition sample_queue :: outbound_queue where
  "sample_queue = push_event (push_event (OutboundQueue_new 2 10) ''aa'') ''bb''"

theorem push_event_evicts_least_witness:
  "\<exists>k. push_event sample_queue ''cc'' =
     sample_queue\<lparr>q_frames := drop_events k (q_frames sample_queue) @ [event_frame ''cc''],
       q_dropped := q_dropped sample_queue + k, q_lag_pending := q_lag_pending sample_queue + k\<rparr> \<and>
     fits_after sample_queue (length ''cc'') k"
proof -
  have "\<not> length ''cc'' > q_max_event_bytes sample_queue" by code_simp
  with push_event_evicts_least [of sample_queue "''cc''"] show ?thesis
    by (simp only: if_False) blast
qed

text \<open>
  C10: in every execution of a connection's queue, whatever the interleaving of fan-out pushes,
  control pushes, pops and lag reports: the events queued stay within both budgets; control
  frames all arrive, in order; what arrives is in the order it was offered; every event
  offered is delivered, still queued or counted as dropped; and the lag reports add up to
  exactly the drops not yet pending.
\<close>

theorem outbound_queue_execution:
  assumes "run_ops (queue_step to_string) (OutboundQueue_new a b) xs = (q, fs, n)"
  shows "length (events_of (q_frames q)) \<le> max a 1 \<and>
    event_bytes (events_of (q_frames q)) \<le> max b 1 \<and>
    controls_of fs @ controls_of (q_frames q) =
      controls_of (concat (map (offered (control_frame to_string)) xs)) \<and>
    subseq (fs @ q_frames q) (concat (map (offered (control_frame to_string)) xs)) \<and>
    q_delivered q + length (events_of (q_frames q)) + q_dropped q = length (filter is_put xs) \<and>
    n + q_lag_pending q = q_dropped q"
proof -
  note run = assms [unfolded queue_step_eq]
  have inv: "queue_inv q"
    using oq.run_inv [OF queue_inv_new, of to_string a b xs] run by simp
  have max: "q_max_events q = max a 1" "q_max_event_bytes q = max b 1"
    using run_ops_budget [OF assms] by (simp_all add: OutboundQueue_new_def)
  have "length (events_of (q_frames q)) \<le> max a 1" "event_bytes (events_of (q_frames q)) \<le> max b 1"
    using inv unfolding queue_inv_def max by blast+
  then show ?thesis
    using oq.run_controls [OF run] oq.run_order [OF run] oq.run_count [OF run] oq.run_lag [OF run]
    by (simp add: OutboundQueue_new_def)
qed

definition sample_ops :: "outbox_op list" where
  "sample_ops = [OpEvent ''aa'', OpControl Pong, OpEvent ''bb'', OpEvent ''cc'', OpPop, OpLag]"

theorem outbound_queue_execution_witness:
  "case run_ops (queue_step (\<lambda>_. Some ''p'')) (OutboundQueue_new 2 10) sample_ops of
     (q, fs, n) \<Rightarrow> length (events_of (q_frames q)) \<le> 2 \<and> n + q_lag_pending q = q_dropped q \<and>
       q_delivered q + length (events_of (q_frames q)) + q_dropped q = 3"
proof -
  obtain q fs n where run: "run_ops (queue_step (\<lambda>_. Some ''p'')) (OutboundQueue_new 2 10) sample_ops =
      (q, fs, n)" by (metis prod_cases3)
  show ?thesis
    unfolding run using outbound_queue_execution [OF run] by (simp add: sample_ops_def)
qed

end
