(* ===== verification/Config.thy ===== *)
theory Config
  imports Prelude
begin

text \<open>
  \<^verbatim>\<open>crates/whdr-server/src/config.rs\<close>: the configuration, its defaults, loading and
  validation.  The file system (file contents, file modes) and the TOML parser are arguments
  of \<open>Config_load\<close>; a missing section of the file takes the section's default, which is the
  parser's (serde's) business.
\<close>

section \<open>Addresses\<close>

datatype ip_addr = V4 "8 word" "8 word" "8 word" "8 word" | V6 "128 word"

record socket_addr =
  sa_ip :: ip_addr
  sa_port :: u16

text \<open>\<^verbatim>\<open>IpAddr::is_loopback\<close>: 127.0.0.0/8 and ::1.\<close>

fun is_loopback :: "ip_addr \<Rightarrow> bool" where
  "is_loopback (V4 a b c d) \<longleftrightarrow> a = 127"
| "is_loopback (V6 w) \<longleftrightarrow> w = 1"

definition LOCALHOST :: ip_addr where
  "LOCALHOST = V4 127 0 0 1"

section \<open>The configuration\<close>

record server_config =
  listen_addr :: socket_addr
  sub_addr :: socket_addr
  control_socket :: string
  metrics_addr :: "socket_addr option"

record tls_config =
  tls_cert :: string
  tls_key :: string

record subscribers_config =
  token_store_file :: "string option"
  allow_plaintext_lan :: bool
  ws_idle_timeout_ms :: u64
  tls :: "tls_config option"

record extensions_config =
  enabled_exts :: "string list"
  autostart_all :: bool

record limits_config =
  max_body_bytes :: nat
  max_in_flight :: nat
  sub_queue_len :: nat
  sub_queue_bytes :: nat
  dispatch_timeout_ms :: u64
  max_protocol_errors :: nat
  hang_kill_threshold :: nat
  crashloop_threshold :: nat
  crashloop_window_ms :: u64

record timeouts_config =
  register_ms :: u64
  drain_ms :: u64
  term_grace_ms :: u64

record delivery_config =
  dc_enabled :: bool
  dc_store_path :: string
  dc_retention_secs :: u64
  dc_max_bytes :: u64
  dc_max_events :: u64
  dc_prune_interval_secs :: u64

record config =
  cfg_server :: server_config
  cfg_subscribers :: subscribers_config
  cfg_extensions :: extensions_config
  cfg_limits :: limits_config
  cfg_timeouts :: timeouts_config
  cfg_delivery :: delivery_config
  cfg_secrets_file :: "string option"
  cfg_secrets :: "(string \<times> string) list"

record raw_config =
  raw_server :: server_config
  raw_subscribers :: subscribers_config
  raw_extensions :: extensions_config
  raw_limits :: limits_config
  raw_timeouts :: timeouts_config
  raw_delivery :: delivery_config
  raw_secrets :: "string option"

definition ServerConfig_default :: server_config where
  "ServerConfig_default =
     \<lparr>listen_addr = \<lparr>sa_ip = LOCALHOST, sa_port = 8787\<rparr>,
      sub_addr = \<lparr>sa_ip = LOCALHOST, sa_port = 8788\<rparr>,
      control_socket = ''/run/whdr/ctl.sock'', metrics_addr = None\<rparr>"

definition SubscribersConfig_default :: subscribers_config where
  "SubscribersConfig_default =
     \<lparr>token_store_file = None, allow_plaintext_lan = False, ws_idle_timeout_ms = 30000, tls = None\<rparr>"

definition ExtensionsConfig_default :: extensions_config where
  "ExtensionsConfig_default = \<lparr>enabled_exts = [], autostart_all = False\<rparr>"

definition LimitsConfig_default :: limits_config where
  "LimitsConfig_default =
     \<lparr>max_body_bytes = 1048576, max_in_flight = 64, sub_queue_len = 1024,
      sub_queue_bytes = 8388608, dispatch_timeout_ms = 10000, max_protocol_errors = 3,
      hang_kill_threshold = 3, crashloop_threshold = 5, crashloop_window_ms = 60000\<rparr>"

definition TimeoutsConfig_default :: timeouts_config where
  "TimeoutsConfig_default = \<lparr>register_ms = 5000, drain_ms = 5000, term_grace_ms = 3000\<rparr>"

definition DeliveryConfig_default :: delivery_config where
  "DeliveryConfig_default =
     \<lparr>dc_enabled = False, dc_store_path = ''/var/lib/whdr/delivery.redb'',
      dc_retention_secs = 86400, dc_max_bytes = 536870912, dc_max_events = 1000000,
      dc_prune_interval_secs = 300\<rparr>"

definition RawConfig_default :: raw_config where
  "RawConfig_default =
     \<lparr>raw_server = ServerConfig_default, raw_subscribers = SubscribersConfig_default,
      raw_extensions = ExtensionsConfig_default, raw_limits = LimitsConfig_default,
      raw_timeouts = TimeoutsConfig_default, raw_delivery = DeliveryConfig_default,
      raw_secrets = None\<rparr>"

section \<open>Validation and loading\<close>

datatype config_error =
    ReadConfig string
  | ParseConfig
  | StatFailed string
  | BadMode string u32
  | ReadSecrets string
  | ParseSecrets
  | TlsNotImplemented
  | MetricsNotLoopback
  | PlaintextBindRefused
  | DeliveryLimitsZero

definition token_store_path :: "config \<Rightarrow> string" where
  "token_store_path self =
     (case token_store_file (cfg_subscribers self) of
        None \<Rightarrow> ''/var/lib/whdr/tokens.toml'' | Some p \<Rightarrow> p)"

definition Config_validate :: "config \<Rightarrow> config_error + unit" where
  "Config_validate self =
     (if tls (cfg_subscribers self) \<noteq> None then Inl TlsNotImplemented
      else if (case metrics_addr (cfg_server self) of
                 None \<Rightarrow> False | Some a \<Rightarrow> \<not> is_loopback (sa_ip a))
      then Inl MetricsNotLoopback
      else if \<not> is_loopback (sa_ip (sub_addr (cfg_server self))) \<and>
              tls (cfg_subscribers self) = None \<and>
              \<not> allow_plaintext_lan (cfg_subscribers self)
      then Inl PlaintextBindRefused
      else if dc_enabled (cfg_delivery self) \<and>
              (dc_retention_secs (cfg_delivery self) = 0 \<or>
               dc_max_bytes (cfg_delivery self) = 0 \<or> dc_max_events (cfg_delivery self) = 0)
      then Inl DeliveryLimitsZero
      else Inr ())"

text \<open>\<^verbatim>\<open>enforce_0600\<close>: \<open>stat\<close> yields the file's \<^verbatim>\<open>st_mode\<close>; 511 is 0o777, 384 is 0o600.\<close>

definition enforce_0600 :: "(string \<Rightarrow> u32 option) \<Rightarrow> string \<Rightarrow> config_error + unit" where
  "enforce_0600 stat path =
     (case stat path of
        None \<Rightarrow> Inl (StatFailed path)
      | Some st_mode \<Rightarrow>
          (let mode = and st_mode 511
           in if mode \<noteq> 384 then Inl (BadMode path mode) else Inr ()))"

definition Config_load ::
  "(string \<Rightarrow> string option) \<Rightarrow> (string \<Rightarrow> u32 option) \<Rightarrow> (string \<Rightarrow> raw_config option) \<Rightarrow>
   (string \<Rightarrow> (string \<times> string) list option) \<Rightarrow> string \<Rightarrow> config_error + config" where
  "Config_load read stat parse_raw parse_secrets path =
     (case read path of
        None \<Rightarrow> Inl (ReadConfig path)
      | Some text \<Rightarrow>
     (case parse_raw text of
        None \<Rightarrow> Inl ParseConfig
      | Some raw \<Rightarrow>
     (case (case raw_secrets raw of
              None \<Rightarrow> Inr (None, [])
            | Some file \<Rightarrow>
                (case enforce_0600 stat file of
                   Inl e \<Rightarrow> Inl e
                 | Inr _ \<Rightarrow>
                (case read file of
                   None \<Rightarrow> Inl (ReadSecrets file)
                 | Some secrets_text \<Rightarrow>
                (case parse_secrets secrets_text of
                   None \<Rightarrow> Inl ParseSecrets
                 | Some secrets \<Rightarrow> Inr (Some file, secrets))))) of
        Inl e \<Rightarrow> Inl e
      | Inr (secrets_file, secrets) \<Rightarrow>
          (let config =
             \<lparr>cfg_server = raw_server raw, cfg_subscribers = raw_subscribers raw,
              cfg_extensions = raw_extensions raw, cfg_limits = raw_limits raw,
              cfg_timeouts = raw_timeouts raw, cfg_delivery = raw_delivery raw,
              cfg_secrets_file = secrets_file, cfg_secrets = secrets\<rparr>
           in (case Config_validate config of Inl e \<Rightarrow> Inl e | Inr _ \<Rightarrow> Inr config)))))"

section \<open>Facts\<close>

lemma Config_validate_ok:
  "Config_validate c = Inr () \<longleftrightarrow>
     tls (cfg_subscribers c) = None \<and>
     (\<forall>a. metrics_addr (cfg_server c) = Some a \<longrightarrow> is_loopback (sa_ip a)) \<and>
     (is_loopback (sa_ip (sub_addr (cfg_server c))) \<or> allow_plaintext_lan (cfg_subscribers c)) \<and>
     (dc_enabled (cfg_delivery c) \<longrightarrow> 0 < dc_retention_secs (cfg_delivery c) \<and>
        0 < dc_max_bytes (cfg_delivery c) \<and> 0 < dc_max_events (cfg_delivery c))"
  by (auto simp: Config_validate_def word_gt_0 split: option.splits)

lemma enforce_0600_ok:
  "enforce_0600 stat path = Inr () \<longleftrightarrow> (\<exists>m. stat path = Some m \<and> and m 511 = 384)"
  by (auto simp: enforce_0600_def Let_def split: option.splits)

text \<open>
  A configuration that \<^verbatim>\<open>Config::load\<close> accepts has passed validation, its subscriber
  listener is on a loopback address unless plaintext on the LAN was opted into, its metrics
  listener (if any) is on a loopback address, and the secrets it carries come from a file
  whose permission bits are exactly 0600.
\<close>

theorem Config_load_guarded:
  assumes "Config_load read stat parse_raw parse_secrets path = Inr c"
  shows "Config_validate c = Inr () \<and>
    (is_loopback (sa_ip (sub_addr (cfg_server c))) \<or> allow_plaintext_lan (cfg_subscribers c)) \<and>
    (\<forall>a. metrics_addr (cfg_server c) = Some a \<longrightarrow> is_loopback (sa_ip a)) \<and>
    (case cfg_secrets_file c of
       None \<Rightarrow> cfg_secrets c = []
     | Some f \<Rightarrow> \<exists>m txt. stat f = Some m \<and> and m 511 = 384 \<and> read f = Some txt \<and>
                   parse_secrets txt = Some (cfg_secrets c))"
proof -
  have valid: "Config_validate c = Inr ()"
    using assms by (auto simp: Config_load_def Let_def split: option.splits sum.splits)
  have "case cfg_secrets_file c of
       None \<Rightarrow> cfg_secrets c = []
     | Some f \<Rightarrow> \<exists>m txt. stat f = Some m \<and> and m 511 = 384 \<and> read f = Some txt \<and>
                   parse_secrets txt = Some (cfg_secrets c)"
    using assms enforce_0600_ok [of stat]
    by (auto simp: Config_load_def Let_def split: option.splits sum.splits)
  with valid show ?thesis by (simp add: Config_validate_ok)
qed

theorem Config_load_guarded_witness:
  "Config_load (\<lambda>p. Some p) (\<lambda>_. Some 33152) (\<lambda>_. Some (RawConfig_default\<lparr>raw_secrets := Some ''s''\<rparr>))
     (\<lambda>_. Some []) ''c'' =
   Inr \<lparr>cfg_server = ServerConfig_default, cfg_subscribers = SubscribersConfig_default,
        cfg_extensions = ExtensionsConfig_default, cfg_limits = LimitsConfig_default,
        cfg_timeouts = TimeoutsConfig_default, cfg_delivery = DeliveryConfig_default,
        cfg_secrets_file = Some ''s'', cfg_secrets = []\<rparr> \<and>
   is_loopback (sa_ip (sub_addr ServerConfig_default))"
proof -
  have load: "Config_load (\<lambda>p. Some p) (\<lambda>_. Some 33152)
      (\<lambda>_. Some (RawConfig_default\<lparr>raw_secrets := Some ''s''\<rparr>)) (\<lambda>_. Some []) ''c'' =
    Inr \<lparr>cfg_server = ServerConfig_default, cfg_subscribers = SubscribersConfig_default,
        cfg_extensions = ExtensionsConfig_default, cfg_limits = LimitsConfig_default,
        cfg_timeouts = TimeoutsConfig_default, cfg_delivery = DeliveryConfig_default,
        cfg_secrets_file = Some ''s'', cfg_secrets = []\<rparr>"
    by (simp add: Config_load_def enforce_0600_def RawConfig_default_def Config_validate_def
        ServerConfig_default_def SubscribersConfig_default_def DeliveryConfig_default_def
        LOCALHOST_def Let_def)
  show ?thesis
    using load Config_load_guarded [OF load] by (simp add: SubscribersConfig_default_def)
qed

end
