(* ===== verification/Delivery_Log.thy ===== *)
theory Delivery_Log
  imports Messages Config
begin

text \<open>
  \<^verbatim>\<open>crates/whdr-server/src/delivery_log.rs\<close>: the durable log.  The redb table is its ordered
  list of rows (key, value bytes).  What is not part of the sources comes as arguments: the
  JSON codec of a stored row (\<open>enc\<close>, \<open>dec\<close>), the identities \<^verbatim>\<open>Uuid::new_v4\<close> draws
  (\<open>mint i\<close> for the \<open>i\<close>-th event of a batch) and whether the write transaction commits
  (\<open>db_ok\<close>); redb is transactional, so a transaction that does not commit changes nothing.
\<close>

section \<open>The code\<close>

record stored_event =
  se_id :: uuid
  se_ts_ms :: u64
  se_channel :: string
  se_payload_b64 :: string

type_synonym table = "(u64 \<times> string) list"

record shared =
  sh_table :: table
  sh_head :: u64
  sh_floor :: u64
  sh_count :: u64
  sh_bytes :: u64
  sh_retention_secs :: u64
  sh_max_bytes :: u64
  sh_max_events :: u64

datatype log_error = DbError | SerdeError | LogConfigError config_error | LogFsError

text \<open>\<^verbatim>\<open>Table::insert\<close> on an ordered table.\<close>

fun table_insert :: "u64 \<Rightarrow> string \<Rightarrow> table \<Rightarrow> table" where
  "table_insert k v [] = [(k, v)]"
| "table_insert k v ((k', v') # t) =
     (if k < k' then (k, v) # (k', v') # t
      else if k = k' then (k, v) # t
      else (k', v') # table_insert k v t)"

definition stamp ::
  "u64 \<Rightarrow> (nat \<Rightarrow> uuid) \<Rightarrow> u64 \<Rightarrow> nat \<Rightarrow> event \<Rightarrow> stamped_event" where
  "stamp base mint ts_ms offset e =
     \<lparr>st_seq = base + 1 + of_nat offset, st_id = mint offset, st_ts_ms = ts_ms,
      st_channel = ev_channel e, st_payload_b64 = ev_payload_b64 e\<rparr>"

definition stored_of :: "stamped_event \<Rightarrow> stored_event" where
  "stored_of s =
     \<lparr>se_id = st_id s, se_ts_ms = st_ts_ms s, se_channel = st_channel s,
      se_payload_b64 = st_payload_b64 s\<rparr>"

definition stamped_of :: "u64 \<Rightarrow> stored_event \<Rightarrow> stamped_event" where
  "stamped_of seq s =
     \<lparr>st_seq = seq, st_id = se_id s, st_ts_ms = se_ts_ms s, st_channel = se_channel s,
      st_payload_b64 = se_payload_b64 s\<rparr>"

text \<open>The stamping loop of \<^verbatim>\<open>append_blocking\<close>: \<open>None\<close> when a row cannot be encoded.\<close>

fun stamp_rows ::
  "(stored_event \<Rightarrow> string option) \<Rightarrow> u64 \<Rightarrow> (nat \<Rightarrow> uuid) \<Rightarrow> u64 \<Rightarrow> nat \<Rightarrow> event list \<Rightarrow>
   (stamped_event list \<times> table) option" where
  "stamp_rows enc base mint ts_ms offset [] = Some ([], [])"
| "stamp_rows enc base mint ts_ms offset (e # es) =
     (let s = stamp base mint ts_ms offset e
      in (case enc (stored_of s) of
            None \<Rightarrow> None
          | Some v \<Rightarrow>
              (case stamp_rows enc base mint ts_ms (offset + 1) es of
                 None \<Rightarrow> None
               | Some (stamped, rows) \<Rightarrow> Some (s # stamped, (st_seq s, v) # rows))))"

definition append_blocking ::
  "(stored_event \<Rightarrow> string option) \<Rightarrow> (nat \<Rightarrow> uuid) \<Rightarrow> bool \<Rightarrow> event list \<Rightarrow> u64 \<Rightarrow> shared \<Rightarrow>
   (log_error + stamped_event list) \<times> shared" where
  "append_blocking enc mint db_ok events ts_ms self =
     (case stamp_rows enc (sh_head self) mint ts_ms 0 events of
        None \<Rightarrow> (Inl SerdeError, self)
      | Some (stamped, rows) \<Rightarrow>
          if \<not> db_ok then (Inl DbError, self)
          else
            (Inr stamped,
             self\<lparr>sh_table := fold (\<lambda>(k, v). table_insert k v) rows (sh_table self),
                  sh_head := sh_head self + of_nat (length rows),
                  sh_floor := (if sh_floor self = 0 then st_seq (hd stamped) else sh_floor self),
                  sh_count := sh_count self + of_nat (length rows),
                  sh_bytes := sh_bytes self + of_nat (sum_list (map (length \<circ> snd) rows))\<rparr>))"

definition append ::
  "(stored_event \<Rightarrow> string option) \<Rightarrow> (nat \<Rightarrow> uuid) \<Rightarrow> bool \<Rightarrow> event list \<Rightarrow> u64 \<Rightarrow> shared \<Rightarrow>
   (log_error + stamped_event list) \<times> shared" where
  "append enc mint db_ok events ts_ms self =
     (if events = [] then (Inr [], self) else append_blocking enc mint db_ok events ts_ms self)"

text \<open>The scan of \<^verbatim>\<open>read_after\<close>; a row that does not decode ends it with an error.\<close>

fun read_rows ::
  "(string \<Rightarrow> stored_event option) \<Rightarrow> pattern list option \<Rightarrow> table \<Rightarrow>
   log_error + stamped_event list" where
  "read_rows dec patterns [] = Inr []"
| "read_rows dec patterns ((seq, value) # rows) =
     (case dec value of
        None \<Rightarrow> Inl SerdeError
      | Some stored \<Rightarrow>
          (case read_rows dec patterns rows of
             Inl e \<Rightarrow> Inl e
           | Inr out \<Rightarrow>
               if (case patterns of
                     None \<Rightarrow> True
                   | Some ps \<Rightarrow> list_ex (\<lambda>p. matches_or_false p (se_channel stored)) ps)
               then Inr (stamped_of seq stored # out) else Inr out))"

definition read_after ::
  "(string \<Rightarrow> stored_event option) \<Rightarrow> u64 \<Rightarrow> pattern list option \<Rightarrow> shared \<Rightarrow>
   log_error + stamped_event list" where
  "read_after dec after_seq patterns self =
     (let start = saturating_add after_seq 1
      in read_rows dec patterns (filter (\<lambda>(k, _). start \<le> k) (sh_table self)))"

text \<open>
  The loop of \<^verbatim>\<open>prune_blocking\<close> over the front of the table, with the running \<^verbatim>\<open>count\<close>,
  \<^verbatim>\<open>bytes\<close> and \<^verbatim>\<open>pruned\<close>; \<open>None\<close> when the front row does not decode.
\<close>

fun prune_loop ::
  "(string \<Rightarrow> stored_event option) \<Rightarrow> u64 \<Rightarrow> u64 \<Rightarrow> u64 \<Rightarrow> u64 \<Rightarrow> u64 \<Rightarrow> u64 \<Rightarrow> u64 \<Rightarrow> table \<Rightarrow>
   (table \<times> u64 \<times> u64 \<times> u64) option" where
  "prune_loop dec now_ms retention_secs max_events max_bytes count byts pruned [] =
     Some ([], count, byts, pruned)"
| "prune_loop dec now_ms retention_secs max_events max_bytes count byts pruned ((seq, value) # t) =
     (case dec value of
        None \<Rightarrow> None
      | Some stored \<Rightarrow>
          (let too_old = saturating_sub now_ms (se_ts_ms stored) div 1000 > retention_secs;
               too_many = count > max_events;
               too_big = byts > max_bytes
           in if \<not> (too_old \<or> too_many \<or> too_big)
              then Some ((seq, value) # t, count, byts, pruned)
              else prune_loop dec now_ms retention_secs max_events max_bytes
                     (count - 1) (saturating_sub byts (of_nat (length value))) (pruned + 1) t))"

definition prune_blocking ::
  "(string \<Rightarrow> stored_event option) \<Rightarrow> bool \<Rightarrow> u64 \<Rightarrow> shared \<Rightarrow> (log_error + u64) \<times> shared" where
  "prune_blocking dec db_ok now_ms self =
     (case prune_loop dec now_ms (sh_retention_secs self) (sh_max_events self) (sh_max_bytes self)
             (sh_count self) (sh_bytes self) 0 (sh_table self) of
        None \<Rightarrow> (Inl SerdeError, self)
      | Some (t, count, byts, pruned) \<Rightarrow>
          if \<not> db_ok then (Inl DbError, self)
          else
            (Inr pruned,
             self\<lparr>sh_table := t, sh_count := count, sh_bytes := byts,
                  sh_floor := (case t of [] \<Rightarrow> 0 | (k, _) # _ \<Rightarrow> k)\<rparr>))"

text \<open>The recovery scan of \<^verbatim>\<open>open\<close>: head, floor, count and bytes of the rows on disk.\<close>

fun recover_scan :: "u64 \<times> u64 \<times> u64 \<times> u64 \<Rightarrow> table \<Rightarrow> u64 \<times> u64 \<times> u64 \<times> u64" where
  "recover_scan acc [] = acc"
| "recover_scan (head, floor, count, byts) ((seq, value) # t) =
     recover_scan (seq, if floor = 0 then seq else floor, count + 1, byts + of_nat (length value)) t"

definition recovered :: "delivery_config \<Rightarrow> table \<Rightarrow> shared" where
  "recovered cfg t =
     (case recover_scan (0, 0, 0, 0) t of (head, floor, count, byts) \<Rightarrow>
        \<lparr>sh_table = t, sh_head = head, sh_floor = floor, sh_count = count, sh_bytes = byts,
         sh_retention_secs = dc_retention_secs cfg, sh_max_bytes = dc_max_bytes cfg,
         sh_max_events = dc_max_events cfg\<rparr>)"

text \<open>
  \<^verbatim>\<open>DeliveryLog::open\<close>: \<open>file\<close> is the existing file (its mode and its rows) or \<open>None\<close>;
  \<open>fs_ok\<close> says that the directory and permission calls succeed.
\<close>

definition DeliveryLog_open ::
  "(string \<Rightarrow> stored_event option) \<Rightarrow> bool \<Rightarrow> bool \<Rightarrow> delivery_config \<Rightarrow> (u32 \<times> table) option \<Rightarrow>
   u64 \<Rightarrow> log_error + shared" where
  "DeliveryLog_open dec fs_ok db_ok cfg file now_ms =
     (if \<not> fs_ok then Inl LogFsError
      else (case (case file of
                    None \<Rightarrow> Inr ()
                  | Some (mode, _) \<Rightarrow> enforce_0600 (\<lambda>_. Some mode) (dc_store_path cfg)) of
              Inl e \<Rightarrow> Inl (LogConfigError e)
            | Inr _ \<Rightarrow>
                (if \<not> db_ok then Inl DbError
                 else (let log = recovered cfg (case file of None \<Rightarrow> [] | Some (_, t) \<Rightarrow> t)
                       in (case prune_blocking dec db_ok now_ms log of
                             (Inl e, _) \<Rightarrow> Inl e
                           | (Inr _, log') \<Rightarrow> Inr log')))))"

section \<open>The abstract log\<close>

text \<open>The codec's documented behaviour: every row encodes, and decodes to what was encoded.\<close>

definition codec_ok ::
  "(stored_event \<Rightarrow> string option) \<Rightarrow> (string \<Rightarrow> stored_event option) \<Rightarrow> bool" where
  "codec_ok enc dec \<longleftrightarrow> (\<forall>s. \<exists>v. enc s = Some v \<and> dec v = Some s)"

text \<open>What the log holds, as stamped events in key order.\<close>

definition view :: "(string \<Rightarrow> stored_event option) \<Rightarrow> shared \<Rightarrow> stamped_event list" where
  "view dec l = map (\<lambda>(k, v). stamped_of k (the (dec v))) (sh_table l)"

definition seqs :: "table \<Rightarrow> nat list" where
  "seqs t = map (unat \<circ> fst) t"

definition table_bytes :: "table \<Rightarrow> nat" where
  "table_bytes t = sum_list (map (length \<circ> snd) t)"

definition table_ok :: "(string \<Rightarrow> stored_event option) \<Rightarrow> u64 \<Rightarrow> u64 \<Rightarrow> table \<Rightarrow> bool" where
  "table_ok dec floor head t \<longleftrightarrow>
     (if t = [] then floor = 0
      else 0 < floor \<and> seqs t = [unat floor ..< unat head + 1]) \<and>
     (\<forall>(k, v) \<in> set t. dec v \<noteq> None)"

definition log_inv ::
  "(stored_event \<Rightarrow> string option) \<Rightarrow> (string \<Rightarrow> stored_event option) \<Rightarrow> shared \<Rightarrow> bool" where
  "log_inv enc dec l \<longleftrightarrow> codec_ok enc dec \<and>
     table_ok dec (sh_floor l) (sh_head l) (sh_table l) \<and>
     sh_count l = of_nat (length (sh_table l)) \<and>
     sh_bytes l = of_nat (table_bytes (sh_table l)) \<and> table_bytes (sh_table l) < 2 ^ 64"

text \<open>There is room for the batch below the ends of the two 64-bit counters.\<close>

definition room ::
  "(stored_event \<Rightarrow> string option) \<Rightarrow> (nat \<Rightarrow> uuid) \<Rightarrow> event list \<Rightarrow> u64 \<Rightarrow> shared \<Rightarrow> bool" where
  "room enc mint events ts_ms l \<longleftrightarrow>
     unat (sh_head l) + length events < 2 ^ 64 \<and>
     table_bytes (sh_table l) +
       sum_list (map (\<lambda>(i, e). case enc (stored_of (stamp (sh_head l) mint ts_ms i e)) of
                                 None \<Rightarrow> 0 | Some v \<Rightarrow> length v)
                  (enumerate 0 events)) < 2 ^ 64"

section \<open>Appending\<close>

declare upt_Suc [simp del]

definition stamped_batch :: "u64 \<Rightarrow> (nat \<Rightarrow> uuid) \<Rightarrow> u64 \<Rightarrow> nat \<Rightarrow> event list \<Rightarrow> stamped_event list" where
  "stamped_batch base mint ts_ms off es =
     map (\<lambda>(i, e). stamp base mint ts_ms i e) (enumerate off es)"

definition row_of :: "(stored_event \<Rightarrow> string option) \<Rightarrow> stamped_event \<Rightarrow> u64 \<times> string" where
  "row_of enc s = (st_seq s, the (enc (stored_of s)))"

lemma codec_enc: "codec_ok enc dec \<Longrightarrow> enc s = Some (the (enc s))"
  by (metis codec_ok_def option.sel)

lemma codec_dec: "codec_ok enc dec \<Longrightarrow> dec (the (enc s)) = Some s"
  by (metis codec_ok_def option.sel)

lemma stamped_stored [simp]: "stamped_of (st_seq s) (stored_of s) = s"
  by (simp add: stamped_of_def stored_of_def)

lemma stamp_rows_eq:
  assumes "codec_ok enc dec"
  shows "stamp_rows enc base mint ts off es =
    Some (stamped_batch base mint ts off es, map (row_of enc) (stamped_batch base mint ts off es))"
proof (induction es arbitrary: off)
  case (Cons e es)
  then show ?case
    using codec_enc [OF assms, of "stored_of (stamp base mint ts off e)"]
    by (auto simp: stamped_batch_def row_of_def Let_def split: option.splits)
qed (simp add: stamped_batch_def)

lemma length_stamped_batch [simp]: "length (stamped_batch base mint ts off es) = length es"
  by (simp add: stamped_batch_def)

lemma stamped_batch_nth:
  "i < length es \<Longrightarrow> stamped_batch base mint ts off es ! i = stamp base mint ts (off + i) (es ! i)"
  by (simp add: stamped_batch_def nth_enumerate_eq)

lemma batch_seqs:
  assumes "unat base + length es < 2 ^ 64"
  shows "map (unat \<circ> st_seq) (stamped_batch base mint ts 0 es) =
    [unat base + 1 ..< unat base + 1 + length es]"
proof (rule nth_equalityI)
  fix i assume "i < length (map (unat \<circ> st_seq) (stamped_batch base mint ts 0 es))"
  then have i: "i < length es" by simp
  then have "unat (base + 1 + of_nat i) = unat base + 1 + i"
    using assms by (intro unat_Suc_add_nat) simp
  with i show "map (unat \<circ> st_seq) (stamped_batch base mint ts 0 es) ! i =
      [unat base + 1 ..< unat base + 1 + length es] ! i"
    by (simp add: stamped_batch_nth stamp_def)
qed simp

lemma table_insert_last:
  "\<forall>r \<in> set t. fst r < k \<Longrightarrow> table_insert k v t = t @ [(k, v)]"
  by (induction t) auto

lemma sorted_wrt_unat: "sorted_wrt (<) (map (unat \<circ> fst) t) \<longleftrightarrow> sorted_wrt (<) (map fst t)"
  by (simp add: sorted_wrt_map word_less_nat_alt)

lemma fold_table_insert:
  "sorted_wrt (<) (map fst (t @ rows)) \<Longrightarrow> fold (\<lambda>(k, v). table_insert k v) rows t = t @ rows"
proof (induction rows arbitrary: t)
  case (Cons r rows)
  obtain k v where r: "r = (k, v)" by (cases r)
  have "table_insert k v t = t @ [(k, v)]"
    using Cons.prems by (intro table_insert_last) (simp add: r sorted_wrt_append)
  moreover have "fold (\<lambda>(k, v). table_insert k v) rows (t @ [(k, v)]) = (t @ [(k, v)]) @ rows"
    using Cons.prems by (intro Cons.IH) (simp add: r)
  ultimately show ?case by (simp add: r)
qed simp

lemma view_append_rows:
  "codec_ok enc dec \<Longrightarrow>
   map (\<lambda>(k, v). stamped_of k (the (dec v))) (map (row_of enc) ss) = ss"
  by (induction ss) (simp_all add: row_of_def codec_dec)

lemma seqs_Nil [simp]: "seqs [] = []"
  by (simp add: seqs_def)

lemma seqs_append [simp]: "seqs (t @ u) = seqs t @ seqs u"
  by (simp add: seqs_def)

lemma seqs_rows: "seqs (map (row_of enc) ss) = map (unat \<circ> st_seq) ss"
  by (simp add: seqs_def row_of_def)

lemma table_bytes_append [simp]: "table_bytes (t @ u) = table_bytes t + table_bytes u"
  by (simp add: table_bytes_def)

lemma table_ok_extend:
  assumes ok: "table_ok dec floor head t" and head': "unat head' = unat head + n"
    and rows: "seqs rows = [unat head + 1 ..< unat head + 1 + n]" "rows \<noteq> []"
    and floor': "floor' = (if floor = 0 then fst (hd rows) else floor)"
    and dec: "\<forall>(k, v) \<in> set rows. dec v \<noteq> None"
  shows "table_ok dec floor' head' (t @ rows)"
proof (cases "t = []")
  case True
  have "unat (fst (hd rows)) = hd (seqs rows)"
    using rows(2) by (simp add: seqs_def hd_map)
  also have "\<dots> = unat head + 1"
    using rows by (cases n) (auto simp: seqs_def simp del: map_map)
  finally have first: "unat (fst (hd rows)) = unat head + 1" .
  then have "0 < fst (hd rows)" by (simp add: word_gt_0_no word_less_nat_alt)
  with True ok first rows head' floor' dec show ?thesis
    by (simp add: table_ok_def)
next
  case False
  with ok have t: "0 < floor" "seqs t = [unat floor ..< unat head + 1]"
    "\<forall>(k, v) \<in> set t. dec v \<noteq> None"
    by (simp_all add: table_ok_def)
  have "seqs t \<noteq> []" using False by (simp add: seqs_def)
  with t(2) have "unat floor < unat head + 1" by auto
  then have "seqs (t @ rows) = [unat floor ..< unat head' + 1]"
    using t(2) rows(1) head' upt_add_eq_append [of "unat floor" "unat head + 1" n]
    by simp
  with t False floor' dec show ?thesis by (auto simp: table_ok_def)
qed

lemma room_bytes:
  assumes "codec_ok enc dec"
  shows "room enc mint es ts l \<longleftrightarrow> unat (sh_head l) + length es < 2 ^ 64 \<and>
    table_bytes (sh_table l) +
      table_bytes (map (row_of enc) (stamped_batch (sh_head l) mint ts 0 es)) < 2 ^ 64"
proof -
  have "(case enc (stored_of (stamp (sh_head l) mint ts i e)) of None \<Rightarrow> 0 | Some v \<Rightarrow> length v) =
      length (snd (row_of enc (stamp (sh_head l) mint ts i e)))" for i e
    using codec_enc [OF assms] by (metis option.simps(5) row_of_def snd_conv)
  then show ?thesis
    by (simp add: room_def table_bytes_def stamped_batch_def comp_def case_prod_unfold)
qed

text \<open>The step every append takes on a log that keeps its invariant.\<close>

lemma append_blocking_eq:
  assumes inv: "log_inv enc dec l" and room: "room enc mint es ts l" and ne: "es \<noteq> []"
  defines "ss \<equiv> stamped_batch (sh_head l) mint ts 0 es"
  shows "append_blocking enc mint True es ts l =
    (Inr ss, l\<lparr>sh_table := sh_table l @ map (row_of enc) ss,
       sh_head := sh_head l + of_nat (length es),
       sh_floor := (if sh_floor l = 0 then st_seq (hd ss) else sh_floor l),
       sh_count := sh_count l + of_nat (length es),
       sh_bytes := sh_bytes l + of_nat (table_bytes (map (row_of enc) ss))\<rparr>)"
proof -
  have codec: "codec_ok enc dec" and ok: "table_ok dec (sh_floor l) (sh_head l) (sh_table l)"
    using inv by (simp_all add: log_inv_def)
  have bound: "unat (sh_head l) + length es < 2 ^ 64"
    using room room_bytes [OF codec] by blast
  have "sorted_wrt (<) (seqs (sh_table l) @ map (unat \<circ> st_seq) ss)"
    unfolding ss_def batch_seqs [OF bound] using ok
    by (auto simp: table_ok_def sorted_wrt_append split: if_splits)
  then have "sorted_wrt (<) (map fst (sh_table l @ map (row_of enc) ss))"
    unfolding sorted_wrt_unat [symmetric] by (simp add: seqs_def row_of_def comp_def)
  then have "fold (\<lambda>(k, v). table_insert k v) (map (row_of enc) ss) (sh_table l) =
      sh_table l @ map (row_of enc) ss"
    by (rule fold_table_insert)
  then show ?thesis
    by (simp add: append_blocking_def stamp_rows_eq [OF codec] ss_def [symmetric] table_bytes_def)
      (simp add: ss_def)
qed

lemma log_inv_append_blocking:
  assumes inv: "log_inv enc dec l" and room: "room enc mint es ts l" and ne: "es \<noteq> []"
  shows "log_inv enc dec (snd (append_blocking enc mint True es ts l))"
proof -
  define ss where "ss = stamped_batch (sh_head l) mint ts 0 es"
  have codec: "codec_ok enc dec" and ok: "table_ok dec (sh_floor l) (sh_head l) (sh_table l)"
    using inv by (simp_all add: log_inv_def)
  have bound: "unat (sh_head l) + length es < 2 ^ 64"
    and bytes: "table_bytes (sh_table l) + table_bytes (map (row_of enc) ss) < 2 ^ 64"
    using room room_bytes [OF codec] by (auto simp: ss_def)
  have ne': "ss \<noteq> []" using ne length_stamped_batch [of "sh_head l" mint ts 0 es]
    by (auto simp: ss_def simp del: length_stamped_batch)
  have "table_ok dec (if sh_floor l = 0 then st_seq (hd ss) else sh_floor l)
      (sh_head l + of_nat (length es)) (sh_table l @ map (row_of enc) ss)"
  proof (rule table_ok_extend [OF ok, where n = "length es"])
    show "unat (sh_head l + of_nat (length es)) = unat (sh_head l) + length es"
      using bound by (rule unat_add_nat)
    show "seqs (map (row_of enc) ss) = [unat (sh_head l) + 1 ..< unat (sh_head l) + 1 + length es]"
      unfolding seqs_rows ss_def using bound by (rule batch_seqs)
    show "(if sh_floor l = 0 then st_seq (hd ss) else sh_floor l) =
        (if sh_floor l = 0 then fst (hd (map (row_of enc) ss)) else sh_floor l)"
      using ne' by (simp add: hd_map row_of_def)
    show "\<forall>(k, v) \<in> set (map (row_of enc) ss). dec v \<noteq> None"
      using codec_dec [OF codec] by (auto simp: row_of_def)
  qed (use ne' in simp)
  then show ?thesis
    using inv bytes codec
    by (auto simp: append_blocking_eq [OF inv room ne] ss_def log_inv_def split: if_splits)
qed

lemma view_append_blocking:
  assumes "log_inv enc dec l" and "room enc mint es ts l" and "es \<noteq> []"
  shows "view dec (snd (append_blocking enc mint True es ts l)) =
    view dec l @ stamped_batch (sh_head l) mint ts 0 es"
  using view_append_rows [of enc dec] assms(1)
  by (simp add: append_blocking_eq [OF assms] view_def log_inv_def)

section \<open>Reading\<close>

definition wanted :: "pattern list option \<Rightarrow> stamped_event \<Rightarrow> bool" where
  "wanted patterns s \<longleftrightarrow>
     (case patterns of
        None \<Rightarrow> True | Some ps \<Rightarrow> list_ex (\<lambda>p. matches_or_false p (st_channel s)) ps)"

lemma read_rows_eq:
  "\<forall>(k, v) \<in> set t. dec v \<noteq> None \<Longrightarrow>
   read_rows dec ps t = Inr (filter (wanted ps) (map (\<lambda>(k, v). stamped_of k (the (dec v))) t))"
proof (induction t)
  case (Cons r t)
  obtain k v where r: "r = (k, v)" by (cases r)
  with Cons.prems obtain x where "dec v = Some x" by auto
  with Cons r show ?case
    by (cases ps) (auto simp: wanted_def stamped_of_def)
qed simp

lemma saturating_Suc_le:
  "a \<noteq> - 1 \<Longrightarrow> saturating_add a 1 \<le> k \<longleftrightarrow> a < (k :: u64)"
proof -
  assume "a \<noteq> - 1"
  then have "unat a + 1 < 2 ^ 64" by (rule u64_not_max)
  then have "unat (saturating_add a 1) = unat a + 1"
    by (simp add: unat_saturating_add)
  then show ?thesis by (auto simp: word_le_nat_alt word_less_nat_alt)
qed

lemma read_after_eq:
  assumes "log_inv enc dec l"
  shows "read_after dec a ps l =
    Inr (filter (\<lambda>s. saturating_add a 1 \<le> st_seq s \<and> wanted ps s) (view dec l))"
proof -
  have "\<forall>(k, v) \<in> set (filter (\<lambda>(k, _). saturating_add a 1 \<le> k) (sh_table l)). dec v \<noteq> None"
    using assms by (auto simp: log_inv_def table_ok_def)
  from read_rows_eq [OF this, of ps] show ?thesis
    by (simp add: read_after_def Let_def view_def filter_map filter_filter comp_def
        case_prod_unfold stamped_of_def conj_commute)
qed

section \<open>Pruning\<close>

text \<open>The front of the table \<open>t\<close> has to go: it is past the TTL, or a cap is exceeded.\<close>

definition must_prune :: "(string \<Rightarrow> stored_event option) \<Rightarrow> u64 \<Rightarrow> shared \<Rightarrow> table \<Rightarrow> bool" where
  "must_prune dec now_ms l t \<longleftrightarrow>
     (case t of
        [] \<Rightarrow> False
      | (k, v) # _ \<Rightarrow>
          (unat now_ms - unat (se_ts_ms (the (dec v)))) div 1000 > unat (sh_retention_secs l) \<or>
          length t > unat (sh_max_events l) \<or> table_bytes t > unat (sh_max_bytes l))"

lemma unat_div_1000: "unat (a div 1000 :: u64) = unat a div 1000"
  by (simp add: unat_div)

lemma saturating_sub_of_nat:
  assumes "x + y < 2 ^ 64"
  shows "saturating_sub (of_nat (x + y)) (of_nat x) = (of_nat y :: u64)"
proof (rule word_unat_eq_iff [THEN iffD2])
  have small: "unat (of_nat n :: u64) = n" if "n < 2 ^ 64" for n
    using that by (simp add: unat_of_nat)
  show "unat (saturating_sub (of_nat (x + y)) (of_nat x)) = unat (of_nat y :: u64)"
    unfolding unat_saturating_sub using assms
    by (simp add: small [of "x + y"] small [of x] small [of y] del: of_nat_add)
qed

lemma of_nat_less_u64: "n < 2 ^ 64 \<Longrightarrow> (m :: u64) < of_nat n \<longleftrightarrow> unat m < n"
  by (simp add: word_less_nat_alt unat_of_nat)

lemma prune_loop_least:
  assumes "\<forall>(k, v) \<in> set t. dec v \<noteq> None" and "length t < 2 ^ 64" and "table_bytes t < 2 ^ 64"
  shows "\<exists>k \<le> length t. prune_loop dec now (sh_retention_secs l) (sh_max_events l) (sh_max_bytes l)
      (of_nat (length t)) (of_nat (table_bytes t)) pruned t =
        Some (drop k t, of_nat (length (drop k t)), of_nat (table_bytes (drop k t)), pruned + of_nat k) \<and>
      \<not> must_prune dec now l (drop k t) \<and> (\<forall>j < k. must_prune dec now l (drop j t))"
  using assms
proof (induction t arbitrary: pruned)
  case Nil
  then show ?case by (simp add: must_prune_def)
next
  case (Cons r t)
  obtain key v where r: "r = (key, v)" by (cases r)
  with Cons.prems obtain st where st: "dec v = Some st" by auto
  have bytes: "table_bytes (r # t) = length v + table_bytes t"
    by (simp add: table_bytes_def r)
  have guard: "(saturating_sub now (se_ts_ms st) div 1000 > sh_retention_secs l \<or>
      of_nat (length (r # t)) > sh_max_events l \<or> of_nat (table_bytes (r # t)) > sh_max_bytes l) \<longleftrightarrow>
      must_prune dec now l (r # t)"
    using Cons.prems of_nat_less_u64 [of "length (r # t)"] of_nat_less_u64 [of "table_bytes (r # t)"]
    by (simp add: must_prune_def r st word_less_nat_alt unat_div_1000 unat_saturating_sub)
  show ?case
  proof (cases "must_prune dec now l (r # t)")
    case False
    with guard show ?thesis
      by (intro exI [of _ 0]) (simp add: r st Let_def)
  next
    case True
    have rest: "prune_loop dec now (sh_retention_secs l) (sh_max_events l) (sh_max_bytes l)
        (of_nat (length (r # t))) (of_nat (table_bytes (r # t))) pruned (r # t) =
      prune_loop dec now (sh_retention_secs l) (sh_max_events l) (sh_max_bytes l)
        (of_nat (length t)) (of_nat (table_bytes t)) (pruned + 1) t"
    proof -
      have sub: "saturating_sub (of_nat (table_bytes (r # t))) (of_nat (length v)) =
          of_nat (table_bytes t)"
        unfolding bytes by (rule saturating_sub_of_nat) (use Cons.prems(3) bytes in simp)
      have len: "of_nat (length (r # t)) - 1 = (of_nat (length t) :: u64)" by simp
      show ?thesis
        using guard True sub len by (auto simp: r st Let_def simp del: of_nat_Suc length_Cons)
    qed
    obtain k where k: "k \<le> length t" "prune_loop dec now (sh_retention_secs l) (sh_max_events l)
        (sh_max_bytes l) (of_nat (length t)) (of_nat (table_bytes t)) (pruned + 1) t =
        Some (drop k t, of_nat (length (drop k t)), of_nat (table_bytes (drop k t)), pruned + 1 + of_nat k)"
      "\<not> must_prune dec now l (drop k t)" "\<forall>j < k. must_prune dec now l (drop j t)"
      using Cons.IH [of "pruned + 1"] Cons.prems bytes by auto
    have "\<forall>j < Suc k. must_prune dec now l (drop j (r # t))"
      using k(4) True by (auto simp: drop_Cons' less_Suc_eq_0_disj)
    with k rest show ?thesis
      by (intro exI [of _ "Suc k"]) (simp add: algebra_simps)
  qed
qed

lemma table_ok_length: "table_ok dec floor head t \<Longrightarrow> length t < 2 ^ 64"
proof (cases "t = []")
  case False
  assume "table_ok dec floor head t"
  with False have "0 < unat floor" "seqs t = [unat floor ..< unat head + 1]"
    by (simp_all add: table_ok_def word_less_nat_alt)
  then have "length t = unat head + 1 - unat floor"
    by (metis length_map length_upt seqs_def)
  moreover have "unat head < 18446744073709551616" by (rule unat_u64_less)
  ultimately have "length t < 18446744073709551616" using \<open>0 < unat floor\<close> by linarith
  then show ?thesis by simp
qed simp

lemma table_ok_drop:
  assumes "table_ok dec floor head t"
  shows "table_ok dec (case drop k t of [] \<Rightarrow> 0 | (key, _) # _ \<Rightarrow> key) head (drop k t)"
proof (cases "drop k t")
  case Nil
  then show ?thesis by (simp add: table_ok_def)
next
  case (Cons r rest)
  then have ne: "t \<noteq> []" and k: "k < length t" by (auto simp: not_le [symmetric])
  have s: "0 < unat floor" "seqs t = [unat floor ..< unat head + 1]"
    using assms ne by (simp_all add: table_ok_def word_less_nat_alt)
  have d: "seqs (drop k t) = [unat floor + k ..< unat head + 1]"
    using s(2) by (simp add: seqs_def drop_map [symmetric])
  have "unat (fst r) = hd (seqs (drop k t))" by (simp add: Cons seqs_def)
  also have "\<dots> = unat floor + k"
    unfolding d using k s(2) by (subst hd_upt) (auto simp: seqs_def dest: arg_cong [where f = length])
  finally have "unat (fst r) = unat floor + k" .
  moreover have "\<forall>(key, v) \<in> set (drop k t). dec v \<noteq> None"
    using assms by (auto simp: table_ok_def dest: in_set_dropD)
  ultimately show ?thesis
    using d s(1) Cons by (auto simp: table_ok_def word_less_nat_alt split: prod.splits)
qed

lemma table_bytes_drop: "table_bytes (drop k t) \<le> table_bytes t"
  by (metis append_take_drop_id le_add2 table_bytes_append)

lemma prune_blocking_least:
  assumes inv: "log_inv enc dec l"
  obtains k where "k \<le> length (sh_table l)"
    "prune_blocking dec True now l = (Inr (of_nat k), snd (prune_blocking dec True now l))"
    "sh_table (snd (prune_blocking dec True now l)) = drop k (sh_table l)"
    "sh_head (snd (prune_blocking dec True now l)) = sh_head l"
    "log_inv enc dec (snd (prune_blocking dec True now l))"
    "\<not> must_prune dec now l (drop k (sh_table l))"
    "\<forall>j < k. must_prune dec now l (drop j (sh_table l))"
proof -
  have ok: "table_ok dec (sh_floor l) (sh_head l) (sh_table l)"
    and cnt: "sh_count l = of_nat (length (sh_table l))"
    and byt: "sh_bytes l = of_nat (table_bytes (sh_table l))"
    and bound: "table_bytes (sh_table l) < 2 ^ 64"
    using inv by (simp_all add: log_inv_def)
  have dec: "\<forall>(k, v) \<in> set (sh_table l). dec v \<noteq> None"
    using ok by (simp add: table_ok_def)
  obtain k where k: "k \<le> length (sh_table l)"
    "prune_loop dec now (sh_retention_secs l) (sh_max_events l) (sh_max_bytes l)
      (sh_count l) (sh_bytes l) 0 (sh_table l) =
      Some (drop k (sh_table l), of_nat (length (drop k (sh_table l))),
        of_nat (table_bytes (drop k (sh_table l))), of_nat k)"
    "\<not> must_prune dec now l (drop k (sh_table l))"
    "\<forall>j < k. must_prune dec now l (drop j (sh_table l))"
    using prune_loop_least [OF dec table_ok_length [OF ok] bound, of now l 0] cnt byt by auto
  have "log_inv enc dec (snd (prune_blocking dec True now l))"
    using inv k(2) table_ok_drop [OF ok, of k] le_less_trans [OF table_bytes_drop [of k "sh_table l"] bound]
    by (simp add: prune_blocking_def log_inv_def)
  with k that [of k] show thesis
    by (simp add: prune_blocking_def)
qed

lemma prune_blocking_limits:
  "sh_retention_secs (snd (prune_blocking dec ok now l)) = sh_retention_secs l"
  "sh_max_bytes (snd (prune_blocking dec ok now l)) = sh_max_bytes l"
  "sh_max_events (snd (prune_blocking dec ok now l)) = sh_max_events l"
  by (auto simp: prune_blocking_def split: option.splits prod.splits)

section \<open>Recovery\<close>

lemma recover_scan_open:
  "f \<noteq> 0 \<Longrightarrow> recover_scan (h, f, c, b) t =
     (if t = [] then h else fst (last t), f, c + of_nat (length t), b + of_nat (table_bytes t))"
proof (induction t arbitrary: h c b)
  case (Cons r t)
  then show ?case by (cases r) (simp add: table_bytes_def algebra_simps)
qed (simp add: table_bytes_def)

lemma seqs_last: "t \<noteq> [] \<Longrightarrow> last (seqs t) = unat (fst (last t))"
  by (simp add: seqs_def last_map)

lemma seqs_hd: "t \<noteq> [] \<Longrightarrow> hd (seqs t) = unat (fst (hd t))"
  by (simp add: seqs_def hd_map)

lemma table_ok_ends:
  assumes "table_ok dec floor head t" and "t \<noteq> []"
  shows "fst (hd t) = floor" and "fst (last t) = head" and "floor \<noteq> 0"
proof -
  have s: "0 < floor" "seqs t = [unat floor ..< unat head + 1]"
    using assms by (simp_all add: table_ok_def)
  have "seqs t \<noteq> []" using assms(2) by (simp add: seqs_def)
  then have lt: "unat floor < unat head + 1" unfolding s(2) by simp
  have "unat (fst (last t)) = unat head"
    using seqs_last [OF assms(2)] lt unfolding s(2) by simp
  then show "fst (last t) = head" by (simp add: word_unat_eq_iff)
  have "unat (fst (hd t)) = unat floor"
    using seqs_hd [OF assms(2)] lt unfolding s(2) by simp
  then show "fst (hd t) = floor" by (simp add: word_unat_eq_iff)
  show "floor \<noteq> 0" using s(1) by (simp add: word_gt_0)
qed

lemma recovered_eq:
  assumes "log_inv enc dec l" and "sh_table l \<noteq> []"
  shows "recovered cfg (sh_table l) =
    l\<lparr>sh_retention_secs := dc_retention_secs cfg, sh_max_bytes := dc_max_bytes cfg,
      sh_max_events := dc_max_events cfg\<rparr>"
proof -
  obtain k v t where t: "sh_table l = (k, v) # t"
    using assms(2) by (metis list.exhaust surj_pair)
  have ends: "k = sh_floor l" "fst (last ((k, v) # t)) = sh_head l" "sh_floor l \<noteq> 0"
    using table_ok_ends [of dec "sh_floor l" "sh_head l" "sh_table l"] assms
    by (auto simp: log_inv_def t)
  have "recover_scan (0, 0, 0, 0) (sh_table l) =
      (sh_head l, sh_floor l, sh_count l, sh_bytes l)"
    using assms(1) ends recover_scan_open [of k k 1 "of_nat (length v)" t]
    by (auto simp: t log_inv_def table_bytes_def)
  then show ?thesis by (simp add: recovered_def)
qed

lemma recovered_inv:
  assumes "log_inv enc dec l"
  shows "log_inv enc dec (recovered cfg (sh_table l))"
proof (cases "sh_table l = []")
  case True
  with assms show ?thesis
    by (simp add: recovered_def log_inv_def table_ok_def table_bytes_def)
next
  case False
  with assms show ?thesis
    unfolding recovered_eq [OF assms False] by (simp add: log_inv_def)
qed

section \<open>The contract of an event log, and the code's log as one\<close>

text \<open>
  What replay relies on: the log is a contiguous window of the sequence that ends at the head;
  between two looks at it, rows disappear only from the front and appear only past the head; a
  read returns the wanted rows past a cursor.
\<close>

locale event_log =
  fixes inv :: "'l \<Rightarrow> bool"
    and view :: "'l \<Rightarrow> 'e list"
    and seq :: "'e \<Rightarrow> u64"
    and head :: "'l \<Rightarrow> u64"
    and floor :: "'l \<Rightarrow> u64"
    and step :: "'l \<Rightarrow> 'l \<Rightarrow> bool"
    and wants :: "'p \<Rightarrow> 'e \<Rightarrow> bool"
    and read :: "u64 \<Rightarrow> 'p \<Rightarrow> 'l \<Rightarrow> 'x + 'e list"
  assumes floor_empty: "inv l \<Longrightarrow> view l = [] \<longleftrightarrow> floor l = 0"
    and window: "inv l \<Longrightarrow> view l \<noteq> [] \<Longrightarrow>
          map (unat \<circ> seq) (view l) = [unat (floor l) ..< unat (head l) + 1]"
    and step_inv: "inv l \<Longrightarrow> step l l' \<Longrightarrow> inv l'"
    and step_view: "inv l \<Longrightarrow> step l l' \<Longrightarrow> \<exists>k es. view l' = drop k (view l) @ es \<and>
          (\<forall>e \<in> set es. head l < seq e)"
    and step_head: "inv l \<Longrightarrow> step l l' \<Longrightarrow> head l \<le> head l'"
    and read_after: "inv l \<Longrightarrow> a \<noteq> - 1 \<Longrightarrow>
          read a p l = Inr (filter (\<lambda>e. a < seq e \<and> wants p e) (view l))"
begin

lemma view_le_head: "inv l \<Longrightarrow> e \<in> set (view l) \<Longrightarrow> seq e \<le> head l"
proof -
  assume "inv l" and e: "e \<in> set (view l)"
  then have "map (unat \<circ> seq) (view l) = [unat (floor l) ..< unat (head l) + 1]"
    by (intro window) auto
  then have "unat (seq e) \<in> set [unat (floor l) ..< unat (head l) + 1]"
    using e by (metis comp_apply image_eqI set_map)
  then show ?thesis by (simp add: word_le_nat_alt)
qed

lemma view_ge_floor: "inv l \<Longrightarrow> e \<in> set (view l) \<Longrightarrow> floor l \<le> seq e"
proof -
  assume "inv l" and e: "e \<in> set (view l)"
  then have "map (unat \<circ> seq) (view l) = [unat (floor l) ..< unat (head l) + 1]"
    by (intro window) auto
  then have "unat (seq e) \<in> set [unat (floor l) ..< unat (head l) + 1]"
    using e by (metis comp_apply image_eqI set_map)
  then show ?thesis by (simp add: word_le_nat_alt)
qed

lemma steps_inv: "step\<^sup>*\<^sup>* l l' \<Longrightarrow> inv l \<Longrightarrow> inv l'"
  by (induction rule: rtranclp_induct) (auto intro: step_inv)

lemma steps_head: "step\<^sup>*\<^sup>* l l' \<Longrightarrow> inv l \<Longrightarrow> head l \<le> head l'"
  by (induction rule: rtranclp_induct) (auto intro: order_trans step_head steps_inv)

lemma steps_view:
  assumes "step\<^sup>*\<^sup>* l l'" and "inv l"
  shows "\<exists>k es. view l' = drop k (view l) @ es \<and> (\<forall>e \<in> set es. head l < seq e)"
  using assms
proof (induction rule: rtranclp_induct)
  case base
  show ?case by (intro exI [of _ 0] exI [of _ "[]"]) simp
next
  case (step y z)
  then obtain k es where 1: "view y = drop k (view l) @ es" "\<forall>e \<in> set es. head l < seq e"
    by blast
  obtain k' es' where 2: "view z = drop k' (view y) @ es'" "\<forall>e \<in> set es'. head y < seq e"
    using step_view [OF steps_inv [OF step.hyps(1) step.prems] step.hyps(2)] by blast
  have "head l \<le> head y" using steps_head [OF step.hyps(1) step.prems] .
  moreover have "view z = drop (k' + k) (view l) @ (drop (k' - length (drop k (view l))) es @ es')"
    by (simp add: 1 2)
  ultimately show ?case using 1 2
    by (intro exI [of _ "k' + k"] exI [of _ "drop (k' - length (drop k (view l))) es @ es'"])
      (auto dest: in_set_dropD)
qed

text \<open>
  The window a replay streams when the head is read in one state and the rows in a later one:
  exactly the wanted rows past the cursor that the log held at the head snapshot, less those
  pruned in between.  No row past the snapshot leaks in, none below it is missed.
\<close>

lemma replay_window:
  assumes inv: "inv l" and steps: "step\<^sup>*\<^sup>* l l'" and a: "a \<noteq> - 1"
  obtains k rows where "read a p l' = Inr rows"
    "takeWhile (\<lambda>e. seq e \<le> head l) rows = filter (\<lambda>e. a < seq e \<and> wants p e) (drop k (view l))"
    "view l' = drop k (view l) @ filter (\<lambda>e. head l < seq e) (view l')"
proof -
  obtain k es where v: "view l' = drop k (view l) @ es" "\<forall>e \<in> set es. head l < seq e"
    using steps_view [OF steps inv] by blast
  have old: "\<forall>e \<in> set (drop k (view l)). seq e \<le> head l"
    using view_le_head [OF inv] by (auto dest: in_set_dropD)
  define P where "P = (\<lambda>e. a < seq e \<and> wants p e)"
  have "takeWhile (\<lambda>e. seq e \<le> head l) (filter P (view l')) = filter P (drop k (view l))"
  proof -
    have "takeWhile (\<lambda>e. seq e \<le> head l) (filter P (drop k (view l)) @ filter P es) =
        filter P (drop k (view l)) @ takeWhile (\<lambda>e. seq e \<le> head l) (filter P es)"
      using old by (intro takeWhile_append2) auto
    also have "takeWhile (\<lambda>e. seq e \<le> head l) (filter P es) = []"
      using v(2) hd_in_set [of "filter P es"] by (force simp: takeWhile_eq_Nil_iff)
    finally show ?thesis by (simp add: v(1))
  qed
  moreover have "filter (\<lambda>e. head l < seq e) (view l') = es"
    using v old by (auto simp: filter_empty_conv not_less)
  ultimately show thesis
    using that [of "filter P (view l')" k] read_after [OF steps_inv [OF steps inv] a, of p] v(1)
    by (simp add: P_def)
qed

end

text \<open>Every change the running server makes to the log, failed transactions included.\<close>

inductive log_step ::
  "(stored_event \<Rightarrow> string option) \<Rightarrow> (string \<Rightarrow> stored_event option) \<Rightarrow> shared \<Rightarrow> shared \<Rightarrow> bool"
  for enc dec where
  Append: "room enc mint es ts l \<Longrightarrow> log_step enc dec l (snd (append enc mint db_ok es ts l))"
| Prune: "log_step enc dec l (snd (prune_blocking dec db_ok now l))"

lemma append_failed: "snd (append enc mint False es ts l) = l"
  by (auto simp: append_def append_blocking_def split: option.splits)

lemma append_Nil_eq: "snd (append enc mint db_ok [] ts l) = l"
  by (simp add: append_def)

lemma append_blocking_of: "es \<noteq> [] \<Longrightarrow> append enc mint db_ok es ts l = append_blocking enc mint db_ok es ts l"
  by (simp add: append_def)

lemma prune_failed: "snd (prune_blocking dec False now l) = l"
  by (auto simp: prune_blocking_def split: option.splits)

lemma log_step_cases:
  assumes "log_step enc dec l l'" and "log_inv enc dec l"
  obtains (same) "l' = l"
  | (appended) mint es ts where "es \<noteq> []" "room enc mint es ts l"
      "l' = snd (append_blocking enc mint True es ts l)"
  | (pruned) k where "sh_table l' = drop k (sh_table l)" "sh_head l' = sh_head l" "log_inv enc dec l'"
  using assms(1)
proof (cases rule: log_step.cases)
  case (Append mint es ts db_ok)
  then show ?thesis
    using same appended [of es mint ts]
    by (cases "es = []"; cases db_ok)
      (use append_failed [of enc mint es ts l] in \<open>auto simp: append_Nil_eq append_blocking_of\<close>)
next
  case (Prune db_ok now)
  show ?thesis
  proof (cases db_ok)
    case True
    with Prune show ?thesis
      by (metis pruned prune_blocking_least [OF assms(2), of now])
  next
    case False
    with Prune show ?thesis using same by (simp add: prune_failed)
  qed
qed

lemma unat_head_append_blocking:
  assumes "log_inv enc dec l" and "room enc mint es ts l" and "es \<noteq> []"
  shows "unat (sh_head (snd (append_blocking enc mint True es ts l))) = unat (sh_head l) + length es"
proof -
  have "unat (sh_head l) + length es < 2 ^ 64" using assms(2) by (simp add: room_def)
  then show ?thesis
    by (simp add: append_blocking_eq [OF assms] unat_add_nat)
qed

lemma batch_past_head:
  assumes "unat base + length es < 2 ^ 64" and "e \<in> set (stamped_batch base mint ts 0 es)"
  shows "base < st_seq e"
proof -
  have "unat (st_seq e) \<in> set (map (unat \<circ> st_seq) (stamped_batch base mint ts 0 es))"
    using assms(2) by auto
  then show ?thesis unfolding batch_seqs [OF assms(1)] by (simp add: word_less_nat_alt)
qed

lemma log_step_keeps:
  assumes "log_inv enc dec l" and "log_step enc dec l l'"
  shows "log_inv enc dec l'"
  using assms(2,1) by (cases rule: log_step_cases) (use assms log_inv_append_blocking in auto)

lemma log_step_view:
  assumes inv: "log_inv enc dec l" and "log_step enc dec l l'"
  shows "\<exists>k es. view dec l' = drop k (view dec l) @ es \<and> (\<forall>e \<in> set es. sh_head l < st_seq e)"
  using assms(2,1)
proof (cases rule: log_step_cases)
  case same
  then show ?thesis by (intro exI [of _ 0] exI [of _ "[]"]) simp
next
  case (appended mint es ts)
  have "unat (sh_head l) + length es < 2 ^ 64" using appended(2) by (simp add: room_def)
  then show ?thesis
    using view_append_blocking [OF inv appended(2,1)] batch_past_head [of "sh_head l" es _ mint ts] appended(3)
    by (intro exI [of _ 0] exI [of _ "stamped_batch (sh_head l) mint ts 0 es"]) auto
next
  case (pruned k)
  then show ?thesis by (intro exI [of _ k] exI [of _ "[]"]) (simp add: view_def drop_map)
qed

lemma log_step_head:
  assumes inv: "log_inv enc dec l" and "log_step enc dec l l'"
  shows "sh_head l \<le> sh_head l'"
  using assms(2,1)
proof (cases rule: log_step_cases)
  case (appended mint es ts)
  then show ?thesis
    using unat_head_append_blocking [OF inv appended(2,1)] by (simp add: word_le_nat_alt)
qed simp_all

lemma map_seq_view: "map (unat \<circ> st_seq) (view dec l) = seqs (sh_table l)"
  by (simp add: view_def seqs_def stamped_of_def comp_def case_prod_unfold)

lemma view_Nil: "view dec l = [] \<longleftrightarrow> sh_table l = []"
  by (simp add: view_def)

interpretation dl: event_log "log_inv enc dec" "view dec" st_seq sh_head sh_floor "log_step enc dec"
  wanted "read_after dec"
  for enc :: "stored_event \<Rightarrow> string option" and dec :: "string \<Rightarrow> stored_event option"
proof
  fix l l' :: shared and a :: u64 and p :: "pattern list option"
  assume inv: "log_inv enc dec l"
  show "view dec l = [] \<longleftrightarrow> sh_floor l = 0"
    using inv table_ok_ends(3) [of dec "sh_floor l" "sh_head l" "sh_table l"]
    by (auto simp: log_inv_def view_Nil table_ok_def)
  show "view dec l \<noteq> [] \<Longrightarrow> map (unat \<circ> st_seq) (view dec l) = [unat (sh_floor l)..<unat (sh_head l) + 1]"
    using inv by (simp add: map_seq_view view_Nil log_inv_def table_ok_def)
  show "log_step enc dec l l' \<Longrightarrow> log_inv enc dec l'"
    using log_step_keeps [OF inv] .
  show "log_step enc dec l l' \<Longrightarrow>
      \<exists>k es. view dec l' = drop k (view dec l) @ es \<and> (\<forall>e \<in> set es. sh_head l < st_seq e)"
    using log_step_view [OF inv] .
  show "log_step enc dec l l' \<Longrightarrow> sh_head l \<le> sh_head l'"
    using log_step_head [OF inv] .
  show "a \<noteq> - 1 \<Longrightarrow> read_after dec a p l = Inr (filter (\<lambda>e. a < st_seq e \<and> wanted p e) (view dec l))"
    using read_after_eq [OF inv] by (simp add: saturating_Suc_le)
qed

section \<open>A concrete codec\<close>

text \<open>
  Numbers in unary, then the channel prefixed by its length, then the payload: a codec that meets
  the assumption on the JSON one, to run the log on concrete inputs.
\<close>

definition put_nat :: "nat \<Rightarrow> string" where
  "put_nat n = replicate n (CHR ''1'') @ [CHR ''0'']"

fun get_nat :: "string \<Rightarrow> (nat \<times> string) option" where
  "get_nat [] = None"
| "get_nat (c # s) =
     (if c = CHR ''0'' then Some (0, s)
      else (case get_nat s of None \<Rightarrow> None | Some (n, r) \<Rightarrow> Some (Suc n, r)))"

definition unary_enc :: "stored_event \<Rightarrow> string option" where
  "unary_enc s = Some (put_nat (unat (se_id s)) @ put_nat (unat (se_ts_ms s)) @
     put_nat (length (se_channel s)) @ se_channel s @ se_payload_b64 s)"

definition unary_dec :: "string \<Rightarrow> stored_event option" where
  "unary_dec v =
     (case get_nat v of
        None \<Rightarrow> None
      | Some (i, v1) \<Rightarrow>
          (case get_nat v1 of
             None \<Rightarrow> None
           | Some (t, v2) \<Rightarrow>
               (case get_nat v2 of
                  None \<Rightarrow> None
                | Some (n, r) \<Rightarrow>
                    Some \<lparr>se_id = of_nat i, se_ts_ms = of_nat t, se_channel = take n r,
                          se_payload_b64 = drop n r\<rparr>)))"

lemma get_put_nat [simp]: "get_nat (put_nat n @ r) = Some (n, r)"
  by (induction n) (simp_all add: put_nat_def)

lemma unary_codec: "codec_ok unary_enc unary_dec"
  by (simp add: codec_ok_def unary_enc_def unary_dec_def)

section \<open>Properties\<close>

text \<open>
  C6: appending a batch that fits below the ends of the counters succeeds, gives its events
  the next sequence numbers with no gap, in the order of the batch, keeps the log's invariant
  (rows contiguous from floor to head, exact count and byte totals), and what the log holds
  afterwards is what it held followed by the batch.
\<close>

theorem append_gapless:
  assumes "log_inv enc dec l" and "room enc mint es ts l" and "es \<noteq> []"
  shows "\<exists>ss l'. append enc mint True es ts l = (Inr ss, l') \<and> log_inv enc dec l' \<and>
    view dec l' = view dec l @ ss \<and>
    map (unat \<circ> st_seq) ss = [unat (sh_head l) + 1 ..< unat (sh_head l) + 1 + length es] \<and>
    map (\<lambda>s. (st_channel s, st_payload_b64 s)) ss = map (\<lambda>e. (ev_channel e, ev_payload_b64 e)) es \<and>
    unat (sh_head l') = unat (sh_head l) + length es"
proof -
  define ss where "ss = stamped_batch (sh_head l) mint ts 0 es"
  define l' where "l' = snd (append_blocking enc mint True es ts l)"
  have "append enc mint True es ts l = (Inr ss, l')"
    using assms(3) by (simp add: append_def append_blocking_eq [OF assms] ss_def l'_def)
  moreover have "unat (sh_head l) + length es < 2 ^ 64"
    using assms(2) by (simp add: room_def)
  then have "map (unat \<circ> st_seq) ss = [unat (sh_head l) + 1 ..< unat (sh_head l) + 1 + length es]"
    unfolding ss_def by (rule batch_seqs)
  moreover have "map (\<lambda>s. (st_channel s, st_payload_b64 s)) ss =
      map (\<lambda>e. (ev_channel e, ev_payload_b64 e)) es"
    by (rule nth_equalityI) (simp_all add: ss_def stamped_batch_nth stamp_def)
  ultimately show ?thesis
    using log_inv_append_blocking [OF assms] view_append_blocking [OF assms]
      unat_head_append_blocking [OF assms] unfolding ss_def l'_def by blast
qed

definition empty_log :: shared where
  "empty_log = \<lparr>sh_table = [], sh_head = 0, sh_floor = 0, sh_count = 0, sh_bytes = 0,
     sh_retention_secs = 60, sh_max_bytes = 1000, sh_max_events = 2\<rparr>"

definition sample_events :: "event list" where
  "sample_events = [\<lparr>ev_channel = ''a.b'', ev_payload_b64 = ''x''\<rparr>,
     \<lparr>ev_channel = ''a.c'', ev_payload_b64 = ''y''\<rparr>, \<lparr>ev_channel = ''b'', ev_payload_b64 = []\<rparr>]"

lemma empty_log_inv: "log_inv unary_enc unary_dec empty_log"
  using unary_codec by (simp add: log_inv_def empty_log_def table_ok_def table_bytes_def)

lemma sample_room: "room unary_enc of_nat sample_events 5 empty_log"
  by (simp add: room_def empty_log_def sample_events_def unary_enc_def stored_of_def stamp_def
      table_bytes_def put_nat_def)

theorem append_gapless_witness:
  "\<exists>ss l'. append unary_enc of_nat True sample_events 5 empty_log = (Inr ss, l') \<and>
     log_inv unary_enc unary_dec l' \<and> map (unat \<circ> st_seq) ss = [1, 2, 3] \<and> unat (sh_head l') = 3"
  using append_gapless [OF empty_log_inv sample_room]
  by (force simp: sample_events_def empty_log_def upt_rec)

text \<open>
  C7: pruning a well-formed log succeeds and removes exactly the oldest rows that have to go:
  afterwards the front row is within the TTL and both caps hold, and every row removed was, at
  its turn, past the TTL or in a log over a cap.  The number removed is reported, the head does
  not move, and the invariant (floor, count and bytes included) is kept.
\<close>

theorem prune_blocking_exact:
  assumes "log_inv enc dec l"
  shows "\<exists>k l'. prune_blocking dec True now l = (Inr (of_nat k), l') \<and> k \<le> length (view dec l) \<and>
    view dec l' = drop k (view dec l) \<and> sh_head l' = sh_head l \<and> log_inv enc dec l' \<and>
    \<not> must_prune dec now l (drop k (sh_table l)) \<and>
    (\<forall>j < k. must_prune dec now l (drop j (sh_table l)))"
  using prune_blocking_least [OF assms, of now]
  by (metis (no_types, lifting) drop_map length_map view_def)

lemma log_inv_append: "log_inv enc dec l \<Longrightarrow> room enc mint es ts l \<Longrightarrow>
  log_inv enc dec (snd (append enc mint True es ts l))"
  using dl.step_inv Append by blast

definition sample_log :: shared where
  "sample_log = snd (append unary_enc of_nat True sample_events 5 empty_log)"

lemma sample_log_inv: "log_inv unary_enc unary_dec sample_log"
  unfolding sample_log_def by (rule log_inv_append [OF empty_log_inv sample_room])

theorem prune_blocking_exact_witness:
  "\<exists>k l'. prune_blocking unary_dec True 6 sample_log = (Inr (of_nat k), l') \<and>
     k \<le> length (view unary_dec sample_log) \<and> log_inv unary_enc unary_dec l'"
  using prune_blocking_exact [OF sample_log_inv, of 6] by blast

text \<open>
  C8: opening the log on the rows an earlier run left succeeds when the file is private,
  takes over the limits of the configuration, loses only what those limits prune (every row that is
  dropped was, at its turn, past the TTL or in a log over a cap, and the first one kept is neither),
  and restores the invariant.  When rows survived the earlier run, the head is the earlier head, so
  numbering continues where it stopped.
\<close>

theorem DeliveryLog_open_recovers:
  assumes "log_inv enc dec l" and "and mode 511 = 384"
    and "limits = l\<lparr>sh_retention_secs := dc_retention_secs cfg, sh_max_bytes := dc_max_bytes cfg,
      sh_max_events := dc_max_events cfg\<rparr>"
  shows "\<exists>l' k. DeliveryLog_open dec True True cfg (Some (mode, sh_table l)) now = Inr l' \<and>
    log_inv enc dec l' \<and> k \<le> length (view dec l) \<and> view dec l' = drop k (view dec l) \<and>
    sh_retention_secs l' = dc_retention_secs cfg \<and> sh_max_bytes l' = dc_max_bytes cfg \<and>
    sh_max_events l' = dc_max_events cfg \<and>
    sh_head l' = (if sh_table l = [] then 0 else sh_head l) \<and>
    \<not> must_prune dec now limits (drop k (sh_table l)) \<and>
    (\<forall>j < k. must_prune dec now limits (drop j (sh_table l)))"
proof -
  define r where "r = recovered cfg (sh_table l)"
  have r: "log_inv enc dec r" unfolding r_def by (rule recovered_inv [OF assms(1)])
  have tab: "sh_table r = sh_table l"
    by (simp add: r_def recovered_def split: prod.splits)
  have head: "sh_head r = (if sh_table l = [] then 0 else sh_head l)"
  proof (cases "sh_table l = []")
    case True
    then show ?thesis by (simp add: r_def recovered_def)
  next
    case False
    then show ?thesis unfolding r_def recovered_eq [OF assms(1) False] by simp
  qed
  obtain k where p: "k \<le> length (sh_table r)"
    "prune_blocking dec True now r = (Inr (of_nat k), snd (prune_blocking dec True now r))"
    "sh_table (snd (prune_blocking dec True now r)) = drop k (sh_table r)"
    "sh_head (snd (prune_blocking dec True now r)) = sh_head r"
    "log_inv enc dec (snd (prune_blocking dec True now r))"
    "\<not> must_prune dec now r (drop k (sh_table r))" "\<forall>j < k. must_prune dec now r (drop j (sh_table r))"
    by (rule prune_blocking_least [OF r])
  define l' where "l' = snd (prune_blocking dec True now r)"
  have lim: "must_prune dec now r t = must_prune dec now limits t" for t
    unfolding r_def assms(3) must_prune_def by (simp add: recovered_def split: prod.splits list.splits)
  have "prune_blocking dec True now r = (Inr (of_nat k), l')" unfolding l'_def by (rule p(2))
  then have "DeliveryLog_open dec True True cfg (Some (mode, sh_table l)) now = Inr l'"
    using assms(2) by (simp add: DeliveryLog_open_def enforce_0600_def r_def Let_def)
  moreover have "view dec l' = drop k (view dec l)" "k \<le> length (view dec l)"
    using p(1,3) by (simp_all add: view_def l'_def tab drop_map)
  moreover have "sh_retention_secs l' = dc_retention_secs cfg" "sh_max_bytes l' = dc_max_bytes cfg"
      "sh_max_events l' = dc_max_events cfg"
    unfolding l'_def prune_blocking_limits by (simp_all add: r_def recovered_def split: prod.splits)
  ultimately show ?thesis
    using p(4-7) head unfolding lim tab l'_def [symmetric]
    by (intro exI [of _ l'] exI [of _ k] conjI) simp_all
qed

definition sample_delivery :: delivery_config where
  "sample_delivery = \<lparr>dc_enabled = True, dc_store_path = ''log'', dc_retention_secs = 60,
     dc_max_bytes = 1000, dc_max_events = 2, dc_prune_interval_secs = 300\<rparr>"

theorem DeliveryLog_open_recovers_witness:
  "\<exists>l' k. DeliveryLog_open unary_dec True True sample_delivery (Some (33152, sh_table sample_log)) 6 =
     Inr l' \<and> log_inv unary_enc unary_dec l' \<and> view unary_dec l' = drop k (view unary_dec sample_log) \<and>
     \<not> must_prune unary_dec 6 (sample_log\<lparr>sh_retention_secs := 60, sh_max_bytes := 1000, sh_max_events := 2\<rparr>)
         (drop k (sh_table sample_log))"
  using DeliveryLog_open_recovers [OF sample_log_inv _ refl, of 33152 sample_delivery 6]
  by (auto simp: sample_delivery_def)

text \<open>A log that was used and then pruned to nothing.\<close>

definition pruned_log :: shared where
  "pruned_log = snd (prune_blocking unary_dec True 100000 sample_log)"

lemma pruned_log_inv: "log_inv unary_enc unary_dec pruned_log"
  unfolding pruned_log_def by (rule dl.step_inv [OF sample_log_inv Prune])

lemma pruned_log_state: "sh_table pruned_log = [] \<and> sh_head pruned_log = 3"
  by code_simp

text \<open>
  C18: the numbering is not durable by itself.  Once every row has been pruned, reopening the
  log starts again at sequence number 1, whatever was issued before.
\<close>

theorem reopen_after_full_prune_restarts:
  assumes "log_inv enc dec l" and "sh_table l = []" and "and mode 511 = 384"
  shows "\<exists>l' s l''. DeliveryLog_open dec True True cfg (Some (mode, sh_table l)) now = Inr l' \<and>
    append enc mint True [e] ts l' = (Inr [s], l'') \<and> st_seq s = 1"
proof -
  have codec: "codec_ok enc dec" using assms(1) by (simp add: log_inv_def)
  have "DeliveryLog_open dec True True cfg (Some (mode, sh_table l)) now = Inr (recovered cfg [])"
    using assms(2,3)
    by (simp add: DeliveryLog_open_def enforce_0600_def prune_blocking_def recovered_def)
  moreover have "fst (append enc mint True [e] ts (recovered cfg [])) = Inr [stamp 0 mint ts 0 e]"
    by (simp add: append_def append_blocking_def stamp_rows_eq [OF codec] recovered_def
        stamped_batch_def del: stamp_rows.simps)
  moreover have "st_seq (stamp 0 mint ts 0 e) = 1"
    by (simp add: stamp_def)
  ultimately show ?thesis by (metis prod.collapse)
qed

theorem reopen_after_full_prune_restarts_witness:
  "sh_head pruned_log = 3 \<and>
   (\<exists>l' s l''. DeliveryLog_open unary_dec True True sample_delivery (Some (33152, sh_table pruned_log)) 6 = Inr l' \<and>
     append unary_enc of_nat True [hd sample_events] 5 l' = (Inr [s], l'') \<and> st_seq s = 1)"
  using reopen_after_full_prune_restarts [OF pruned_log_inv, of 33152 sample_delivery 6 of_nat
      "hd sample_events" 5] pruned_log_state
  by simp

end
