(* ===== verification/Subscribers.thy ===== *)
theory Subscribers
  imports Outbound_Queue Delivery_Log
begin

text \<open>
  \<^verbatim>\<open>crates/whdr-server/src/subscribers.rs\<close>: the registry of live connections and the fan-out.
  A connection's queue is shared by the registry and the connection's task; it is kept in the
  registry's entry, which the connection's task inserts at its start and removes at its end.  The
  sender side of the \<^verbatim>\<open>watch\<close> channel is the value last sent.  A fan-out has two phases, as in
  the code: stamping (under the log's writer lock) and delivery (under the registry's read
  lock), so executions that interleave the phases of several fan-outs can be expressed.
\<close>

section \<open>The code\<close>

record subscriber =
  sub_name :: string
  sub_remote_addr :: "string option"
  sub_patterns :: "pattern list"
  sub_queue :: outbound_queue
  sub_close :: "closing_reason option"

record registry =
  rg_subscribers :: "(u64, subscriber) hashmap"
  rg_next_id :: u64
  rg_seq :: u64
  rg_delivery :: "shared option"
  rg_persist_errors :: u64

record registration =
  rn_name :: string
  rn_remote_addr :: "string option"
  rn_queue :: outbound_queue

record snapshot =
  sn_name :: string
  sn_remote_addr :: "string option"
  sn_patterns :: "string list"
  sn_delivered :: nat
  sn_dropped :: nat

definition SubscriberRegistry_new :: registry where
  "SubscriberRegistry_new =
     \<lparr>rg_subscribers = [], rg_next_id = 1, rg_seq = 0, rg_delivery = None, rg_persist_errors = 0\<rparr>"

definition with_delivery :: "shared \<Rightarrow> registry" where
  "with_delivery log = SubscriberRegistry_new\<lparr>rg_delivery := Some log\<rparr>"

definition registry_insert :: "registration \<Rightarrow> registry \<Rightarrow> u64 \<times> registry" where
  "registry_insert r self =
     (let sid = rg_next_id self
      in (sid, self\<lparr>rg_next_id := rg_next_id self + 1,
                   rg_subscribers := hinsert sid
                     \<lparr>sub_name = rn_name r, sub_remote_addr = rn_remote_addr r, sub_patterns = [],
                      sub_queue = rn_queue r, sub_close = None\<rparr> (rg_subscribers self)\<rparr>))"

definition registry_remove :: "u64 \<Rightarrow> registry \<Rightarrow> registry" where
  "registry_remove sid self = self\<lparr>rg_subscribers := hremove sid (rg_subscribers self)\<rparr>"

text \<open>The validation loop of \<^verbatim>\<open>subscribe\<close>: nothing is added unless every pattern is valid.\<close>

fun parse_patterns :: "string list \<Rightarrow> string + pattern list" where
  "parse_patterns [] = Inr []"
| "parse_patterns (p # ps) =
     (case validate_pattern p of
        Inl err \<Rightarrow> Inl (''invalid pattern: '' @ channel_error_display err)
      | Inr _ \<Rightarrow>
          (case Pattern_new p of
             Inl err \<Rightarrow> Inl (channel_error_display err)
           | Inr q \<Rightarrow> (case parse_patterns ps of Inl e \<Rightarrow> Inl e | Inr qs \<Rightarrow> Inr (q # qs))))"

definition add_patterns :: "pattern list \<Rightarrow> pattern list \<Rightarrow> pattern list" where
  "add_patterns new old = fold (\<lambda>p ps. if p \<in> set ps then ps else ps @ [p]) new old"

definition subscribe :: "u64 \<Rightarrow> string list \<Rightarrow> registry \<Rightarrow> (string + unit) \<times> registry" where
  "subscribe sid patterns self =
     (case parse_patterns patterns of
        Inl e \<Rightarrow> (Inl e, self)
      | Inr parsed \<Rightarrow>
          (Inr (), self\<lparr>rg_subscribers :=
             hmodify sid (\<lambda>s. s\<lparr>sub_patterns := add_patterns parsed (sub_patterns s)\<rparr>)
               (rg_subscribers self)\<rparr>))"

definition unsubscribe :: "u64 \<Rightarrow> string list \<Rightarrow> registry \<Rightarrow> registry" where
  "unsubscribe sid patterns self =
     self\<lparr>rg_subscribers :=
       hmodify sid (\<lambda>s. s\<lparr>sub_patterns := filter (\<lambda>p. as_str p \<notin> set patterns) (sub_patterns s)\<rparr>)
         (rg_subscribers self)\<rparr>"

fun stamp_in_memory ::
  "(nat \<Rightarrow> uuid) \<Rightarrow> u64 \<Rightarrow> nat \<Rightarrow> event list \<Rightarrow> registry \<Rightarrow> stamped_event list \<times> registry" where
  "stamp_in_memory mint ts_ms i [] self = ([], self)"
| "stamp_in_memory mint ts_ms i (e # es) self =
     (let seq = rg_seq self + 1;
          frame = \<lparr>st_seq = seq, st_id = mint i, st_ts_ms = ts_ms, st_channel = ev_channel e,
                   st_payload_b64 = ev_payload_b64 e\<rparr>
      in (case stamp_in_memory mint ts_ms (i + 1) es (self\<lparr>rg_seq := rg_seq self + 1\<rparr>) of
            (frames, self') \<Rightarrow> (frame # frames, self')))"

text \<open>
  Persist before deliver: the first phase of \<^verbatim>\<open>fanout\<close>.  \<open>now_ms\<close> and \<open>now_ms2\<close> are the
  clock readings of the log path and of the in-memory path.
\<close>

definition fanout_stamp ::
  "(stored_event \<Rightarrow> string option) \<Rightarrow> (nat \<Rightarrow> uuid) \<Rightarrow> bool \<Rightarrow> u64 \<Rightarrow> u64 \<Rightarrow> event list \<Rightarrow> registry \<Rightarrow>
   stamped_event list \<times> registry" where
  "fanout_stamp enc mint db_ok now_ms now_ms2 events self =
     (case rg_delivery self of
        Some log \<Rightarrow>
          (case append enc mint db_ok events now_ms log of
             (Inr stamped, log') \<Rightarrow> (stamped, self\<lparr>rg_delivery := Some log'\<rparr>)
           | (Inl err, log') \<Rightarrow>
               stamp_in_memory mint now_ms2 0 events
                 (self\<lparr>rg_delivery := Some log', rg_persist_errors := rg_persist_errors self + 1\<rparr>))
      | None \<Rightarrow> stamp_in_memory mint now_ms2 0 events self)"

definition sub_matches :: "string \<Rightarrow> subscriber \<Rightarrow> bool" where
  "sub_matches channel s = list_ex (\<lambda>p. matches_or_false p channel) (sub_patterns s)"

definition offer :: "stamped_event \<Rightarrow> string \<Rightarrow> subscriber \<Rightarrow> subscriber" where
  "offer frame text s =
     (if sub_matches (st_channel frame) s then s\<lparr>sub_queue := push_event (sub_queue s) text\<rparr> else s)"

definition deliver ::
  "(sub_server_msg \<Rightarrow> string option) \<Rightarrow> stamped_event \<Rightarrow> (u64, subscriber) hashmap \<Rightarrow>
   (u64, subscriber) hashmap" where
  "deliver to_string frame subs =
     (case to_string (SubEvent frame) of
        None \<Rightarrow> subs
      | Some text \<Rightarrow> map (\<lambda>(sid, s). (sid, offer frame text s)) subs)"

definition fanout_deliver ::
  "(sub_server_msg \<Rightarrow> string option) \<Rightarrow> stamped_event list \<Rightarrow> registry \<Rightarrow> registry" where
  "fanout_deliver to_string frames self =
     self\<lparr>rg_subscribers := fold (deliver to_string) frames (rg_subscribers self)\<rparr>"

definition fanout ::
  "(stored_event \<Rightarrow> string option) \<Rightarrow> (sub_server_msg \<Rightarrow> string option) \<Rightarrow> (nat \<Rightarrow> uuid) \<Rightarrow> bool \<Rightarrow>
   u64 \<Rightarrow> u64 \<Rightarrow> event list \<Rightarrow> registry \<Rightarrow> registry" where
  "fanout enc to_string mint db_ok now_ms now_ms2 events self =
     (if events = [] then self
      else (case fanout_stamp enc mint db_ok now_ms now_ms2 events self of
              (frames, self') \<Rightarrow> fanout_deliver to_string frames self'))"

definition close_named :: "string \<Rightarrow> closing_reason \<Rightarrow> registry \<Rightarrow> registry" where
  "close_named nm reason self =
     self\<lparr>rg_subscribers := map (\<lambda>(sid, s).
       (sid, if sub_name s = nm then s\<lparr>sub_close := Some reason\<rparr> else s)) (rg_subscribers self)\<rparr>"

definition close_all :: "closing_reason \<Rightarrow> registry \<Rightarrow> registry" where
  "close_all reason self =
     self\<lparr>rg_subscribers := map (\<lambda>(sid, s). (sid, s\<lparr>sub_close := Some reason\<rparr>)) (rg_subscribers self)\<rparr>"

definition active_connection_counts :: "registry \<Rightarrow> (string, nat) hashmap" where
  "active_connection_counts self =
     fold (\<lambda>(_, s) counts. hinsert (sub_name s)
             ((case hget counts (sub_name s) of None \<Rightarrow> 0 | Some n \<Rightarrow> n) + 1) counts)
       (rg_subscribers self) []"

definition snapshots :: "registry \<Rightarrow> snapshot list" where
  "snapshots self =
     map (\<lambda>(_, s). \<lparr>sn_name = sub_name s, sn_remote_addr = sub_remote_addr s,
                    sn_patterns = map as_str (sub_patterns s),
                    sn_delivered = q_delivered (sub_queue s), sn_dropped = q_dropped (sub_queue s)\<rparr>)
       (rg_subscribers self)"

section \<open>What a fan-out does to each connection\<close>

text \<open>The texts a connection is offered for a list of frames, in order.\<close>

definition live_texts ::
  "(sub_server_msg \<Rightarrow> string option) \<Rightarrow> pattern list \<Rightarrow> stamped_event list \<Rightarrow> string list" where
  "live_texts to_string ps frames =
     List.map_filter (\<lambda>f. to_string (SubEvent f))
       (filter (\<lambda>f. list_ex (\<lambda>p. matches_or_false p (st_channel f)) ps) frames)"

definition offered_all ::
  "(sub_server_msg \<Rightarrow> string option) \<Rightarrow> stamped_event list \<Rightarrow> subscriber \<Rightarrow> subscriber" where
  "offered_all to_string frames s =
     s\<lparr>sub_queue := fold (\<lambda>t q. push_event q t) (live_texts to_string (sub_patterns s) frames)
        (sub_queue s)\<rparr>"

lemma live_texts_Nil [simp]: "live_texts to_string ps [] = []"
  by (simp add: live_texts_def)

lemma live_texts_Cons:
  "live_texts to_string ps (f # fs) =
     (if list_ex (\<lambda>p. matches_or_false p (st_channel f)) ps
      then (case to_string (SubEvent f) of None \<Rightarrow> [] | Some t \<Rightarrow> [t]) else []) @
     live_texts to_string ps fs"
  by (simp add: live_texts_def split: option.splits)

lemma live_texts_append [simp]:
  "live_texts to_string ps (fs @ gs) = live_texts to_string ps fs @ live_texts to_string ps gs"
  by (induction fs) (simp_all add: live_texts_Cons)

lemma offered_all_Nil [simp]: "offered_all to_string [] s = s"
  by (simp add: offered_all_def)

lemma hget_deliver:
  "hget (deliver to_string f subs) sid = map_option (offered_all to_string [f]) (hget subs sid)"
  by (cases "to_string (SubEvent f)"; cases "hget subs sid")
    (simp_all add: deliver_def hm_simps offered_all_def live_texts_Cons offer_def sub_matches_def)

lemma offered_all_Cons:
  "offered_all to_string fs (offered_all to_string [f] s) = offered_all to_string (f # fs) s"
  by (simp add: offered_all_def live_texts_Cons)

lemma hget_fold_deliver:
  "hget (fold (deliver to_string) frames subs) sid =
     map_option (offered_all to_string frames) (hget subs sid)"
proof (induction frames arbitrary: subs)
  case Nil
  then show ?case by (simp add: option.map_ident_strong)
next
  case (Cons f fs)
  then show ?case
    by (simp add: hget_deliver option.map_comp comp_def offered_all_Cons)
qed

lemma hm_ok_fold_deliver: "hm_ok subs \<Longrightarrow> hm_ok (fold (deliver to_string) frames subs)"
proof (induction frames arbitrary: subs)
  case (Cons f fs)
  then show ?case by (auto simp: deliver_def split: option.splits)
qed simp

text \<open>What a stamped batch carries of the events it was made from.\<close>

lemma stamped_batch_content:
  "map st_id (stamped_batch base mint ts i es) = map mint [i ..< i + length es]"
  "list_all (\<lambda>e. st_ts_ms e = ts) (stamped_batch base mint ts i es)"
  "map st_channel (stamped_batch base mint ts i es) = map ev_channel es"
  "map st_payload_b64 (stamped_batch base mint ts i es) = map ev_payload_b64 es"
  by (auto intro!: nth_equalityI simp: list_all_length stamped_batch_nth stamp_def)

lemma stamp_in_memory_eq:
  "stamp_in_memory mint ts i es r =
     (stamped_batch (rg_seq r - of_nat i) mint ts i es, r\<lparr>rg_seq := rg_seq r + of_nat (length es)\<rparr>)"
proof (induction es arbitrary: i r)
  case (Cons e es)
  have "stamped_batch (rg_seq r - of_nat i) mint ts i (e # es) =
      stamp (rg_seq r - of_nat i) mint ts i e # stamped_batch (rg_seq r - of_nat i) mint ts (i + 1) es"
    by (simp add: stamped_batch_def)
  then show ?case
    by (simp add: Cons.IH Let_def stamp_def algebra_simps)
qed (simp add: stamped_batch_def)

lemma stamp_in_memory_start:
  "stamp_in_memory mint ts 0 es r =
     (stamped_batch (rg_seq r) mint ts 0 es, r\<lparr>rg_seq := rg_seq r + of_nat (length es)\<rparr>)"
  using stamp_in_memory_eq [of mint ts 0 es r] by simp

section \<open>The registry's invariant\<close>

definition subscriber_ok :: "subscriber \<Rightarrow> bool" where
  "subscriber_ok s \<longleftrightarrow> distinct (sub_patterns s) \<and>
     list_all (\<lambda>p. validate_pattern (as_str p) = Inr ()) (sub_patterns s) \<and> queue_inv (sub_queue s)"

definition registry_inv :: "registry \<Rightarrow> bool" where
  "registry_inv r \<longleftrightarrow> hm_ok (rg_subscribers r) \<and>
     (\<forall>sid s. hget (rg_subscribers r) sid = Some s \<longrightarrow> sid < rg_next_id r \<and> subscriber_ok s)"

lemma fold_push_event_inv: "queue_inv q \<Longrightarrow> queue_inv (fold (\<lambda>t q. push_event q t) ts q)"
  by (induction ts arbitrary: q) (auto intro: queue_inv_push_event)

lemma subscriber_ok_offered: "subscriber_ok s \<Longrightarrow> subscriber_ok (offered_all to_string frames s)"
  by (simp add: subscriber_ok_def offered_all_def fold_push_event_inv)

lemma parse_patterns_ok:
  "parse_patterns ps = Inr qs \<longleftrightarrow> list_all (\<lambda>p. validate_pattern p = Inr ()) ps \<and> qs = map Pattern ps"
proof (induction ps arbitrary: qs)
  case (Cons p ps)
  show ?case
  proof (cases "parse_patterns ps")
    case (Inl e)
    then have "\<not> list_all (\<lambda>p. validate_pattern p = Inr ()) ps" using Cons.IH by auto
    with Inl show ?thesis by (auto simp: Pattern_new_def split: sum.splits)
  next
    case (Inr qs')
    with Cons.IH [of qs'] show ?thesis by (auto simp: Pattern_new_def split: sum.splits)
  qed
qed auto

lemma set_add_patterns [simp]: "set (add_patterns new old) = set old \<union> set new"
  unfolding add_patterns_def by (induction new arbitrary: old) auto

lemma distinct_add_patterns [simp]: "distinct old \<Longrightarrow> distinct (add_patterns new old)"
  unfolding add_patterns_def by (induction new arbitrary: old) auto

lemma registry_inv_new: "registry_inv SubscriberRegistry_new" "registry_inv (with_delivery l)"
  by (simp_all add: registry_inv_def SubscriberRegistry_new_def with_delivery_def hm_simps)

lemma registry_inv_insert:
  assumes "registry_inv r" and "unat (rg_next_id r) + 1 < 2 ^ 64" and "queue_inv (rn_queue n)"
  shows "registry_inv (snd (registry_insert n r))"
proof -
  have lt: "rg_next_id r < rg_next_id r + 1" and
    trans: "sid < rg_next_id r \<Longrightarrow> sid < rg_next_id r + 1" for sid
    using unat_Suc_u64 [OF assms(2)] by (simp_all add: word_less_nat_alt)
  then show ?thesis
    using assms by (auto simp: registry_inv_def registry_insert_def Let_def hm_simps subscriber_ok_def)
qed

lemma registry_inv_remove: "registry_inv r \<Longrightarrow> registry_inv (registry_remove sid r)"
  by (auto simp: registry_inv_def registry_remove_def hm_simps)

lemma registry_inv_modify:
  assumes "registry_inv r" and "\<And>s. subscriber_ok s \<Longrightarrow> subscriber_ok (f s)"
  shows "registry_inv (r\<lparr>rg_subscribers := hmodify sid f (rg_subscribers r)\<rparr>)"
  using assms by (auto simp: registry_inv_def hm_simps)

lemma registry_inv_subscribe: "registry_inv r \<Longrightarrow> registry_inv (snd (subscribe sid ps r))"
proof (cases "parse_patterns ps")
  case (Inr qs)
  assume inv: "registry_inv r"
  have "list_all (\<lambda>p. validate_pattern (as_str p) = Inr ()) qs"
    using Inr by (auto simp: parse_patterns_ok list_all_iff)
  then have "subscriber_ok (s\<lparr>sub_patterns := add_patterns qs (sub_patterns s)\<rparr>)"
    if "subscriber_ok s" for s
    using that by (auto simp: subscriber_ok_def list_all_iff)
  with inv Inr show ?thesis
    by (auto simp: subscribe_def intro: registry_inv_modify)
qed (simp add: subscribe_def)

lemma registry_inv_unsubscribe: "registry_inv r \<Longrightarrow> registry_inv (unsubscribe sid ps r)"
  unfolding unsubscribe_def
  by (rule registry_inv_modify) (auto simp: subscriber_ok_def list_all_iff)

lemma registry_inv_map:
  assumes "registry_inv r" and "\<And>s. subscriber_ok s \<Longrightarrow> subscriber_ok (f s)"
  shows "registry_inv (r\<lparr>rg_subscribers := map (\<lambda>(sid, s). (sid, f s)) (rg_subscribers r)\<rparr>)"
  using assms by (auto simp: registry_inv_def hm_simps)

lemma registry_inv_close:
  "registry_inv r \<Longrightarrow> registry_inv (close_named nm reason r)"
  "registry_inv r \<Longrightarrow> registry_inv (close_all reason r)"
  unfolding close_named_def close_all_def
  by (rule registry_inv_map, assumption, simp add: subscriber_ok_def)+

lemma registry_inv_stamp:
  "registry_inv r \<Longrightarrow> fanout_stamp enc mint db_ok now now2 es r = (frames, r') \<Longrightarrow>
   registry_inv r' \<and> rg_subscribers r' = rg_subscribers r"
  by (auto simp: fanout_stamp_def registry_inv_def stamp_in_memory_start
      split: option.splits prod.splits sum.splits)

lemma registry_inv_deliver: "registry_inv r \<Longrightarrow> registry_inv (fanout_deliver to_string frames r)"
  by (auto simp: registry_inv_def fanout_deliver_def hget_fold_deliver hm_ok_fold_deliver
      intro: subscriber_ok_offered)

text \<open>
  The operations that change the registry, with the two phases of a fan-out as separate steps, so
  that fan-outs running in parallel interleave freely.
\<close>

inductive registry_step ::
  "(stored_event \<Rightarrow> string option) \<Rightarrow> (sub_server_msg \<Rightarrow> string option) \<Rightarrow> registry \<Rightarrow> registry \<Rightarrow> bool"
  for enc to_string where
  Connect: "unat (rg_next_id r) + 1 < 2 ^ 64 \<Longrightarrow>
     registry_step enc to_string r
       (snd (registry_insert \<lparr>rn_name = nm, rn_remote_addr = addr, rn_queue = OutboundQueue_new a b\<rparr> r))"
| Disconnect: "registry_step enc to_string r (registry_remove sid r)"
| Subscribed: "registry_step enc to_string r (snd (subscribe sid ps r))"
| Unsubscribed: "registry_step enc to_string r (unsubscribe sid ps r)"
| Stamp: "registry_step enc to_string r (snd (fanout_stamp enc mint db_ok now now2 es r))"
| Deliver: "registry_step enc to_string r (fanout_deliver to_string frames r)"
| Popped: "hget (rg_subscribers r) sid = Some s \<Longrightarrow> pop (sub_queue s) = Some (f, q) \<Longrightarrow>
     registry_step enc to_string r
       (r\<lparr>rg_subscribers := hmodify sid (\<lambda>s. s\<lparr>sub_queue := q\<rparr>) (rg_subscribers r)\<rparr>)"
| Lag: "registry_step enc to_string r
       (r\<lparr>rg_subscribers := hmodify sid
            (\<lambda>s. s\<lparr>sub_queue := snd (take_pending_lag (sub_queue s))\<rparr>) (rg_subscribers r)\<rparr>)"
| Control: "registry_step enc to_string r
       (r\<lparr>rg_subscribers := hmodify sid
            (\<lambda>s. s\<lparr>sub_queue := push_control to_string (sub_queue s) m\<rparr>) (rg_subscribers r)\<rparr>)"
| CloseNamed: "registry_step enc to_string r (close_named nm reason r)"
| CloseAll: "registry_step enc to_string r (close_all reason r)"

lemma registry_step_inv: "registry_step enc to_string r r' \<Longrightarrow> registry_inv r \<Longrightarrow> registry_inv r'"
proof (induction rule: registry_step.induct)
  case (Connect r nm addr a b)
  then show ?case by (simp add: registry_inv_insert queue_inv_new)
next
  case (Stamp r mint db_ok now now2 es)
  then show ?case using registry_inv_stamp by (metis prod.collapse)
next
  case (Popped r sid s f q)
  have "queue_inv q"
    using Popped queue_inv_pop [of "sub_queue s" f q] by (auto simp: registry_inv_def subscriber_ok_def)
  with Popped show ?case
    by (intro registry_inv_modify) (auto simp: subscriber_ok_def)
next
  case (Lag r sid)
  then show ?case by (intro registry_inv_modify) (auto simp: subscriber_ok_def queue_inv_take_lag)
next
  case (Control r sid m)
  then show ?case by (intro registry_inv_modify) (auto simp: subscriber_ok_def queue_inv_push_control)
qed (simp_all add: registry_inv_remove registry_inv_subscribe registry_inv_unsubscribe
    registry_inv_deliver registry_inv_close)

lemma registry_steps_inv:
  "(registry_step enc to_string)\<^sup>*\<^sup>* r r' \<Longrightarrow> registry_inv r \<Longrightarrow> registry_inv r'"
  by (induction rule: rtranclp_induct) (auto intro: registry_step_inv)

section \<open>Properties\<close>

text \<open>
  C14: in every state the server can reach, with durable delivery or, as by default, without it,
  connection ids are distinct and were all issued (so a new connection never takes over another's
  entry), every stored pattern is valid and stored once, and every connection's queue is within
  its budgets.
\<close>

theorem registry_reachable_inv:
  assumes "r0 = SubscriberRegistry_new \<or> (\<exists>l. r0 = with_delivery l)"
    and "(registry_step enc to_string)\<^sup>*\<^sup>* r0 r"
  shows "registry_inv r \<and> hget (rg_subscribers r) (rg_next_id r) = None"
proof -
  have "registry_inv r0" using assms(1) registry_inv_new by blast
  then have "registry_inv r" using registry_steps_inv [OF assms(2)] by blast
  then show ?thesis by (auto simp: registry_inv_def) (metis not_Some_eq order_less_irrefl)
qed

lemma connect_then_subscribe:
  assumes "unat (rg_next_id r) + 1 < 2 ^ 64"
  shows "(registry_step enc to_string)\<^sup>*\<^sup>* r (snd (subscribe sid ps
     (snd (registry_insert \<lparr>rn_name = nm, rn_remote_addr = addr, rn_queue = OutboundQueue_new a b\<rparr> r))))"
  using assms by (meson Connect Subscribed converse_rtranclp_into_rtranclp rtranclp.rtrancl_refl)

theorem registry_reachable_inv_witness:
  "list_all (\<lambda>r. registry_inv (snd (subscribe 1 [''a.>'']
     (snd (registry_insert \<lparr>rn_name = ''n'', rn_remote_addr = None, rn_queue = OutboundQueue_new 2 9\<rparr> r)))))
   [SubscriberRegistry_new, with_delivery empty_log]"
proof -
  have "unat (rg_next_id SubscriberRegistry_new) + 1 < 2 ^ 64"
    "unat (rg_next_id (with_delivery empty_log)) + 1 < 2 ^ 64"
    by (simp_all add: with_delivery_def SubscriberRegistry_new_def)
  from this [THEN connect_then_subscribe [where enc = unary_enc and to_string = "\<lambda>_. None"]]
  show ?thesis
    using registry_reachable_inv [where ?r0.0 = SubscriberRegistry_new]
      registry_reachable_inv [where ?r0.0 = "with_delivery empty_log"]
    by (simp only: list.pred_inject simp_thms) blast
qed

text \<open>The two phases of a fan-out whose batch is committed.\<close>

lemma fanout_committed:
  assumes "rg_delivery r = Some l" and "log_inv enc dec l" and "room enc mint es now l" and "es \<noteq> []"
  shows "fanout enc to_string mint True now now2 es r =
    fanout_deliver to_string (stamped_batch (sh_head l) mint now 0 es)
      (r\<lparr>rg_delivery := Some (snd (append_blocking enc mint True es now l))\<rparr>)"
  using assms(1,4) append_blocking_eq [OF assms(2-4)]
  by (simp add: fanout_def fanout_stamp_def append_def)

text \<open>
  C9: a fan-out under durable delivery commits the batch before it queues anything, and then
  offers every connection exactly the events of the batch its patterns match, in batch order,
  stamped with the identities and sequence numbers of the log.
\<close>

theorem fanout_durable:
  assumes "rg_delivery r = Some l" and "log_inv enc dec l" and "room enc mint es now l"
    and "es \<noteq> []"
  shows "\<exists>ss l'. append enc mint True es now l = (Inr ss, l') \<and>
    view dec l' = view dec l @ ss \<and>
    rg_delivery (fanout enc to_string mint True now now2 es r) = Some l' \<and>
    (\<forall>sid. hget (rg_subscribers (fanout enc to_string mint True now now2 es r)) sid =
       map_option (offered_all to_string ss) (hget (rg_subscribers r) sid))"
proof -
  define ss where "ss = stamped_batch (sh_head l) mint now 0 es"
  define l' where "l' = snd (append_blocking enc mint True es now l)"
  have app: "append enc mint True es now l = (Inr ss, l')"
    using assms(4) append_blocking_eq [OF assms(2-4)] by (simp add: append_def ss_def l'_def)
  moreover have "view dec l' = view dec l @ ss"
    unfolding ss_def l'_def by (rule view_append_blocking [OF assms(2-4)])
  moreover have "fanout enc to_string mint True now now2 es r =
      fanout_deliver to_string ss (r\<lparr>rg_delivery := Some l'\<rparr>)"
    unfolding ss_def l'_def by (rule fanout_committed [OF assms])
  ultimately show ?thesis by (simp add: fanout_deliver_def hget_fold_deliver)
qed

definition sample_registry :: registry where
  "sample_registry = snd (subscribe 1 [''a.>'']
     (snd (registry_insert \<lparr>rn_name = ''n'', rn_remote_addr = None, rn_queue = OutboundQueue_new 2 9\<rparr>
        (with_delivery empty_log))))"

lemma sample_registry_eq:
  "sample_registry = \<lparr>rg_subscribers = [(1, \<lparr>sub_name = ''n'', sub_remote_addr = None,
       sub_patterns = [Pattern ''a.>''], sub_queue = OutboundQueue_new 2 9, sub_close = None\<rparr>)],
     rg_next_id = 2, rg_seq = 0, rg_delivery = Some empty_log, rg_persist_errors = 0\<rparr>"
  by code_simp

lemma sample_registry_delivery: "rg_delivery sample_registry = Some empty_log"
  by (simp add: sample_registry_eq)

theorem fanout_durable_witness:
  "\<exists>ss l'. append unary_enc of_nat True sample_events 5 empty_log = (Inr ss, l') \<and>
     rg_delivery (fanout unary_enc (\<lambda>_. Some ''e'') of_nat True 5 5 sample_events sample_registry) = Some l'"
  using fanout_durable [OF sample_registry_delivery empty_log_inv sample_room,
      where to_string = "\<lambda>_. Some ''e''" and ?now2.0 = 5]
  by (fastforce simp: sample_events_def)

text \<open>
  C15: when the log cannot be written, the log keeps what it had, the failure is counted, and the
  fan-out goes on: every connection is offered exactly the events of the batch, with their channels
  and payloads, that its patterns match.  The frames then carry numbers of a separate in-process
  counter, which starts again from the bottom and is not related to the log's.
\<close>

theorem fanout_persist_failure:
  assumes "rg_delivery r = Some l" and "log_inv enc dec l" and "es \<noteq> []"
    and "unat (rg_seq r) + length es < 2 ^ 64"
  shows "\<exists>ss. rg_delivery (fanout enc to_string mint False now now2 es r) = Some l \<and>
    rg_persist_errors (fanout enc to_string mint False now now2 es r) = rg_persist_errors r + 1 \<and>
    rg_seq (fanout enc to_string mint False now now2 es r) = rg_seq r + of_nat (length es) \<and>
    map (unat \<circ> st_seq) ss = [unat (rg_seq r) + 1 ..< unat (rg_seq r) + 1 + length es] \<and>
    map st_id ss = map mint [0 ..< length es] \<and> list_all (\<lambda>e. st_ts_ms e = now2) ss \<and>
    map st_channel ss = map ev_channel es \<and> map st_payload_b64 ss = map ev_payload_b64 es \<and>
    (\<forall>sid. hget (rg_subscribers (fanout enc to_string mint False now now2 es r)) sid =
       map_option (offered_all to_string ss) (hget (rg_subscribers r) sid))"
proof -
  define ss where "ss = stamped_batch (rg_seq r) mint now2 0 es"
  have codec: "codec_ok enc dec" using assms(2) by (simp add: log_inv_def)
  have "append enc mint False es now l = (Inl DbError, l)"
    using assms(3) by (simp add: append_def append_blocking_def stamp_rows_eq [OF codec])
  then have "fanout enc to_string mint False now now2 es r =
      fanout_deliver to_string ss (r\<lparr>rg_delivery := Some l,
        rg_persist_errors := rg_persist_errors r + 1, rg_seq := rg_seq r + of_nat (length es)\<rparr>)"
    using assms(1,3) by (simp add: fanout_def fanout_stamp_def stamp_in_memory_start ss_def)
  moreover have "map (unat \<circ> st_seq) ss = [unat (rg_seq r) + 1 ..< unat (rg_seq r) + 1 + length es]"
    unfolding ss_def using assms(4) by (rule batch_seqs)
  ultimately show ?thesis
    by (intro exI [of _ ss]) (simp add: fanout_deliver_def hget_fold_deliver ss_def stamped_batch_content)
qed

theorem fanout_persist_failure_witness:
  "rg_delivery (fanout unary_enc (\<lambda>_. Some ''e'') of_nat False 5 5 sample_events sample_registry) =
     Some empty_log"
  using fanout_persist_failure [OF sample_registry_delivery empty_log_inv, of sample_events]
  by (auto simp: sample_events_def sample_registry_eq)

text \<open>
  Subscribing is all or nothing.  If one pattern is invalid nothing changes; otherwise the
  connection's patterns become the union of the old and the new ones, and unsubscribing from the
  same strings removes exactly those.
\<close>

theorem subscribe_unsubscribe:
  assumes "hget (rg_subscribers r) sid = Some s"
  shows "if list_all (\<lambda>p. validate_pattern p = Inr ()) ps
    then \<exists>r' s'. subscribe sid ps r = (Inr (), r') \<and> hget (rg_subscribers r') sid = Some s' \<and>
      set (sub_patterns s') = set (sub_patterns s) \<union> Pattern ` set ps \<and>
      (\<exists>s''. hget (rg_subscribers (unsubscribe sid ps r')) sid = Some s'' \<and>
        set (sub_patterns s'') = set (sub_patterns s) - Pattern ` set ps)
    else \<exists>e. subscribe sid ps r = (Inl e, r)"
proof (cases "parse_patterns ps")
  case (Inl e)
  then have "\<not> list_all (\<lambda>p. validate_pattern p = Inr ()) ps"
    using parse_patterns_ok [of ps] by auto
  with Inl show ?thesis by (simp add: subscribe_def)
next
  case (Inr qs)
  then have ok: "list_all (\<lambda>p. validate_pattern p = Inr ()) ps" and qs: "qs = map Pattern ps"
    using parse_patterns_ok by blast+
  have as_str: "as_str p \<in> set ps \<longleftrightarrow> p \<in> Pattern ` set ps" for p
    by (cases p) auto
  show ?thesis
    using ok assms by (auto simp: subscribe_def Inr qs hm_simps unsubscribe_def as_str)
qed

theorem subscribe_unsubscribe_witness:
  "\<exists>s r' s'. hget (rg_subscribers sample_registry) 1 = Some s \<and>
     subscribe 1 [''b.*''] sample_registry = (Inr (), r') \<and> hget (rg_subscribers r') 1 = Some s' \<and>
     set (sub_patterns s') = set (sub_patterns s) \<union> {Pattern ''b.*''}"
proof -
  obtain s where s: "hget (rg_subscribers sample_registry) 1 = Some s"
    by (auto simp: sample_registry_eq hget_def)
  have "validate_pattern ''b.*'' = Inr ()" by code_simp
  with subscribe_unsubscribe [OF s, of "[''b.*'']"] s show ?thesis by auto
qed

end
