(* ===== verification/Subscriber_Ws.thy ===== *)
theory Subscriber_Ws
  imports Subscribers
begin

text \<open>
  \<^verbatim>\<open>crates/whdr-server/src/subscriber_ws.rs\<close>: the WebSocket plane.  One iteration of the
  connection's \<^verbatim>\<open>select!\<close> loop is one step whose argument says which arm fired.  Arguments
  stand for JSON (\<open>from_str\<close>, \<open>to_string\<close>), the codec of log rows (\<open>dec\<close>) and for whether the
  n-th message written to the sink goes out (\<open>sink_ok\<close>).  The replay branch looks at the log three
  times (floor, head, rows) while other tasks append and prune, so it takes three states of the
  log.
\<close>

section \<open>The code\<close>

datatype handshake = Unauthorized | Upgrade string

text \<open>\<open>header\<close> is the \<^verbatim>\<open>Authorization\<close> value when it is present and readable as text.\<close>

definition subscribe_handler ::
  "(string \<Rightarrow> string option) \<Rightarrow> string option \<Rightarrow> handshake" where
  "subscribe_handler authenticate header =
     (case Option.bind header (\<lambda>v. strip_prefix v ''Bearer '') of
        None \<Rightarrow> Unauthorized
      | Some token \<Rightarrow>
          (case authenticate token of None \<Rightarrow> Unauthorized | Some nm \<Rightarrow> Upgrade nm))"

definition ws_encode :: "(sub_server_msg \<Rightarrow> string option) \<Rightarrow> sub_server_msg \<Rightarrow> string" where
  "ws_encode to_string msg = (case to_string msg of None \<Rightarrow> [] | Some text \<Rightarrow> text)"

text \<open>The row loop: it stops at the first row past the head snapshot.\<close>

fun replay_rows :: "u64 \<Rightarrow> stamped_event list \<Rightarrow> sub_server_msg list" where
  "replay_rows head [] = []"
| "replay_rows head (row # rows) =
     (if st_seq row > head then [] else SubEvent row # replay_rows head rows)"

fun filter_patterns :: "string list \<Rightarrow> pattern list" where
  "filter_patterns [] = []"
| "filter_patterns (p # ps) =
     (case Pattern_new p of Inl _ \<Rightarrow> filter_patterns ps | Inr q \<Rightarrow> q # filter_patterns ps)"

definition replay_frames ::
  "(string \<Rightarrow> stored_event option) \<Rightarrow> string list \<Rightarrow> u64 \<Rightarrow> shared \<Rightarrow> shared \<Rightarrow> shared \<Rightarrow>
   log_error + sub_server_msg list" where
  "replay_frames dec patterns after_seq log_f log_h log_r =
     (let parsed = filter_patterns patterns;
          floor = sh_floor log_f;
          gap = (floor \<noteq> 0 \<and> after_seq + 1 < floor);
          effective_after = (if gap then floor - 1 else after_seq);
          head = sh_head log_h
      in (case read_after dec effective_after (Some parsed) log_r of
            Inl e \<Rightarrow> Inl e
          | Inr rows \<Rightarrow>
              Inr ([SubOk ''subscribe''] @
                   (if gap then [ReplayGap after_seq floor] else []) @
                   replay_rows head rows @ [Replayed head])))"

definition queue_control ::
  "(sub_server_msg \<Rightarrow> string option) \<Rightarrow> u64 \<Rightarrow> sub_server_msg \<Rightarrow> registry \<Rightarrow> registry" where
  "queue_control to_string sid msg reg =
     reg\<lparr>rg_subscribers := hmodify sid
           (\<lambda>s. s\<lparr>sub_queue := push_control to_string (sub_queue s) msg\<rparr>) (rg_subscribers reg)\<rparr>"

datatype ws_error = BadJson | ReplayFailed log_error

text \<open>\<open>snaps\<close> are the three states of the log the replay branch reads.\<close>

definition handle_subscriber_text ::
  "(string \<Rightarrow> sub_client_msg option) \<Rightarrow> (sub_server_msg \<Rightarrow> string option) \<Rightarrow>
   (string \<Rightarrow> stored_event option) \<Rightarrow> shared \<times> shared \<times> shared \<Rightarrow> u64 \<Rightarrow> string \<Rightarrow> registry \<Rightarrow>
   (ws_error + string list) \<times> registry" where
  "handle_subscriber_text from_str to_string dec snaps sid text reg =
     (case from_str text of
        None \<Rightarrow> (Inl BadJson, reg)
      | Some (Subscribe patterns replay) \<Rightarrow>
          (case subscribe sid patterns reg of
             (Inl msg, reg') \<Rightarrow> (Inr [], queue_control to_string sid (SubError ''subscribe'' msg) reg')
           | (Inr _, reg') \<Rightarrow>
               (case replay of
                  None \<Rightarrow> (Inr [], queue_control to_string sid (SubOk ''subscribe'') reg')
                | Some rr \<Rightarrow>
                    if rg_delivery reg' = None
                    then (Inr [],
                          queue_control to_string sid
                            (SubError ''replay'' ''durable delivery is not enabled'')
                            (queue_control to_string sid (SubOk ''subscribe'') reg'))
                    else (case snaps of (log_f, log_h, log_r) \<Rightarrow>
                           (case replay_frames dec patterns (rr_after_seq rr) log_f log_h log_r of
                              Inl e \<Rightarrow> (Inl (ReplayFailed e), reg')
                            | Inr frames \<Rightarrow> (Inr (map (ws_encode to_string) frames), reg')))))
      | Some (Unsubscribe patterns) \<Rightarrow>
          (Inr [], queue_control to_string sid (SubOk ''unsubscribe'') (unsubscribe sid patterns reg))
      | Some Ping \<Rightarrow> (Inr [], queue_control to_string sid Pong reg))"

subsection \<open>The connection loop\<close>

datatype ws_message = WsText string | WsBinary string | WsPing string | WsPong string | WsClose

datatype select_arm =
    Tick
  | PopReady
  | CloseChanged "closing_reason option"
  | CloseSenderDropped
  | Incoming ws_message
  | StreamEnd
  | StreamError

record conn =
  cn_id :: u64
  cn_awaiting_pong :: bool
  cn_sent :: "ws_message list"
  cn_open :: bool

text \<open>\<open>sink.send\<close>: the message goes out, or the sink reports an error.\<close>

definition sink_send :: "(nat \<Rightarrow> bool) \<Rightarrow> ws_message \<Rightarrow> conn \<Rightarrow> bool \<times> conn" where
  "sink_send sink_ok msg c =
     (if sink_ok (length (cn_sent c)) then (True, c\<lparr>cn_sent := cn_sent c @ [msg]\<rparr>) else (False, c))"

fun sink_send_all :: "(nat \<Rightarrow> bool) \<Rightarrow> string list \<Rightarrow> conn \<Rightarrow> bool \<times> conn" where
  "sink_send_all sink_ok [] c = (True, c)"
| "sink_send_all sink_ok (t # ts) c =
     (case sink_send sink_ok (WsText t) c of
        (False, c') \<Rightarrow> (False, c')
      | (True, c') \<Rightarrow> sink_send_all sink_ok ts c')"

text \<open>Registration and the welcome frame, before the loop.\<close>

definition socket_open ::
  "(sub_server_msg \<Rightarrow> string option) \<Rightarrow> (nat \<Rightarrow> bool) \<Rightarrow> nat \<Rightarrow> nat \<Rightarrow> string \<Rightarrow> registry \<Rightarrow>
   conn \<times> registry" where
  "socket_open to_string sink_ok queue_len queue_bytes nm reg =
     (case registry_insert \<lparr>rn_name = nm, rn_remote_addr = None,
             rn_queue = OutboundQueue_new queue_len queue_bytes\<rparr> reg of
        (sid, reg') \<Rightarrow>
          (snd (sink_send sink_ok (WsText (ws_encode to_string (Welcome nm)))
             \<lparr>cn_id = sid, cn_awaiting_pong = False, cn_sent = [], cn_open = True\<rparr>), reg'))"

text \<open>Leaving the loop: the entry is removed.\<close>

definition socket_break :: "conn \<Rightarrow> registry \<Rightarrow> conn \<times> registry" where
  "socket_break c reg = (c\<lparr>cn_open := False\<rparr>, registry_remove (cn_id c) reg)"

definition socket_pop ::
  "(sub_server_msg \<Rightarrow> string option) \<Rightarrow> (nat \<Rightarrow> bool) \<Rightarrow> frame \<Rightarrow> conn \<Rightarrow> registry \<Rightarrow> conn \<times> registry" where
  "socket_pop to_string sink_ok f c reg =
     (let lag = (case hget (rg_subscribers reg) (cn_id c) of
                   None \<Rightarrow> None | Some s \<Rightarrow> fst (take_pending_lag (sub_queue s)));
          reg' = reg\<lparr>rg_subscribers := hmodify (cn_id c)
                   (\<lambda>s. s\<lparr>sub_queue := snd (take_pending_lag (sub_queue s))\<rparr>) (rg_subscribers reg)\<rparr>;
          (ok, c1) = (case lag of
                        None \<Rightarrow> (True, c)
                      | Some dropped \<Rightarrow>
                          sink_send sink_ok
                            (WsText (ws_encode to_string (Lagged (of_nat dropped)))) c)
      in if \<not> ok then socket_break c1 reg'
         else (case sink_send sink_ok (WsText (fr_text f)) c1 of
                 (False, c2) \<Rightarrow> socket_break c2 reg'
               | (True, c2) \<Rightarrow> if fr_closing f then socket_break c2 reg' else (c2, reg')))"

definition socket_step ::
  "(string \<Rightarrow> sub_client_msg option) \<Rightarrow> (sub_server_msg \<Rightarrow> string option) \<Rightarrow>
   (string \<Rightarrow> stored_event option) \<Rightarrow> (nat \<Rightarrow> bool) \<Rightarrow> shared \<times> shared \<times> shared \<Rightarrow> select_arm \<Rightarrow>
   conn \<times> registry \<Rightarrow> conn \<times> registry" where
  "socket_step from_str to_string dec sink_ok snaps arm st =
     (case st of (c, reg) \<Rightarrow>
        if \<not> cn_open c then (c, reg)
        else (case arm of
          Tick \<Rightarrow>
            (if cn_awaiting_pong c then socket_break c reg
             else (case sink_send sink_ok (WsPing []) c of
                     (False, c') \<Rightarrow> socket_break c' reg
                   | (True, c') \<Rightarrow> (c'\<lparr>cn_awaiting_pong := True\<rparr>, reg)))
        | PopReady \<Rightarrow>
            (case hget (rg_subscribers reg) (cn_id c) of
               None \<Rightarrow> (c, reg)
             | Some s \<Rightarrow>
                 (case pop (sub_queue s) of
                    None \<Rightarrow> (c, reg)
                  | Some (f, q) \<Rightarrow>
                      socket_pop to_string sink_ok f c
                        (reg\<lparr>rg_subscribers := hmodify (cn_id c) (\<lambda>s. s\<lparr>sub_queue := q\<rparr>)
                           (rg_subscribers reg)\<rparr>)))
        | CloseSenderDropped \<Rightarrow> socket_break c reg
        | CloseChanged None \<Rightarrow> (c, reg)
        | CloseChanged (Some reason) \<Rightarrow>
            (case to_string (Closing reason) of
               None \<Rightarrow> socket_break c reg
             | Some text \<Rightarrow> socket_break (snd (sink_send sink_ok (WsText text) c)) reg)
        | Incoming (WsText text) \<Rightarrow>
            (case handle_subscriber_text from_str to_string dec snaps (cn_id c) text reg of
               (Inl _, reg') \<Rightarrow> socket_break c reg'
             | (Inr frames, reg') \<Rightarrow>
                 (case sink_send_all sink_ok frames c of
                    (False, c') \<Rightarrow> socket_break c' reg'
                  | (True, c') \<Rightarrow> (c', reg')))
        | Incoming (WsPing payload) \<Rightarrow> (snd (sink_send sink_ok (WsPong payload) c), reg)
        | Incoming (WsPong _) \<Rightarrow> (c\<lparr>cn_awaiting_pong := False\<rparr>, reg)
        | Incoming WsClose \<Rightarrow> socket_break c reg
        | Incoming (WsBinary _) \<Rightarrow> (c, reg)
        | StreamEnd \<Rightarrow> socket_break c reg
        | StreamError \<Rightarrow> socket_break c reg))"

section \<open>Replay\<close>

lemma replay_rows_eq:
  "replay_rows head rows = map SubEvent (takeWhile (\<lambda>r. st_seq r \<le> head) rows)"
  by (induction rows) (auto simp: not_less)

lemma filter_patterns_valid:
  "list_all (\<lambda>p. validate_pattern p = Inr ()) ps \<Longrightarrow> filter_patterns ps = map Pattern ps"
  by (induction ps) (auto simp: Pattern_new_def)

lemma floor_below:
  assumes "(f :: u64) \<noteq> 0"
  shows "f - 1 \<noteq> - 1" and "f - 1 < s \<longleftrightarrow> f \<le> s"
proof -
  have u: "unat (f - 1) = unat f - 1"
    using assms by (simp add: unat_minus_one)
  have pos: "0 < unat f" using assms by (simp add: unat_gt_0)
  have "unat f < 18446744073709551616" by simp
  with pos have "unat f - 1 < 18446744073709551615" by linarith
  then have "unat (f - 1) \<noteq> unat (- 1 :: u64)"
    unfolding u unat_u64_max by simp
  then show "f - 1 \<noteq> - 1" by metis
  show "f - 1 < s \<longleftrightarrow> f \<le> s"
    unfolding word_less_nat_alt word_le_nat_alt u using pos by linarith
qed

text \<open>The replay starts at the same rows whether or not it was told of a gap.\<close>

lemma effective_after:
  assumes inv: "log_inv enc dec lf" and steps: "(log_step enc dec)\<^sup>*\<^sup>* lf lr"
    and gap: "sh_floor lf \<noteq> 0" "a < sh_floor lf" and e: "e \<in> set (view dec lr)"
  shows "sh_floor lf - 1 < st_seq e \<and> a < st_seq e"
proof -
  obtain k es where v: "view dec lr = drop k (view dec lf) @ es"
      "\<forall>e \<in> set es. sh_head lf < st_seq e"
    using dl.steps_view [OF steps inv] by blast
  have ne: "view dec lf \<noteq> []" using dl.floor_empty [OF inv] gap(1) by blast
  then have "sh_floor lf \<le> sh_head lf"
    using dl.view_ge_floor [OF inv, of "hd (view dec lf)"] dl.view_le_head [OF inv, of "hd (view dec lf)"]
    by (meson hd_in_set order_trans)
  moreover have "\<forall>e \<in> set (drop k (view dec lf)). sh_floor lf \<le> st_seq e"
    using dl.view_ge_floor [OF inv] by (auto dest: in_set_dropD)
  ultimately have "sh_floor lf \<le> st_seq e" using v e by (auto intro: order_trans less_imp_le)
  with gap floor_below(2) [OF gap(1)] show ?thesis by (auto intro: less_le_trans)
qed

lemma replay_frames_window:
  assumes inv: "log_inv enc dec lf" and fh: "(log_step enc dec)\<^sup>*\<^sup>* lf lh"
    and hr: "(log_step enc dec)\<^sup>*\<^sup>* lh lr" and a: "a \<noteq> - 1"
    and valid: "list_all (\<lambda>p. validate_pattern p = Inr ()) ps"
  obtains k where "replay_frames dec ps a lf lh lr =
      Inr ([SubOk ''subscribe''] @
        (if sh_floor lf \<noteq> 0 \<and> unat a + 1 < unat (sh_floor lf) then [ReplayGap a (sh_floor lf)] else []) @
        map SubEvent (filter (\<lambda>e. a < st_seq e \<and> wanted (Some (map Pattern ps)) e)
          (drop k (view dec lh))) @ [Replayed (sh_head lh)])"
    "view dec lr = drop k (view dec lh) @ filter (\<lambda>e. sh_head lh < st_seq e) (view dec lr)"
proof -
  define gap where "gap \<longleftrightarrow> sh_floor lf \<noteq> 0 \<and> a + 1 < sh_floor lf"
  define eff where "eff = (if gap then sh_floor lf - 1 else a)"
  have gap_nat: "gap \<longleftrightarrow> sh_floor lf \<noteq> 0 \<and> unat a + 1 < unat (sh_floor lf)"
    unfolding gap_def word_less_nat_alt using unat_Suc_u64 [OF u64_not_max [OF a]] by simp
  have eff: "eff \<noteq> - 1" using a floor_below(1) gap_def by (simp add: eff_def)
  have invh: "log_inv enc dec lh" using dl.steps_inv [OF fh inv] .
  obtain k rows where k: "read_after dec eff (Some (map Pattern ps)) lr = Inr rows"
    "takeWhile (\<lambda>e. st_seq e \<le> sh_head lh) rows =
       filter (\<lambda>e. eff < st_seq e \<and> wanted (Some (map Pattern ps)) e) (drop k (view dec lh))"
    "view dec lr = drop k (view dec lh) @ filter (\<lambda>e. sh_head lh < st_seq e) (view dec lr)"
    using dl.replay_window [OF invh hr eff] by blast
  have "eff < st_seq e \<longleftrightarrow> a < st_seq e" if "e \<in> set (drop k (view dec lh))" for e
  proof (cases gap)
    case True
    have "e \<in> set (view dec lr)" using that k(3) by (metis UnI1 set_append)
    moreover have "a < sh_floor lf" using True gap_nat by (simp add: word_less_nat_alt)
    ultimately show ?thesis
      using effective_after [OF inv rtranclp_trans [OF fh hr]] True by (simp add: gap_def eff_def)
  qed (simp add: eff_def)
  then have "filter (\<lambda>e. eff < st_seq e \<and> wanted (Some (map Pattern ps)) e) (drop k (view dec lh)) =
      filter (\<lambda>e. a < st_seq e \<and> wanted (Some (map Pattern ps)) e) (drop k (view dec lh))"
    by (intro filter_cong) auto
  with k(1,2) have "replay_frames dec ps a lf lh lr =
      Inr ([SubOk ''subscribe''] @ (if gap then [ReplayGap a (sh_floor lf)] else []) @
        map SubEvent (filter (\<lambda>e. a < st_seq e \<and> wanted (Some (map Pattern ps)) e)
          (drop k (view dec lh))) @ [Replayed (sh_head lh)])"
    unfolding replay_frames_def filter_patterns_valid [OF valid] Let_def gap_def [symmetric]
      eff_def [symmetric] by (simp add: replay_rows_eq)
  with that k(3) gap_nat show thesis by simp
qed

section \<open>Properties\<close>

text \<open>
  C5: the reply to a replay request is the acknowledgement, a gap notice exactly when the log holds
  rows and its floor is past the number after the cursor, then every retained row past the cursor and
  up to the head snapshot that a pattern matches, in order, and the marker of the snapshot.  This
  holds while other tasks append to and prune the log between the three looks the code takes
  at it: rows past the snapshot never leak in, and only rows pruned meanwhile are missing.
\<close>

theorem replay_frames_exact:
  assumes "log_inv enc dec lf" and "(log_step enc dec)\<^sup>*\<^sup>* lf lh" and "(log_step enc dec)\<^sup>*\<^sup>* lh lr"
    and "a \<noteq> - 1" and "list_all (\<lambda>p. validate_pattern p = Inr ()) ps"
  shows "\<exists>k. replay_frames dec ps a lf lh lr =
      Inr ([SubOk ''subscribe''] @
        (if sh_floor lf \<noteq> 0 \<and> unat a + 1 < unat (sh_floor lf) then [ReplayGap a (sh_floor lf)] else []) @
        map SubEvent (filter (\<lambda>e. a < st_seq e \<and> wanted (Some (map Pattern ps)) e)
          (drop k (view dec lh))) @ [Replayed (sh_head lh)]) \<and>
    view dec lr = drop k (view dec lh) @ filter (\<lambda>e. sh_head lh < st_seq e) (view dec lr)"
  using replay_frames_window [OF assms] by blast

lemma sample_pattern_ok: "list_all (\<lambda>p. validate_pattern p = Inr ()) [''a.>'']"
  by code_simp

theorem replay_frames_exact_witness:
  "\<exists>k. replay_frames unary_dec [''a.>''] 1 sample_log sample_log
     (snd (prune_blocking unary_dec True 6 sample_log)) =
     Inr ([SubOk ''subscribe''] @
       (if sh_floor sample_log \<noteq> 0 \<and> unat (1 :: u64) + 1 < unat (sh_floor sample_log)
        then [ReplayGap 1 (sh_floor sample_log)] else []) @
       map SubEvent (filter (\<lambda>e. 1 < st_seq e \<and> wanted (Some (map Pattern [''a.>''])) e)
         (drop k (view unary_dec sample_log))) @ [Replayed (sh_head sample_log)])"
  using replay_frames_exact [OF sample_log_inv rtranclp.rtrancl_refl
      r_into_rtranclp [of "log_step unary_enc unary_dec", OF Prune] _ sample_pattern_ok, of 1 True 6]
  by fastforce

text \<open>
  On a log that holds rows, a replay with no gap notice has lost nothing: every number past
  the cursor and up to the head belongs to a retained row, and each of those rows that a
  pattern matches is in the reply.
\<close>

theorem replay_no_silent_loss:
  assumes "log_inv enc dec l" and "view dec l \<noteq> []" and "a \<noteq> - 1"
    and "list_all (\<lambda>p. validate_pattern p = Inr ()) ps"
    and "replay_frames dec ps a l l l = Inr frames"
    and "\<forall>x y. ReplayGap x y \<notin> set frames"
    and "unat a < n" and "n \<le> unat (sh_head l)"
  shows "\<exists>e \<in> set (view dec l). unat (st_seq e) = n \<and>
    (wanted (Some (map Pattern ps)) e \<longrightarrow> SubEvent e \<in> set frames)"
proof -
  obtain k where k: "frames = [SubOk ''subscribe''] @
      (if sh_floor l \<noteq> 0 \<and> unat a + 1 < unat (sh_floor l) then [ReplayGap a (sh_floor l)] else []) @
      map SubEvent (filter (\<lambda>e. a < st_seq e \<and> wanted (Some (map Pattern ps)) e)
        (drop k (view dec l))) @ [Replayed (sh_head l)]"
    "view dec l = drop k (view dec l) @ filter (\<lambda>e. sh_head l < st_seq e) (view dec l)"
    using replay_frames_window [OF assms(1) rtranclp.rtrancl_refl rtranclp.rtrancl_refl assms(3,4)]
      assms(5) by auto
  have "filter (\<lambda>e. sh_head l < st_seq e) (view dec l) = []"
    using dl.view_le_head [OF assms(1)] by (auto simp: filter_empty_conv not_less)
  with k(2) have all: "drop k (view dec l) = view dec l" by simp
  have "sh_floor l \<noteq> 0" using dl.floor_empty [OF assms(1)] assms(2) by blast
  have "\<not> unat a + 1 < unat (sh_floor l)"
  proof
    assume "unat a + 1 < unat (sh_floor l)"
    with k(1) \<open>sh_floor l \<noteq> 0\<close> have "ReplayGap a (sh_floor l) \<in> set frames" by simp
    with assms(6) show False by blast
  qed
  with assms(7,8) have "n \<in> set [unat (sh_floor l) ..< unat (sh_head l) + 1]"
    unfolding set_upt atLeastLessThan_iff by linarith
  then obtain e where e: "e \<in> set (view dec l)" "unat (st_seq e) = n"
    unfolding dl.window [OF assms(1,2), symmetric] by auto
  with assms(7) have "a < st_seq e" by (simp add: word_less_nat_alt)
  with e k(1) all show ?thesis by (intro bexI [of _ e]) auto
qed

text \<open>
  C16: the gap notice depends on a row being retained.  When everything has been pruned, a replay
  from any cursor is answered as complete, with no row and no gap notice.
\<close>

theorem replay_of_pruned_log_silent:
  assumes "log_inv enc dec l" and "view dec l = []"
  shows "replay_frames dec ps a l l l = Inr [SubOk ''subscribe'', Replayed (sh_head l)]"
proof -
  have "sh_floor l = 0" "sh_table l = []"
    using dl.floor_empty [OF assms(1)] assms(2) by (auto simp: view_Nil)
  then show ?thesis
    by (simp add: replay_frames_def read_after_def Let_def)
qed

theorem replay_of_pruned_log_silent_witness:
  "sh_head pruned_log = 3 \<and>
   replay_frames unary_dec [''a.>''] 1 pruned_log pruned_log pruned_log =
     Inr [SubOk ''subscribe'', Replayed 3]"
  using replay_of_pruned_log_silent [OF pruned_log_inv] pruned_log_state by (simp add: view_Nil)

theorem replay_no_silent_loss_witness:
  "\<exists>e \<in> set (view unary_dec sample_log). unat (st_seq e) = 2"
proof -
  have frames: "replay_frames unary_dec [''a.>''] 1 sample_log sample_log sample_log =
      Inr [SubOk ''subscribe'',
        SubEvent \<lparr>st_seq = 2, st_id = 1, st_ts_ms = 5, st_channel = ''a.c'', st_payload_b64 = ''y''\<rparr>,
        Replayed 3]"
    and ne: "view unary_dec sample_log \<noteq> []" and head: "sh_head sample_log = 3"
    by code_simp+
  show ?thesis
    using replay_no_silent_loss [OF sample_log_inv ne _ sample_pattern_ok frames, of 2] head by auto
qed

section \<open>The life of a connection\<close>

text \<open>An open connection has its entry; a closed one has none.\<close>

definition conn_inv :: "conn \<times> registry \<Rightarrow> bool" where
  "conn_inv st \<longleftrightarrow>
     (case st of (c, reg) \<Rightarrow>
        registry_inv reg \<and> (cn_open c \<longleftrightarrow> hget (rg_subscribers reg) (cn_id c) \<noteq> None))"

lemma sink_send_simps [simp]:
  "cn_id (snd (sink_send ok m c)) = cn_id c" "cn_open (snd (sink_send ok m c)) = cn_open c"
  by (simp_all add: sink_send_def)

lemma sink_send_keeps:
  "sink_send ok m c = (b, c') \<Longrightarrow> cn_id c' = cn_id c \<and> cn_open c' = cn_open c"
  by (auto simp: sink_send_def split: if_splits)

lemma sink_send_all_keeps:
  "sink_send_all ok ts c = (b, c') \<Longrightarrow> cn_id c' = cn_id c \<and> cn_open c' = cn_open c"
proof (induction ts arbitrary: c)
  case (Cons t ts)
  then show ?case by (auto simp: sink_send_def split: if_splits)
qed simp

lemma conn_inv_break: "registry_inv reg \<Longrightarrow> conn_inv (socket_break c reg)"
  by (simp add: conn_inv_def socket_break_def registry_inv_remove)
    (simp add: registry_remove_def hm_simps)

lemma conn_inv_keep:
  assumes "conn_inv (c, reg)" and "cn_id c' = cn_id c" "cn_open c' = cn_open c"
    and "registry_inv reg'"
    and "hget (rg_subscribers reg') (cn_id c) = None \<longleftrightarrow> hget (rg_subscribers reg) (cn_id c) = None"
  shows "conn_inv (c', reg')"
  using assms by (simp add: conn_inv_def del: not_None_eq)

lemma hmodify_present: "hget (hmodify k f m) k' = None \<longleftrightarrow> hget m k' = None"
  by (simp add: hm_simps)

lemma handle_text_keeps:
  assumes "registry_inv reg"
    and "handle_subscriber_text from_str to_string dec snaps sid t reg = (res, reg')"
  shows "registry_inv reg' \<and>
    (hget (rg_subscribers reg') k = None \<longleftrightarrow> hget (rg_subscribers reg) k = None)"
proof -
  have ctl: "registry_inv (queue_control to_string sid m r) \<and>
      (hget (rg_subscribers (queue_control to_string sid m r)) k = None \<longleftrightarrow>
       hget (rg_subscribers r) k = None)" if "registry_inv r" for m r
    using registry_inv_modify [OF that, of "\<lambda>s. s\<lparr>sub_queue := push_control to_string (sub_queue s) m\<rparr>" sid]
    by (simp add: queue_control_def hmodify_present subscriber_ok_def queue_inv_push_control)
  have sub: "registry_inv r' \<and> (hget (rg_subscribers r') k = None \<longleftrightarrow> hget (rg_subscribers reg) k = None)"
    if "subscribe sid ps reg = (x, r')" for x r' ps
  proof -
    have "registry_inv r'" using registry_inv_subscribe [OF assms(1), of sid ps] that by simp
    moreover have "hget (rg_subscribers r') k = None \<longleftrightarrow> hget (rg_subscribers reg) k = None"
      using that by (auto simp: subscribe_def hmodify_present split: sum.splits)
    ultimately show ?thesis ..
  qed
  have unsub: "registry_inv (unsubscribe sid ps reg) \<and>
      (hget (rg_subscribers (unsubscribe sid ps reg)) k = None \<longleftrightarrow> hget (rg_subscribers reg) k = None)" for ps
    using registry_inv_unsubscribe [OF assms(1)] by (simp add: unsubscribe_def hmodify_present)
  show ?thesis
    using assms ctl sub unsub
    by (force simp: handle_subscriber_text_def split: option.splits sub_client_msg.splits prod.splits
        sum.splits if_splits)
qed

lemma registry_inv_pop:
  assumes "registry_inv reg" and "hget (rg_subscribers reg) sid = Some s"
    and "pop (sub_queue s) = Some (f, q)"
  shows "registry_inv (reg\<lparr>rg_subscribers := hmodify sid (\<lambda>s. s\<lparr>sub_queue := q\<rparr>) (rg_subscribers reg)\<rparr>)"
  using registry_step_inv [OF Popped [OF assms(2,3)] assms(1)] .

lemma registry_inv_lag:
  "registry_inv reg \<Longrightarrow> registry_inv (reg\<lparr>rg_subscribers := hmodify sid
     (\<lambda>s. s\<lparr>sub_queue := snd (take_pending_lag (sub_queue s))\<rparr>) (rg_subscribers reg)\<rparr>)"
  using registry_step_inv [OF Lag] .

lemma conn_inv_pop:
  assumes "conn_inv (c, reg)"
  shows "conn_inv (socket_pop to_string sink_ok f c reg)"
proof -
  define reg' where "reg' = reg\<lparr>rg_subscribers := hmodify (cn_id c)
    (\<lambda>s. s\<lparr>sub_queue := snd (take_pending_lag (sub_queue s))\<rparr>) (rg_subscribers reg)\<rparr>"
  have inv': "registry_inv reg'"
    using assms registry_inv_lag by (simp add: reg'_def conn_inv_def)
  have keep: "conn_inv (c', reg')" if "cn_id c' = cn_id c" "cn_open c' = cn_open c" for c'
    using conn_inv_keep [OF assms that inv'] by (simp add: reg'_def hmodify_present)
  show ?thesis
    unfolding socket_pop_def Let_def reg'_def [symmetric]
    using conn_inv_break [OF inv'] keep
    by (auto dest!: sink_send_keeps split: option.splits prod.splits bool.splits)
qed

lemma conn_inv_pop_ready:
  assumes inv: "conn_inv (c, reg)" and s: "hget (rg_subscribers reg) (cn_id c) = Some s"
    and p: "pop (sub_queue s) = Some (f, q)"
  shows "conn_inv (socket_pop to_string sink_ok f c
    (reg\<lparr>rg_subscribers := hmodify (cn_id c) (\<lambda>s. s\<lparr>sub_queue := q\<rparr>) (rg_subscribers reg)\<rparr>))"
proof (rule conn_inv_pop, rule conn_inv_keep [OF inv])
  show "registry_inv (reg\<lparr>rg_subscribers := hmodify (cn_id c) (\<lambda>s. s\<lparr>sub_queue := q\<rparr>) (rg_subscribers reg)\<rparr>)"
    using inv registry_inv_pop [OF _ s p] by (simp add: conn_inv_def)
qed (simp_all add: hmodify_present)

lemma conn_inv_incoming:
  assumes inv: "conn_inv (c, reg)"
    and h: "handle_subscriber_text from_str to_string dec snaps (cn_id c) t reg = (res, reg')"
  shows "conn_inv (case res of Inl _ \<Rightarrow> socket_break c reg'
     | Inr frames \<Rightarrow> (case sink_send_all sink_ok frames c of
         (False, c') \<Rightarrow> socket_break c' reg' | (True, c') \<Rightarrow> (c', reg')))"
proof -
  have k: "registry_inv reg'" "hget (rg_subscribers reg') (cn_id c) = None \<longleftrightarrow>
      hget (rg_subscribers reg) (cn_id c) = None"
    using handle_text_keeps [OF _ h] inv by (auto simp: conn_inv_def)
  have "conn_inv (c', reg')" if "cn_id c' = cn_id c" "cn_open c' = cn_open c" for c'
    using conn_inv_keep [OF inv that k] .
  with conn_inv_break [OF k(1)] show ?thesis
    by (auto dest!: sink_send_all_keeps split: sum.splits prod.splits bool.splits)
qed

lemma conn_inv_step:
  assumes "conn_inv (c, reg)"
  shows "conn_inv (socket_step from_str to_string dec sink_ok snaps arm (c, reg))"
proof (cases "cn_open c")
  case True
  have inv: "registry_inv reg" using assms by (simp add: conn_inv_def)
  have keep: "conn_inv (c', reg)" if "cn_id c' = cn_id c" "cn_open c' = cn_open c" for c'
    using conn_inv_keep [OF assms that inv] by simp
  note brk = conn_inv_break [OF inv]
  show ?thesis
  proof (cases arm)
    case Tick
    with True keep brk show ?thesis
      by (auto simp: socket_step_def dest!: sink_send_keeps split: prod.splits bool.splits)
  next
    case PopReady
    with True assms conn_inv_pop_ready [OF assms] show ?thesis
      by (auto simp: socket_step_def split: option.splits)
  next
    case (CloseChanged r)
    with True assms brk show ?thesis
      by (auto simp: socket_step_def split: option.splits)
  next
    case (Incoming m)
    with True assms brk keep conn_inv_incoming [OF assms] show ?thesis
      by (cases m) (simp_all add: socket_step_def split: prod.splits)
  qed (use True brk in \<open>simp_all add: socket_step_def\<close>)
qed (use assms in \<open>simp add: socket_step_def\<close>)

lemma conn_inv_open:
  assumes "registry_inv reg" and "unat (rg_next_id reg) + 1 < 2 ^ 64"
  shows "conn_inv (socket_open to_string sink_ok ql qb nm reg)"
proof -
  have "registry_inv (snd (registry_insert \<lparr>rn_name = nm, rn_remote_addr = None,
      rn_queue = OutboundQueue_new ql qb\<rparr> reg))"
    by (rule registry_inv_insert [OF assms]) (simp add: queue_inv_new)
  then show ?thesis
    by (simp add: socket_open_def conn_inv_def registry_insert_def Let_def hm_simps)
qed

text \<open>
  C17: a connection's entry lives exactly as long as its loop.  Whatever arms fire, in whatever
  order and with whatever sink failures, the registry's invariant is kept, the entry is there
  while the loop runs, and it is gone when the loop has ended, for every reason it can end.
\<close>

theorem socket_entry_lifetime:
  assumes "registry_inv reg" and "unat (rg_next_id reg) + 1 < 2 ^ 64"
  shows "case fold (\<lambda>(snaps, arm). socket_step from_str to_string dec sink_ok snaps arm) arms
           (socket_open to_string sink_ok ql qb nm reg) of
    (c, reg') \<Rightarrow> registry_inv reg' \<and>
      (cn_open c \<longleftrightarrow> (\<exists>s. hget (rg_subscribers reg') (cn_id c) = Some s))"
proof -
  have "conn_inv (fold (\<lambda>(snaps, arm). socket_step from_str to_string dec sink_ok snaps arm) arms
      (socket_open to_string sink_ok ql qb nm reg))"
    using conn_inv_open [OF assms]
    by (rule fold_invariant [where Q = "\<lambda>_. True", rotated]) (auto simp: conn_inv_step split: prod.splits)
  then show ?thesis by (simp add: conn_inv_def)
qed

theorem socket_entry_lifetime_witness:
  "case fold (\<lambda>(snaps, arm). socket_step (\<lambda>_. Some Ping) (\<lambda>_. Some ''x'') unary_dec (\<lambda>_. True) snaps arm)
          [((empty_log, empty_log, empty_log), Incoming (WsText ''p'')),
           ((empty_log, empty_log, empty_log), Tick), ((empty_log, empty_log, empty_log), Tick)]
          (socket_open (\<lambda>_. Some ''x'') (\<lambda>_. True) 2 9 ''n'' SubscriberRegistry_new) of
    (c, reg') \<Rightarrow> registry_inv reg' \<and>
      (cn_open c \<longleftrightarrow> (\<exists>s. hget (rg_subscribers reg') (cn_id c) = Some s))"
  by (rule socket_entry_lifetime, rule registry_inv_new) (simp add: SubscriberRegistry_new_def)

end
