(* ===== verification/Backoff.thy ===== *)
theory Backoff
  imports Prelude Complex_Main "HOL-Library.Log_Nat"
begin

text \<open>
  \<^verbatim>\<open>crates/whdr-sub-kit/src/backoff.rs\<close>: the reconnect delays of the client.  The delays are computed in
  \<^verbatim>\<open>f64\<close>, so the theory first gives the IEEE double arithmetic the file uses: a finite double is its
  rational value, every operation rounds the exact result to the nearest double, ties to even.
\<close>

section \<open>Double arithmetic\<close>

text \<open>The sign of a zero is left out: nothing here divides by a zero or looks at its sign.\<close>

datatype f64 = NaN | Infinite (infinite_negative: bool) | Finite (f64_value: rat)

text \<open>The exponent of the binade a number lies in.\<close>

definition f64_exponent :: "rat \<Rightarrow> int" where
  "f64_exponent x =
     (let (p, q) = quotient_of \<bar>x\<bar>; d = bitlen p - bitlen q
      in if power_int 2 d \<le> \<bar>x\<bar> then d else d - 1)"

text \<open>The distance of two neighbouring doubles there; below \<open>2\<close> to the \<open>-1022\<close> it stays the same.\<close>

definition f64_ulp :: "rat \<Rightarrow> rat" where
  "f64_ulp x = power_int 2 (max (f64_exponent x) (- 1022) - 52)"

definition round_ties_even :: "rat \<Rightarrow> int" where
  "round_ties_even y =
     (let n = \<lfloor>y\<rfloor>; rest = y - of_int n
      in if rest < 1 / 2 \<or> (rest = 1 / 2 \<and> even n) then n else n + 1)"

definition f64_rounded :: "rat \<Rightarrow> rat" where
  "f64_rounded x = of_int (round_ties_even (x / f64_ulp x)) * f64_ulp x"

definition f64_of_rat :: "rat \<Rightarrow> f64" where
  "f64_of_rat x =
     (let y = f64_rounded x
      in if 2 ^ 1024 \<le> \<bar>y\<bar> then Infinite (x < 0) else Finite y)"

fun f64_neg :: "f64 \<Rightarrow> f64" where
  "f64_neg NaN = NaN"
| "f64_neg (Infinite s) = Infinite (\<not> s)"
| "f64_neg (Finite x) = Finite (- x)"

fun f64_add :: "f64 \<Rightarrow> f64 \<Rightarrow> f64" where
  "f64_add (Finite x) (Finite y) = f64_of_rat (x + y)"
| "f64_add (Infinite s) (Finite y) = Infinite s"
| "f64_add (Finite x) (Infinite t) = Infinite t"
| "f64_add (Infinite s) (Infinite t) = (if s = t then Infinite s else NaN)"
| "f64_add _ _ = NaN"

definition f64_sub :: "f64 \<Rightarrow> f64 \<Rightarrow> f64" where
  "f64_sub x y = f64_add x (f64_neg y)"

fun f64_mul :: "f64 \<Rightarrow> f64 \<Rightarrow> f64" where
  "f64_mul (Finite x) (Finite y) = f64_of_rat (x * y)"
| "f64_mul (Infinite s) (Finite y) = (if y = 0 then NaN else Infinite (s \<noteq> (y < 0)))"
| "f64_mul (Finite x) (Infinite t) = (if x = 0 then NaN else Infinite ((x < 0) \<noteq> t))"
| "f64_mul (Infinite s) (Infinite t) = Infinite (s \<noteq> t)"
| "f64_mul _ _ = NaN"

text \<open>\<^verbatim>\<open>a <= b\<close>, \<^verbatim>\<open>f64::min\<close> (which ignores a NaN), \<^verbatim>\<open>f64::round\<close> (ties away from zero) and \<^verbatim>\<open>as u64\<close> (which saturates).\<close>

fun f64_le :: "f64 \<Rightarrow> f64 \<Rightarrow> bool" where
  "f64_le (Finite x) (Finite y) = (x \<le> y)"
| "f64_le (Infinite s) (Finite y) = s"
| "f64_le (Finite x) (Infinite t) = (\<not> t)"
| "f64_le (Infinite s) (Infinite t) = (s \<or> \<not> t)"
| "f64_le _ _ = False"

definition f64_min :: "f64 \<Rightarrow> f64 \<Rightarrow> f64" where
  "f64_min x y = (if x = NaN then y else if y = NaN then x else if f64_le x y then x else y)"

definition round_half_away :: "rat \<Rightarrow> int" where
  "round_half_away x = (if x < 0 then - \<lfloor>1 / 2 - x\<rfloor> else \<lfloor>x + 1 / 2\<rfloor>)"

fun f64_round :: "f64 \<Rightarrow> f64" where
  "f64_round (Finite x) = Finite (of_int (round_half_away x))"
| "f64_round x = x"

fun f64_as_u64 :: "f64 \<Rightarrow> u64" where
  "f64_as_u64 NaN = 0"
| "f64_as_u64 (Infinite s) = (if s then 0 else - 1)"
| "f64_as_u64 (Finite x) = (if x < 0 then 0 else if 2 ^ 64 \<le> x then - 1 else of_int \<lfloor>x\<rfloor>)"

section \<open>Durations\<close>

text \<open>
  A \<^verbatim>\<open>Duration\<close> is its number of nanoseconds: the seconds are a \<^verbatim>\<open>u64\<close>.  \<^verbatim>\<open>from_secs_f64\<close> panics on a number
  that is negative, not finite or too large.
\<close>

type_synonym duration = nat

definition from_millis :: "u64 \<Rightarrow> duration" where
  "from_millis ms = unat ms * 10 ^ 6"

definition as_millis :: "duration \<Rightarrow> nat" where
  "as_millis d = d div 10 ^ 6"

definition f64_of_nat :: "nat \<Rightarrow> f64" where
  "f64_of_nat n = f64_of_rat (of_nat n)"

definition as_secs_f64 :: "duration \<Rightarrow> f64" where
  "as_secs_f64 d =
     f64_add (f64_of_nat (d div 10 ^ 9)) (f64_of_rat (of_nat (d mod 10 ^ 9) / 10 ^ 9))"

fun from_secs_f64 :: "f64 \<Rightarrow> duration option" where
  "from_secs_f64 (Finite x) = (if x < 0 \<or> 2 ^ 64 \<le> x then None else Some (nat (round_ties_even (x * 10 ^ 9))))"
| "from_secs_f64 _ = None"

section \<open>The policy\<close>

record backoff_policy =
  bp_initial :: duration
  bp_max :: duration
  bp_multiplier :: f64
  bp_jitter :: f64

definition BackoffPolicy_default :: backoff_policy where
  "BackoffPolicy_default =
     \<lparr>bp_initial = from_millis 500, bp_max = 30 * 10 ^ 9, bp_multiplier = Finite 2,
      bp_jitter = f64_of_rat (2 / 10)\<rparr>"

record backoff =
  bo_policy :: backoff_policy
  bo_attempt :: u32

definition BackoffPolicy_start :: "backoff_policy \<Rightarrow> backoff" where
  "BackoffPolicy_start self = \<lparr>bo_policy = self, bo_attempt = 0\<rparr>"

text \<open>
  The precision of \<^verbatim>\<open>f64::powi\<close> is left open by the standard library, so it is an argument.  The attempt
  number becomes an \<^verbatim>\<open>i32\<close> by reinterpreting its bits.
\<close>

definition base_delay :: "(f64 \<Rightarrow> int \<Rightarrow> f64) \<Rightarrow> backoff_policy \<Rightarrow> u32 \<Rightarrow> duration" where
  "base_delay pow self attempt =
     (let factor = pow (bp_multiplier self) (sint attempt);
          millis = f64_min (f64_mul (f64_mul (as_secs_f64 (bp_initial self)) factor) (Finite 1000))
                     (f64_of_nat (as_millis (bp_max self)))
      in from_millis (f64_as_u64 (f64_round millis)))"

text \<open>\<^verbatim>\<open>saturating_add(1)\<close> on the \<^verbatim>\<open>u32\<close> attempt number.\<close>

definition bump :: "u32 \<Rightarrow> u32" where
  "bump attempt = (if attempt = - 1 then attempt else attempt + 1)"

definition Backoff_reset :: "backoff \<Rightarrow> backoff" where
  "Backoff_reset self = self\<lparr>bo_attempt := 0\<rparr>"

definition apply_jitter :: "duration \<Rightarrow> f64 \<Rightarrow> f64 \<Rightarrow> duration option" where
  "apply_jitter base jitter rand01 =
     (if f64_le jitter (Finite 0) then Some base
      else (let factor = f64_add (f64_sub (Finite 1) jitter) (f64_mul (f64_mul rand01 (Finite 2)) jitter)
            in from_secs_f64 (f64_mul (as_secs_f64 base) factor)))"

text \<open>\<open>None\<close> is the panic of \<^verbatim>\<open>from_secs_f64\<close>; \<open>rand01\<close> is the sample of \<^verbatim>\<open>rand::random\<close>.\<close>

definition next_delay :: "(f64 \<Rightarrow> int \<Rightarrow> f64) \<Rightarrow> f64 \<Rightarrow> backoff \<Rightarrow> (duration \<times> backoff) option" where
  "next_delay pow rand01 self =
     (let base = base_delay pow (bo_policy self) (bo_attempt self);
          self' = self\<lparr>bo_attempt := bump (bo_attempt self)\<rparr>
      in (case apply_jitter base (bp_jitter (bo_policy self)) rand01 of
            None \<Rightarrow> None
          | Some d \<Rightarrow> Some (d, self')))"

section \<open>Rounding\<close>

lemma round_ties_even_error: "\<bar>of_int (round_ties_even y) - y\<bar> \<le> 1 / 2"
proof -
  have "of_int \<lfloor>y\<rfloor> \<le> y" "y < of_int \<lfloor>y\<rfloor> + 1" by linarith+
  then show ?thesis by (auto simp: round_ties_even_def Let_def)
qed

lemma round_ties_even_nonneg: "0 \<le> y \<Longrightarrow> 0 \<le> round_ties_even y"
  by (simp add: round_ties_even_def Let_def)

lemma round_ties_even_int [simp]: "round_ties_even (of_int n) = n"
  by (simp add: round_ties_even_def)

lemma bitlen_power_int:
  assumes "0 < n"
  shows "power_int 2 (bitlen n - 1) \<le> (of_int n :: rat)" and "(of_int n :: rat) < power_int 2 (bitlen n)"
proof -
  have pos: "0 < bitlen n" using assms bitlen_bounds [OF assms] by (cases "bitlen n = 0") (auto simp: bitlen_nonneg less_le)
  have "(of_int (2 ^ nat (bitlen n - 1)) :: rat) \<le> of_int n" "(of_int n :: rat) < of_int (2 ^ nat (bitlen n))"
    using bitlen_bounds [OF assms] by (simp_all only: of_int_le_iff of_int_less_iff)
  with pos show "power_int 2 (bitlen n - 1) \<le> (of_int n :: rat)" "(of_int n :: rat) < power_int 2 (bitlen n)"
    by (simp_all add: power_int_def)
qed

lemma f64_exponent_bounds:
  assumes "0 < x"
  shows "power_int 2 (f64_exponent x) \<le> x \<and> x < power_int 2 (f64_exponent x + 1)"
proof -
  obtain p q where pq: "quotient_of x = (p, q)" by fastforce
  then have q: "0 < q" and x: "x = of_int p / of_int q"
    by (auto intro: quotient_of_denom_pos quotient_of_div)
  with assms have p: "0 < p" by (simp add: zero_less_divide_iff)
  define d where "d = bitlen p - bitlen q"
  have "x < power_int 2 (bitlen p) / power_int 2 (bitlen q - 1)"
    unfolding x using bitlen_power_int [OF p] bitlen_power_int [OF q] p q by (intro frac_less) auto
  then have up: "x < power_int 2 (d + 1)"
    by (simp add: d_def algebra_simps flip: power_int_diff)
  have "power_int 2 (bitlen p - 1) / power_int 2 (bitlen q) \<le> x"
    unfolding x using bitlen_power_int [OF p] bitlen_power_int [OF q] p q by (intro frac_le) auto
  then have low: "power_int 2 (d - 1) \<le> x"
    by (simp add: d_def algebra_simps flip: power_int_diff)
  show ?thesis using up low assms by (auto simp: f64_exponent_def pq d_def Let_def)
qed

lemma f64_rounded_error: "\<bar>f64_rounded x - x\<bar> \<le> f64_ulp x / 2"
proof -
  have u: "0 < f64_ulp x" by (simp add: f64_ulp_def)
  have "f64_rounded x - x = (of_int (round_ties_even (x / f64_ulp x)) - x / f64_ulp x) * f64_ulp x"
    using u by (simp add: f64_rounded_def algebra_simps)
  then have "\<bar>f64_rounded x - x\<bar> = \<bar>of_int (round_ties_even (x / f64_ulp x)) - x / f64_ulp x\<bar> * f64_ulp x"
    using u by (simp add: abs_mult)
  also have "\<dots> \<le> 1 / 2 * f64_ulp x"
    using round_ties_even_error [of "x / f64_ulp x"] u by (intro mult_right_mono) auto
  finally show ?thesis by simp
qed

definition half_ulp :: rat where "half_ulp = 1 / 2 ^ 53"

lemma f64_ulp_le:
  assumes "0 < x"
  shows "f64_ulp x / 2 \<le> max x (power_int 2 (- 1022)) * half_ulp"
proof -
  have "power_int 2 (max (f64_exponent x) (- 1022)) \<le> max x (power_int 2 (- 1022))"
    using f64_exponent_bounds [OF assms] by (auto simp: max_def)
  then have "power_int 2 (max (f64_exponent x) (- 1022)) * half_ulp \<le> max x (power_int 2 (- 1022)) * half_ulp"
    by (intro mult_right_mono) (auto simp: half_ulp_def)
  moreover have "f64_ulp x = power_int 2 (max (f64_exponent x) (- 1022)) / power_int 2 52"
    unfolding f64_ulp_def by (rule power_int_diff) simp
  ultimately show ?thesis by (simp add: half_ulp_def)
qed

lemma f64_rounded_nonneg: "0 \<le> x \<Longrightarrow> 0 \<le> f64_rounded x"
  by (simp add: f64_rounded_def round_ties_even_nonneg f64_ulp_def)

text \<open>The error of one operation whose exact result is at most \<open>M\<close>.\<close>

lemma f64_of_rat_near:
  assumes "0 \<le> x" and "x \<le> M" and "1 \<le> M" and "M \<le> 2 ^ 1000"
  obtains y where "f64_of_rat x = Finite y" and "0 \<le> y" and "\<bar>y - x\<bar> \<le> M * half_ulp"
proof -
  have near: "\<bar>f64_rounded x - x\<bar> \<le> M * half_ulp"
  proof (cases "x = 0")
    case True
    then show ?thesis using assms(3) by (simp add: f64_rounded_def half_ulp_def round_ties_even_def)
  next
    case False
    with assms have "f64_ulp x / 2 \<le> max x (power_int 2 (- 1022)) * half_ulp" by (intro f64_ulp_le) simp
    also have "\<dots> \<le> M * half_ulp"
    proof (rule mult_right_mono)
      have "power_int 2 (- 1022) \<le> (1 :: rat)" by (simp add: power_int_minus)
      with assms show "max x (power_int 2 (- 1022)) \<le> M" by simp
    qed (simp add: half_ulp_def)
    finally show ?thesis using f64_rounded_error [of x] by simp
  qed
  have "M * half_ulp \<le> 2 ^ 1000 * half_ulp" using assms(4) by (intro mult_right_mono) (auto simp: half_ulp_def)
  then have "f64_rounded x \<le> 2 ^ 1000 + 2 ^ 1000 * half_ulp" using near assms(2,4) by linarith
  also have "\<dots> < 2 ^ 1024" by (simp add: half_ulp_def)
  finally show thesis
    using near f64_rounded_nonneg [OF assms(1)] by (intro that [of "f64_rounded x"]) (simp_all add: f64_of_rat_def)
qed

lemma mult_near:
  fixes a b c d :: rat
  assumes "\<bar>a - b\<bar> \<le> e" and "\<bar>c - d\<bar> \<le> f" and "\<bar>a\<bar> \<le> A" and "\<bar>d\<bar> \<le> D"
  shows "\<bar>a * c - b * d\<bar> \<le> A * f + e * D"
proof -
  have "a * c - b * d = a * (c - d) + (a - b) * d" by (simp add: algebra_simps)
  then have "\<bar>a * c - b * d\<bar> \<le> \<bar>a\<bar> * \<bar>c - d\<bar> + \<bar>a - b\<bar> * \<bar>d\<bar>"
    by (metis abs_mult abs_triangle_ineq)
  also have "\<dots> \<le> A * f + e * D" using assms by (intro add_mono mult_mono) auto
  finally show ?thesis .
qed

lemma half_ulp_bounds: "0 < half_ulp" "half_ulp < 12 / 100000000000000000"
  by (simp_all add: half_ulp_def)

text \<open>A day is \<open>8.64 * 10^13\<close> nanoseconds.\<close>

lemma as_secs_f64_near:
  assumes "d \<le> 10 ^ 14"
  obtains x where "as_secs_f64 d = Finite x" and "0 \<le> x" and "\<bar>x - of_nat d / 10 ^ 9\<bar> \<le> 500000 * half_ulp"
proof -
  define s n where "s = d div 10 ^ 9" and "n = d mod 10 ^ 9"
  have "s \<le> 10 ^ 14 div 10 ^ 9" unfolding s_def using assms by (rule div_le_mono)
  then have s: "(of_nat s :: rat) \<le> 100000" using of_nat_le_iff [of s 100000, where 'a = rat] by simp
  have "n < 10 ^ 9" by (simp add: n_def)
  then have n: "(of_nat n :: rat) \<le> 10 ^ 9" using of_nat_le_iff [of n "10 ^ 9", where 'a = rat] by simp
  have d: "(of_nat d :: rat) / 10 ^ 9 = of_nat s + of_nat n / 10 ^ 9"
  proof -
    have "d = s * 10 ^ 9 + n" by (simp add: s_def n_def)
    then have "(of_nat d :: rat) = of_nat s * 10 ^ 9 + of_nat n"
      by (simp only: of_nat_add of_nat_mult of_nat_power of_nat_numeral)
    then show ?thesis by simp
  qed
  obtain a where a: "f64_of_rat (of_nat s) = Finite a" "0 \<le> a" "\<bar>a - of_nat s\<bar> \<le> 100000 * half_ulp"
    by (rule f64_of_rat_near [of "of_nat s" 100000]) (use s in auto)
  obtain b where b: "f64_of_rat (of_nat n / 10 ^ 9) = Finite b" "0 \<le> b" "\<bar>b - of_nat n / 10 ^ 9\<bar> \<le> 1 * half_ulp"
    by (rule f64_of_rat_near [of "of_nat n / 10 ^ 9" 1]) (use n in \<open>auto simp: divide_simps\<close>)
  have le: "a + b \<le> 200000" using a b s n half_ulp_bounds by simp
  obtain x where x: "f64_of_rat (a + b) = Finite x" "0 \<le> x" "\<bar>x - (a + b)\<bar> \<le> 200000 * half_ulp"
    by (rule f64_of_rat_near [of "a + b" 200000]) (use a b le in auto)
  have "as_secs_f64 d = Finite x"
    unfolding as_secs_f64_def f64_of_nat_def s_def [symmetric] n_def [symmetric] using a(1) b(1) x(1) by simp
  moreover have "\<bar>x - of_nat d / 10 ^ 9\<bar> \<le> 500000 * half_ulp"
    unfolding d using a(3) b(3) x(3) half_ulp_bounds by linarith
  ultimately show thesis using x(2) that by blast
qed

text \<open>What the jitter multiplies by, up to the rounding of its four operations.\<close>

lemma jitter_factor_near:
  assumes j: "0 \<le> j" "j < 1" and r: "0 \<le> r" "r < 1"
  obtains f where "f64_add (f64_sub (Finite 1) (Finite j)) (f64_mul (f64_mul (Finite r) (Finite 2)) (Finite j)) = Finite f"
    and "0 \<le> f" and "\<bar>f - (1 - j + 2 * r * j)\<bar> \<le> 10 * half_ulp"
proof -
  obtain a where a: "f64_of_rat (1 - j) = Finite a" "0 \<le> a" "\<bar>a - (1 - j)\<bar> \<le> 1 * half_ulp"
    by (rule f64_of_rat_near [of "1 - j" 1]) (use j in auto)
  obtain p where p: "f64_of_rat (r * 2) = Finite p" "0 \<le> p" "\<bar>p - r * 2\<bar> \<le> 2 * half_ulp"
    by (rule f64_of_rat_near [of "r * 2" 2]) (use r in auto)
  have pj: "\<bar>p * j - (r * 2) * j\<bar> \<le> 3 * 0 + 2 * half_ulp * 1"
    by (rule mult_near) (use p r j half_ulp_bounds in auto)
  have rj: "r * 2 * j \<le> 2 * j" using mult_right_mono [of "r * 2" 2 j] j r by simp
  then have pj3: "p * j \<le> 3" using pj j half_ulp_bounds by linarith
  obtain q where q: "f64_of_rat (p * j) = Finite q" "0 \<le> q" "\<bar>q - p * j\<bar> \<le> 3 * half_ulp"
    by (rule f64_of_rat_near [of "p * j" 3]) (use p j pj3 in auto)
  have aq: "a + q \<le> 4" using a q pj rj j half_ulp_bounds by linarith
  obtain f where f: "f64_of_rat (a + q) = Finite f" "0 \<le> f" "\<bar>f - (a + q)\<bar> \<le> 4 * half_ulp"
    by (rule f64_of_rat_near [of "a + q" 4]) (use a q aq in auto)
  show thesis
  proof (rule that)
    show "f64_add (f64_sub (Finite 1) (Finite j)) (f64_mul (f64_mul (Finite r) (Finite 2)) (Finite j)) = Finite f"
      using a(1) p(1) q(1) f(1) by (simp add: f64_sub_def)
    have "2 * r * j = r * 2 * j" by simp
    then show "\<bar>f - (1 - j + 2 * r * j)\<bar> \<le> 10 * half_ulp" using a(3) pj q(3) f(3) by linarith
  qed (rule f(2))
qed

text \<open>
  The jittered delay is the exact product within a nanosecond, for delays up to a day.
\<close>

lemma apply_jitter_near:
  assumes base: "base \<le> 10 ^ 14" and j: "0 \<le> j" "j < 1" and r: "0 \<le> r" "r < 1"
  obtains d where "apply_jitter base (Finite j) (Finite r) = Some d"
    and "\<bar>of_nat d - of_nat base * (1 - j + 2 * r * j)\<bar> \<le> 1"
proof (cases "j = 0")
  case True
  then show ?thesis by (intro that [of base]) (simp_all add: apply_jitter_def)
next
  case False
  let ?F = "1 - j + 2 * r * j"
  obtain b where b: "as_secs_f64 base = Finite b" "0 \<le> b" "\<bar>b - of_nat base / 10 ^ 9\<bar> \<le> 500000 * half_ulp"
    by (rule as_secs_f64_near [OF base])
  obtain f where f: "f64_add (f64_sub (Finite 1) (Finite j)) (f64_mul (f64_mul (Finite r) (Finite 2)) (Finite j)) = Finite f"
    "0 \<le> f" "\<bar>f - ?F\<bar> \<le> 10 * half_ulp"
    by (rule jitter_factor_near [OF j r])
  have "(of_nat base :: rat) \<le> of_nat (10 ^ 14)" using base by (simp only: of_nat_le_iff)
  then have "of_nat base / (10 ^ 9 :: rat) \<le> 100000" by simp
  then have b1: "b \<le> 100001" using b(3) half_ulp_bounds by linarith
  have "0 \<le> 2 * r * j" "2 * r * j \<le> 2 * j" using mult_right_mono [of "r * 2" 2 j] j r by (simp_all add: mult.commute)
  then have F: "0 \<le> ?F" "?F \<le> 2" using j by linarith+
  have bf: "\<bar>b * f - of_nat base / 10 ^ 9 * ?F\<bar> \<le> 100001 * (10 * half_ulp) + 500000 * half_ulp * 2"
    by (rule mult_near) (use b b1 f F in auto)
  have "f \<le> 3" using f(3) F half_ulp_bounds by linarith
  then have "b * f \<le> 100001 * 3" using b b1 f(2) by (intro mult_mono) auto
  then obtain v where v: "f64_of_rat (b * f) = Finite v" "0 \<le> v" "\<bar>v - b * f\<bar> \<le> 300003 * half_ulp"
    using f64_of_rat_near [of "b * f" 300003] b(2) f(2) by auto
  define d where "d = round_ties_even (v * 10 ^ 9)"
  have d: "0 \<le> d" "\<bar>of_int d - v * 10 ^ 9\<bar> \<le> 1 / 2"
    unfolding d_def using v(2) round_ties_even_nonneg [of "v * 10 ^ 9"] round_ties_even_error [of "v * 10 ^ 9"] by simp_all
  have "v \<le> 300004" using v(3) \<open>b * f \<le> 100001 * 3\<close> half_ulp_bounds by linarith
  then have "from_secs_f64 (Finite v) = Some (nat d)" using v(2) by (simp add: d_def)
  then have some: "apply_jitter base (Finite j) (Finite r) = Some (nat d)"
    unfolding apply_jitter_def f(1) b(1) Let_def using False j(1) v(1) by (simp del: from_secs_f64.simps)
  have "\<bar>v - of_nat base / 10 ^ 9 * ?F\<bar> \<le> 3000000 * half_ulp"
    using v(3) bf half_ulp_bounds by linarith
  then have "\<bar>v * 10 ^ 9 - of_nat base * ?F\<bar> \<le> 10 ^ 9 * (3000000 * half_ulp)"
    by (simp add: field_simps abs_le_iff)
  then have "\<bar>v * 1000000000 - of_nat base * ?F\<bar> \<le> 3000000000000000 * half_ulp"
    and "\<bar>of_int d - v * 1000000000\<bar> \<le> 1 / 2" using d(2) by simp_all
  then have "\<bar>of_int d - of_nat base * ?F\<bar> \<le> 1" using half_ulp_bounds by linarith
  then show thesis using that [OF some] d(1) by simp
qed

lemma f64_rounded_exact:
  assumes "x = of_int m * power_int 2 k" and "0 < m" and "m < 2 ^ 53" and "- 1074 \<le> k"
  shows "f64_rounded x = x"
proof -
  define j where "j = max (f64_exponent x) (- 1022) - 52"
  have "(of_int m :: rat) < of_int (2 ^ 53)" using assms(3) by (simp only: of_int_less_iff)
  then have "x < power_int 2 (53 + k)" unfolding assms(1) by (simp add: power_int_add)
  moreover have "0 < x" using assms(1,2) by simp
  ultimately have "power_int 2 (f64_exponent x) < (power_int 2 (53 + k) :: rat)"
    using f64_exponent_bounds [of x] by linarith
  then have "f64_exponent x < 53 + k" using power_int_increasing [of "53 + k" "f64_exponent x" "2 :: rat"] by force
  with assms(4) have "j \<le> k" by (simp add: j_def)
  then have "power_int 2 (k - j) = (of_int (2 ^ nat (k - j)) :: rat)" by (simp add: power_int_def)
  moreover have "x / f64_ulp x = of_int m * power_int 2 (k - j)"
    unfolding f64_ulp_def j_def [symmetric] by (simp add: power_int_diff) (simp add: assms(1))
  ultimately have "x / f64_ulp x = of_int (m * 2 ^ nat (k - j))" by simp
  then have "f64_rounded x = x / f64_ulp x * f64_ulp x"
    unfolding f64_rounded_def by (simp only: round_ties_even_int)
  then show ?thesis by (simp add: f64_ulp_def)
qed

lemma f64_of_rat_exact:
  assumes "x = of_int m * power_int 2 k" and "0 < m" and "m < 2 ^ 53" and "- 1074 \<le> k" and "k \<le> 971"
  shows "f64_of_rat x = Finite x"
proof -
  have "(of_int m :: rat) < of_int (2 ^ 53)" using assms(3) by (simp only: of_int_less_iff)
  then have "x < 2 ^ 53 * power_int 2 k" unfolding assms(1) by simp
  also have "\<dots> \<le> 2 ^ 53 * power_int 2 971" using assms(5) by (intro mult_left_mono power_int_increasing) auto
  finally have "x < 2 ^ 1024" by (simp add: power_int_def)
  moreover have "0 < x" using assms(1,2) by simp
  ultimately show ?thesis using f64_rounded_exact [OF assms(1-4)] by (simp add: f64_of_rat_def)
qed

lemma f64_of_nat_exact: "n < 2 ^ 53 \<Longrightarrow> f64_of_nat n = Finite (of_nat n)"
proof (cases "n = 0")
  case True
  then show ?thesis by (simp add: f64_of_nat_def f64_of_rat_def f64_rounded_def round_ties_even_def)
next
  case False
  assume "n < 2 ^ 53"
  then have "int n < 2 ^ 53" by simp
  with False show ?thesis
    unfolding f64_of_nat_def by (intro f64_of_rat_exact [of _ "int n" 0]) auto
qed

lemma as_u64_round_le:
  assumes "0 \<le> n" and "n < 2 ^ 64" and "x = Infinite True \<or> (\<exists>y. x = Finite y \<and> y \<le> of_int n)"
  shows "int (unat (f64_as_u64 (f64_round x))) \<le> n"
proof (cases "x = Infinite True")
  case False
  then obtain y where y: "x = Finite y" "y \<le> of_int n" using assms(3) by blast
  define i where "i = round_half_away y"
  have "y < 0 \<Longrightarrow> i \<le> 0" by (simp add: i_def round_half_away_def)
  moreover have "i \<le> n" if "0 \<le> y" using y(2) that by (simp add: i_def round_half_away_def floor_le_iff)
  ultimately have i: "i \<le> n" using assms(1) by linarith
  have "i < 2 ^ 64" using i assms(2) by simp
  then have "(of_int i :: rat) < of_int (2 ^ 64)" by (simp only: of_int_less_iff)
  then have "\<not> 2 ^ 64 \<le> (of_int i :: rat)" by simp
  then show ?thesis
    using i \<open>i < 2 ^ 64\<close> assms(1) by (auto simp: y(1) uint_word_of_int take_bit_int_eq_self_iff not_less simp flip: i_def)
qed (use assms(1) in simp)

text \<open>Whatever the multiplier and however the power is computed, the base delay stays below the cap.\<close>

lemma base_delay_capped:
  assumes "as_millis (bp_max p) < 2 ^ 53"
  shows "base_delay pow p a \<le> bp_max p"
proof -
  define n where "n = as_millis (bp_max p)"
  define x where "x = f64_mul (f64_mul (as_secs_f64 (bp_initial p)) (pow (bp_multiplier p) (sint a))) (Finite 1000)"
  have "f64_min x (Finite (of_nat n)) = Infinite True \<or>
      (\<exists>y. f64_min x (Finite (of_nat n)) = Finite y \<and> y \<le> of_int (int n))"
    by (cases x) (auto simp: f64_min_def)
  then have "int (unat (f64_as_u64 (f64_round (f64_min x (Finite (of_nat n)))))) \<le> int n"
    using assms by (intro as_u64_round_le) (auto simp: n_def)
  then have "unat (f64_as_u64 (f64_round (f64_min x (f64_of_nat n)))) \<le> n"
    unfolding f64_of_nat_exact [OF assms, folded n_def] by (simp only: of_nat_le_iff)
  then have "base_delay pow p a \<le> n * 10 ^ 6"
    by (simp add: base_delay_def Let_def from_millis_def flip: n_def x_def)
  also have "\<dots> \<le> bp_max p" by (simp add: n_def as_millis_def)
  finally show ?thesis .
qed

section \<open>The default policy\<close>

text \<open>What the default policy needs of \<^verbatim>\<open>powi\<close>: powers of two are exact, or infinite when too large.\<close>

definition powi_exact :: "(f64 \<Rightarrow> int \<Rightarrow> f64) \<Rightarrow> bool" where
  "powi_exact pow \<longleftrightarrow> (\<forall>n. pow (Finite 2) (int n) = f64_of_rat (2 ^ n))"

lemma sint_attempt: "unat (a :: u32) < 2 ^ 31 \<Longrightarrow> sint a = int (unat a)"
proof -
  assume "unat a < 2 ^ 31"
  then have "int (unat a) < int (2 ^ 31)" by (simp only: of_nat_less_iff)
  then have "uint a < 2 ^ 31" by simp
  moreover have "sint a = signed_take_bit 31 (uint a)" by (simp add: sint_uint)
  moreover have "- (2 ^ 31) \<le> uint a" by (rule order_trans [of _ 0]) simp_all
  ultimately show ?thesis using signed_take_bit_int_eq_self [of 31 "uint a"] by simp
qed

lemma f64_of_rat_large:
  assumes "1 \<le> x"
  shows "f64_of_rat x = Infinite False \<or> (\<exists>y. f64_of_rat x = Finite y \<and> x / 2 \<le> y)"
proof -
  have "power_int 2 (- 1022) \<le> (1 :: rat)" by (simp add: power_int_minus)
  with assms f64_ulp_le [of x] have "f64_ulp x / 2 \<le> x * half_ulp" by (simp add: max_def split: if_splits)
  moreover have "x * half_ulp \<le> x / 2" using assms by (simp add: half_ulp_def)
  ultimately have "x / 2 \<le> f64_rounded x" using f64_rounded_error [of x] by linarith
  with assms show ?thesis by (auto simp: f64_of_rat_def Let_def)
qed

definition reaches_cap :: "rat \<Rightarrow> f64 \<Rightarrow> bool" where
  "reaches_cap c x \<longleftrightarrow> x = Infinite False \<or> (\<exists>y. x = Finite y \<and> c \<le> y)"

lemma reaches_cap_mul:
  assumes "reaches_cap c x" and "1 \<le> c * k" and "0 < k"
  shows "reaches_cap (c * k / 2) (f64_mul x (Finite k))" and "reaches_cap (c * k / 2) (f64_mul (Finite k) x)"
proof -
  have "reaches_cap (c * k / 2) (f64_of_rat (y * k))" if "c \<le> y" for y
  proof -
    have le: "c * k \<le> y * k" using that assms(3) by simp
    then have "1 \<le> y * k" using assms(2) by linarith
    from f64_of_rat_large [OF this] show ?thesis
    proof (elim disjE exE conjE)
      fix z assume "f64_of_rat (y * k) = Finite z" "y * k / 2 \<le> z"
      with le show ?thesis by (auto simp: reaches_cap_def)
    qed (simp add: reaches_cap_def)
  qed
  note mul = this
  from assms(1) consider "x = Infinite False" | y where "x = Finite y" "c \<le> y"
    by (auto simp: reaches_cap_def)
  then have "reaches_cap (c * k / 2) (f64_mul x (Finite k)) \<and> reaches_cap (c * k / 2) (f64_mul (Finite k) x)"
  proof cases
    case 1
    with assms(3) show ?thesis by (simp add: reaches_cap_def)
  qed (simp add: mul mult.commute)
  then show "reaches_cap (c * k / 2) (f64_mul x (Finite k))" "reaches_cap (c * k / 2) (f64_mul (Finite k) x)" by simp_all
qed

lemma default_product:
  "f64_min (f64_mul (f64_mul (Finite (1 / 2)) (f64_of_rat (2 ^ n))) (Finite 1000)) (Finite 30000) =
     Finite (of_nat (min (500 * 2 ^ n) 30000))"
proof (cases "n \<le> 971")
  case True
  have "f64_of_rat (2 ^ n) = Finite (2 ^ n)"
    by (rule f64_of_rat_exact [of _ 1 "int n"]) (use True in auto)
  moreover have "f64_of_rat (1 / 2 * 2 ^ n) = Finite (1 / 2 * 2 ^ n)"
    by (rule f64_of_rat_exact [of _ 1 "int n - 1"]) (use True in \<open>auto simp: power_int_diff\<close>)
  moreover have "f64_of_rat (1 / 2 * 2 ^ n * 1000) = Finite (500 * 2 ^ n)"
    using f64_of_rat_exact [of "500 * 2 ^ n" 1000 "int n - 1"] True by (simp add: power_int_diff)
  ultimately show ?thesis by (auto simp: f64_min_def min_def simp flip: of_nat_le_iff [where 'a = rat])
next
  case False
  then have "(2 :: rat) ^ 20 \<le> 2 ^ n" by (intro power_increasing) auto
  then have big: "(2 :: rat) ^ 19 \<le> 2 ^ n / 2" by simp
  have "reaches_cap (2 ^ 19) (f64_of_rat (2 ^ n))"
    using f64_of_rat_large [of "2 ^ n"] big by (auto simp: reaches_cap_def)
  from reaches_cap_mul(2) [OF this, of "1 / 2"]
  have "reaches_cap (2 ^ 17) (f64_mul (Finite (1 / 2)) (f64_of_rat (2 ^ n)))" by simp
  from reaches_cap_mul(1) [OF this, of 1000]
  have "reaches_cap 30000 (f64_mul (f64_mul (Finite (1 / 2)) (f64_of_rat (2 ^ n))) (Finite 1000))"
    by (auto simp: reaches_cap_def)
  moreover have "(2 :: nat) ^ 20 \<le> 2 ^ n" using False by (intro power_increasing) auto
  ultimately show ?thesis by (auto simp: f64_min_def reaches_cap_def)
qed

lemma round_half_away_of_nat: "round_half_away (of_nat n) = int n"
  by (simp add: round_half_away_def floor_eq_iff)

lemma default_base_delay:
  assumes "powi_exact pow" and "unat a < 2 ^ 31"
  shows "base_delay pow BackoffPolicy_default a = min (500 * 2 ^ unat a) 30000 * 10 ^ 6"
proof -
  have "f64_of_rat (1 / 2) = Finite (1 / 2)"
    by (rule f64_of_rat_exact [of _ 1 "- 1"]) (auto simp: power_int_minus)
  then have half: "as_secs_f64 (from_millis 500) = Finite (1 / 2)"
    using f64_of_nat_exact [of 0] by (simp add: as_secs_f64_def from_millis_def)
  define n :: nat where "n = min (500 * 2 ^ unat a) 30000"
  have cap: "f64_of_nat (as_millis (30 * 10 ^ 9)) = Finite 30000"
    using f64_of_nat_exact [of 30000] by (simp add: as_millis_def)
  have "n \<le> 30000" by (simp add: n_def)
  then have "f64_as_u64 (f64_round (Finite (of_nat n))) = of_nat n" and "unat (of_nat n :: u64) = n"
    using of_nat_le_iff [of n 30000, where 'a = rat]
    by (simp_all add: round_half_away_of_nat unat_of_nat)
  moreover have "pow (Finite 2) (sint a) = f64_of_rat (2 ^ unat a)"
    unfolding sint_attempt [OF assms(2)] using assms(1) by (simp only: powi_exact_def)
  ultimately show ?thesis
    unfolding base_delay_def BackoffPolicy_default_def backoff_policy.select_convs Let_def half cap n_def [symmetric]
      from_millis_def [of "f64_as_u64 _"]
    by (simp only: default_product n_def [symmetric])
qed

text \<open>
  The jitter of the default policy is the double nearest to a fifth.
\<close>

lemma default_jitter:
  obtains j where "bp_jitter BackoffPolicy_default = Finite j" and "0 \<le> j" and "j < 1" and "\<bar>j - 1 / 5\<bar> \<le> half_ulp"
proof (rule f64_of_rat_near [of "2 / 10" 1])
  fix y assume "f64_of_rat (2 / 10) = Finite y" "0 \<le> y" "\<bar>y - 2 / 10\<bar> \<le> 1 * half_ulp"
  with half_ulp_bounds show thesis by (intro that [of y]) (auto simp: BackoffPolicy_default_def abs_le_iff)
qed auto

text \<open>A delay of the default policy: at most six fifths of the cap, within two nanoseconds.\<close>

lemma default_delay_bound:
  assumes j: "bp_jitter BackoffPolicy_default = Finite j" and r: "0 \<le> r" "r < 1"
    and base: "base \<le> bp_max BackoffPolicy_default" and d: "\<bar>of_nat d - of_nat base * (1 - j + 2 * r * j)\<bar> \<le> 1"
  shows "d \<le> 36000000002"
proof -
  obtain j' where "bp_jitter BackoffPolicy_default = Finite j'" "0 \<le> j'" "j' < 1" "\<bar>j' - 1 / 5\<bar> \<le> half_ulp"
    by (rule default_jitter)
  then have j': "0 \<le> j" "j \<le> 1 / 5 + half_ulp" using j by (auto simp: abs_le_iff)
  let ?B = "of_nat base :: rat" and ?d = "of_nat d :: rat" and ?F = "1 - j + 2 * r * j"
  have B: "0 \<le> ?B" "?B \<le> 30000000000"
    using base of_nat_le_iff [of base 30000000000, where 'a = rat] by (simp_all add: BackoffPolicy_default_def)
  have "2 * r * j \<le> 2 * j" using mult_right_mono [of "r * 2" 2 j] j'(1) r by (simp add: mult.commute)
  then have F: "?F \<le> 6 / 5 + half_ulp" using j'(2) by linarith
  have "?B * ?F \<le> ?B * (6 / 5 + half_ulp)" using F B(1) by (rule mult_left_mono)
  also have "\<dots> \<le> 30000000000 * (6 / 5 + half_ulp)" using B half_ulp_bounds by (intro mult_right_mono) auto
  finally have "?d \<le> 36000000002" using d half_ulp_bounds by (simp add: abs_le_iff)
  then show ?thesis using of_nat_le_iff [of d 36000000002, where 'a = rat] by simp
qed

text \<open>
  After \<open>2\<close> to the 31 failures in a row the attempt number is a negative \<^verbatim>\<open>i32\<close>: the power underflows and
  the client reconnects without waiting.
\<close>

lemma attempt_cast_wraps:
  assumes "pow (Finite 2) (- (2 ^ 31)) = Finite 0"
  shows "base_delay pow BackoffPolicy_default (2 ^ 31) = 0"
proof -
  have "sint (2 ^ 31 :: u32) = - (2 ^ 31)" by code_simp
  moreover have "f64_of_rat 0 = Finite 0" using f64_of_nat_exact [of 0] by (simp add: f64_of_nat_def)
  moreover have "f64_of_nat (as_millis (30 * 10 ^ 9)) = Finite 30000"
    using f64_of_nat_exact [of 30000] by (simp add: as_millis_def)
  moreover obtain x where "as_secs_f64 (from_millis 500) = Finite x"
    by (rule as_secs_f64_near [of "from_millis 500"]) (auto simp: from_millis_def)
  ultimately show ?thesis
    using assms round_half_away_of_nat [of 0]
    by (simp add: base_delay_def BackoffPolicy_default_def f64_min_def from_millis_def [of 0])
qed

lemma next_delay_jittered:
  assumes "bp_max (bo_policy b) \<le> 10 ^ 14" and "bp_jitter (bo_policy b) = Finite j" and "0 \<le> j" and "j < 1"
    and "0 \<le> r" and "r < 1"
  obtains d where "next_delay pow (Finite r) b = Some (d, b\<lparr>bo_attempt := bump (bo_attempt b)\<rparr>)"
    "base_delay pow (bo_policy b) (bo_attempt b) \<le> bp_max (bo_policy b)"
    "\<bar>of_nat d - of_nat (base_delay pow (bo_policy b) (bo_attempt b)) * (1 - j + 2 * r * j)\<bar> \<le> 1"
proof -
  have "as_millis (bp_max (bo_policy b)) \<le> 10 ^ 14" unfolding as_millis_def using assms(1) div_le_dividend order_trans by blast
  then have "as_millis (bp_max (bo_policy b)) < 2 ^ 53" by simp
  from base_delay_capped [OF this] have cap: "base_delay pow (bo_policy b) (bo_attempt b) \<le> bp_max (bo_policy b)" .
  obtain d where "apply_jitter (base_delay pow (bo_policy b) (bo_attempt b)) (Finite j) (Finite r) = Some d"
    "\<bar>of_nat d - of_nat (base_delay pow (bo_policy b) (bo_attempt b)) * (1 - j + 2 * r * j)\<bar> \<le> 1"
    by (rule apply_jitter_near [OF order_trans [OF cap assms(1)] assms(3-6)])
  with cap that show thesis by (simp add: next_delay_def Let_def assms(2))
qed

section \<open>Properties\<close>

text \<open>
  C24: the delay before a reconnect, for every policy whose cap is at most a day and whose jitter lies in
  the documented range: it never panics, the base never exceeds the cap, and the delay is the
  base times \<open>1 - jitter + 2 * jitter * sample\<close>, within a nanosecond, whatever the rounding of
  the floating-point operations.
\<close>

theorem next_delay_within_jitter:
  assumes "bp_max (bo_policy b) \<le> 10 ^ 14" and "bp_jitter (bo_policy b) = Finite j" and "0 \<le> j" and "j < 1"
    and "0 \<le> r" and "r < 1"
  shows "\<exists>d. next_delay pow (Finite r) b = Some (d, b\<lparr>bo_attempt := bump (bo_attempt b)\<rparr>) \<and>
    (let base = base_delay pow (bo_policy b) (bo_attempt b)
     in base \<le> bp_max (bo_policy b) \<and> \<bar>of_nat d - of_nat base * (1 - j + 2 * r * j)\<bar> \<le> 1)"
  unfolding Let_def by (rule next_delay_jittered [OF assms, of pow]) blast

theorem next_delay_within_jitter_witness:
  "\<exists>d. next_delay (\<lambda>_ _. NaN) (Finite (1 / 4)) \<lparr>bo_policy = BackoffPolicy_default\<lparr>bp_jitter := Finite (1 / 2)\<rparr>, bo_attempt = 3\<rparr> =
     Some (d, \<lparr>bo_policy = BackoffPolicy_default\<lparr>bp_jitter := Finite (1 / 2)\<rparr>, bo_attempt = bump 3\<rparr>) \<and> d \<le> 22500000001"
proof -
  let ?b = "\<lparr>bo_policy = BackoffPolicy_default\<lparr>bp_jitter := Finite (1 / 2)\<rparr>, bo_attempt = 3\<rparr>"
  let ?base = "base_delay (\<lambda>_ _. NaN) (bo_policy ?b) (bo_attempt ?b)"
  have max: "bp_max (bo_policy ?b) \<le> 10 ^ 14" "bp_max (bo_policy ?b) = 30000000000" by (simp_all add: BackoffPolicy_default_def)
  obtain d where d: "next_delay (\<lambda>_ _. NaN) (Finite (1 / 4)) ?b = Some (d, ?b\<lparr>bo_attempt := bump (bo_attempt ?b)\<rparr>)"
    "?base \<le> bp_max (bo_policy ?b)" "\<bar>of_nat d - of_nat ?base * (1 - 1 / 2 + 2 * (1 / 4) * (1 / 2))\<bar> \<le> (1 :: rat)"
    using next_delay_within_jitter [OF max(1), of "1 / 2" "1 / 4" "\<lambda>_ _. NaN"] by (auto simp: Let_def)
  have "(of_nat ?base :: rat) \<le> 30000000000" using d(2) max(2) of_nat_le_iff [of ?base 30000000000, where 'a = rat] by simp
  then have "(of_nat d :: rat) \<le> of_nat 22500000001" using d(3) by (simp add: abs_le_iff)
  then have "d \<le> 22500000001" by (simp only: of_nat_le_iff)
  with d(1) show ?thesis by auto
qed

end
