(* ===== verification/Sub_Kit.thy ===== *)
theory Sub_Kit
  imports Subscriber_Ws Backoff
begin

text \<open>
  \<^verbatim>\<open>crates/whdr-sub-kit/src\<close>: the client library.  A connection attempt is what
  \<^verbatim>\<open>connect_async\<close> yields, with the messages the stream then delivers; \<open>send_ok\<close> says, from what
  was sent so far, whether the next send succeeds.  The application's handler is an argument
  that answers each call from the history of calls, so it may keep any state; the cursor
  store is an argument too, with the library's in-memory store as the instance.
\<close>

section \<open>Dedup and cursor: \<^verbatim>\<open>resume.rs\<close>\<close>

record resume_state =
  rs_cursor :: u64
  rs_seen :: "uuid set"
  rs_order :: "uuid list"
  rs_capacity :: nat

definition ResumeState_new :: "u64 \<Rightarrow> nat \<Rightarrow> resume_state" where
  "ResumeState_new cursor capacity =
     \<lparr>rs_cursor = cursor, rs_seen = {}, rs_order = [], rs_capacity = max capacity 1\<rparr>"

definition should_process :: "uuid \<Rightarrow> u64 \<Rightarrow> resume_state \<Rightarrow> bool" where
  "should_process eid seq self \<longleftrightarrow> seq > rs_cursor self \<and> eid \<notin> rs_seen self"

definition remember :: "uuid \<Rightarrow> resume_state \<Rightarrow> resume_state" where
  "remember eid self =
     (if eid \<in> rs_seen self then self
      else (let seen = insert eid (rs_seen self); order = rs_order self @ [eid]
            in if length order > rs_capacity self
               then self\<lparr>rs_seen := seen - {hd order}, rs_order := tl order\<rparr>
               else self\<lparr>rs_seen := seen, rs_order := order\<rparr>))"

definition record_event :: "uuid \<Rightarrow> u64 \<Rightarrow> resume_state \<Rightarrow> resume_state" where
  "record_event eid seq self =
     (let self' = remember eid self
      in if seq > rs_cursor self' then self'\<lparr>rs_cursor := seq\<rparr> else self')"

section \<open>Errors and frames: \<^verbatim>\<open>error.rs\<close>, \<^verbatim>\<open>frame.rs\<close>\<close>

datatype client_error =
    ErrAuth
  | ErrHttp u16
  | ErrRevoked
  | ErrHandler
  | ErrCursorStore
  | ErrTransport
  | ErrConnectionClosed
  | ErrRequest string

fun is_fatal :: "client_error \<Rightarrow> bool" where
  "is_fatal ErrAuth = True"
| "is_fatal ErrRevoked = True"
| "is_fatal ErrHandler = True"
| "is_fatal ErrCursorStore = True"
| "is_fatal (ErrRequest _) = True"
| "is_fatal (ErrHttp _) = False"
| "is_fatal ErrTransport = False"
| "is_fatal ErrConnectionClosed = False"

datatype ws_action = ActText string | ActPong string | ActClosed | ActIgnore

fun classify :: "ws_message \<Rightarrow> ws_action" where
  "classify (WsText text) = ActText text"
| "classify (WsPing payload) = ActPong payload"
| "classify WsClose = ActClosed"
| "classify (WsPong _) = ActIgnore"
| "classify (WsBinary _) = ActIgnore"

definition parse_frame :: "(string \<Rightarrow> sub_server_msg option) \<Rightarrow> string \<Rightarrow> sub_server_msg option" where
  "parse_frame from_str text = from_str text"

text \<open>\<open>b64_decode\<close>: the standard base64 engine.\<close>

definition delivered_payload :: "(string \<Rightarrow> string option) \<Rightarrow> stamped_event \<Rightarrow> string option" where
  "delivered_payload b64_decode event = b64_decode (st_payload_b64 event)"

definition closing_is_fatal :: "closing_reason \<Rightarrow> bool" where
  "closing_is_fatal reason \<longleftrightarrow> reason = CloseRevoked"

section \<open>The connection: \<^verbatim>\<open>connection.rs\<close>\<close>

record request =
  rq_url :: string
  rq_authorization :: string

text \<open>\<open>url_err\<close> and \<open>header_ok\<close>: the URL parser and the header-value parser.\<close>

definition build_request ::
  "(string \<Rightarrow> string option) \<Rightarrow> (string \<Rightarrow> bool) \<Rightarrow> string \<Rightarrow> string \<Rightarrow> client_error + request" where
  "build_request url_err header_ok url token =
     (case url_err url of
        Some err \<Rightarrow> Inl (ErrRequest err)
      | None \<Rightarrow>
          (let value = ''Bearer '' @ token
           in if header_ok value then Inr \<lparr>rq_url = url, rq_authorization = value\<rparr>
              else Inl (ErrRequest ''invalid Authorization header value'')))"

datatype stream_item = Got ws_message | GotError

datatype connect_result = ConnHttp u16 | ConnFailed | Connected "stream_item list"

fun map_connect_error :: "connect_result \<Rightarrow> client_error + stream_item list" where
  "map_connect_error (ConnHttp status) = Inl (if status = 401 then ErrAuth else ErrHttp status)"
| "map_connect_error ConnFailed = Inl ErrTransport"
| "map_connect_error (Connected items) = Inr items"

definition subscribe_msg :: "string list \<Rightarrow> u64 option \<Rightarrow> sub_client_msg" where
  "subscribe_msg patterns after_seq =
     Subscribe patterns (map_option (\<lambda>a. \<lparr>rr_after_seq = a\<rparr>) after_seq)"

text \<open>The stream: what is still to come, and what was sent on it.\<close>

record wire =
  wr_items :: "stream_item list"
  wr_sent :: "ws_message list"

fun recv_items ::
  "(string \<Rightarrow> sub_server_msg option) \<Rightarrow> (ws_message list \<Rightarrow> bool) \<Rightarrow> ws_message list \<Rightarrow>
   stream_item list \<Rightarrow> (client_error + sub_server_msg) \<times> wire" where
  "recv_items from_str send_ok sent [] = (Inl ErrConnectionClosed, \<lparr>wr_items = [], wr_sent = sent\<rparr>)"
| "recv_items from_str send_ok sent (GotError # items) =
     (Inl ErrTransport, \<lparr>wr_items = items, wr_sent = sent\<rparr>)"
| "recv_items from_str send_ok sent (Got m # items) =
     (case classify m of
        ActText text \<Rightarrow>
          (case parse_frame from_str text of
             Some msg \<Rightarrow> (Inr msg, \<lparr>wr_items = items, wr_sent = sent\<rparr>)
           | None \<Rightarrow> recv_items from_str send_ok sent items)
      | ActPong payload \<Rightarrow>
          (if send_ok sent then recv_items from_str send_ok (sent @ [WsPong payload]) items
           else (Inl ErrTransport, \<lparr>wr_items = items, wr_sent = sent\<rparr>))
      | ActClosed \<Rightarrow> (Inl ErrConnectionClosed, \<lparr>wr_items = items, wr_sent = sent\<rparr>)
      | ActIgnore \<Rightarrow> recv_items from_str send_ok sent items)"

definition recv ::
  "(string \<Rightarrow> sub_server_msg option) \<Rightarrow> (ws_message list \<Rightarrow> bool) \<Rightarrow> wire \<Rightarrow>
   (client_error + sub_server_msg) \<times> wire" where
  "recv from_str send_ok w = recv_items from_str send_ok (wr_sent w) (wr_items w)"

lemma recv_items_shorter:
  "recv_items from_str send_ok sent items = (Inr msg, w) \<Longrightarrow> length (wr_items w) < length items"
proof (induction from_str send_ok sent items rule: recv_items.induct)
  case (3 from_str send_ok sent m items)
  then show ?case by (auto split: ws_action.splits option.splits if_splits)
qed auto

text \<open>Reading up to the welcome frame; every round consumes input.\<close>

function await_welcome ::
  "(string \<Rightarrow> sub_server_msg option) \<Rightarrow> (ws_message list \<Rightarrow> bool) \<Rightarrow> wire \<Rightarrow>
   (client_error + string) \<times> wire" where
  "await_welcome from_str send_ok w =
     (case recv from_str send_ok w of
        (Inl e, w') \<Rightarrow> (Inl e, w')
      | (Inr (Welcome nm), w') \<Rightarrow> (Inr nm, w')
      | (Inr _, w') \<Rightarrow> await_welcome from_str send_ok w')"
  by pat_completeness auto
termination
proof (relation "measure (\<lambda>(_, _, w). length (wr_items w))")
qed (auto simp: recv_def dest!: recv_items_shorter [OF sym] recv_items_shorter)

declare await_welcome.simps [simp del]

definition connection_connect ::
  "(string \<Rightarrow> string option) \<Rightarrow> (string \<Rightarrow> bool) \<Rightarrow> (string \<Rightarrow> sub_server_msg option) \<Rightarrow>
   (ws_message list \<Rightarrow> bool) \<Rightarrow> string \<Rightarrow> string \<Rightarrow> connect_result \<Rightarrow> client_error + string \<times> wire" where
  "connection_connect url_err header_ok from_str send_ok url token net =
     (case build_request url_err header_ok url token of
        Inl e \<Rightarrow> Inl e
      | Inr _ \<Rightarrow>
          (case map_connect_error net of
             Inl e \<Rightarrow> Inl e
           | Inr items \<Rightarrow>
               (case await_welcome from_str send_ok \<lparr>wr_items = items, wr_sent = []\<rparr> of
                  (Inl e, _) \<Rightarrow> Inl e
                | (Inr nm, w) \<Rightarrow> Inr (nm, w))))"

definition wire_send ::
  "(sub_client_msg \<Rightarrow> string) \<Rightarrow> (ws_message list \<Rightarrow> bool) \<Rightarrow> sub_client_msg \<Rightarrow> wire \<Rightarrow>
   (client_error + unit) \<times> wire" where
  "wire_send to_text send_ok msg w =
     (if send_ok (wr_sent w)
      then (Inr (), w\<lparr>wr_sent := wr_sent w @ [WsText (to_text msg)]\<rparr>) else (Inl ErrTransport, w))"

definition connection_subscribe ::
  "(sub_client_msg \<Rightarrow> string) \<Rightarrow> (ws_message list \<Rightarrow> bool) \<Rightarrow> string list \<Rightarrow> u64 option \<Rightarrow> wire \<Rightarrow>
   (client_error + unit) \<times> wire" where
  "connection_subscribe to_text send_ok patterns after_seq w =
     wire_send to_text send_ok (subscribe_msg patterns after_seq) w"

definition connection_ping ::
  "(sub_client_msg \<Rightarrow> string) \<Rightarrow> (ws_message list \<Rightarrow> bool) \<Rightarrow> wire \<Rightarrow> (client_error + unit) \<times> wire" where
  "connection_ping to_text send_ok w = wire_send to_text send_ok Ping w"

section \<open>The cursor store: \<^verbatim>\<open>cursor.rs\<close>\<close>

record mem_store =
  ms_cursor :: u64

definition MemoryCursorStore_new :: "u64 \<Rightarrow> mem_store" where
  "MemoryCursorStore_new initial = \<lparr>ms_cursor = initial\<rparr>"

definition mem_load :: "mem_store \<Rightarrow> client_error + u64" where
  "mem_load s = Inr (ms_cursor s)"

definition mem_save :: "u64 \<Rightarrow> mem_store \<Rightarrow> (client_error + unit) \<times> mem_store" where
  "mem_save cursor s = (Inr (), s\<lparr>ms_cursor := cursor\<rparr>)"

section \<open>The client: \<^verbatim>\<open>lib.rs\<close>\<close>

datatype handler_call =
    OnEvent stamped_event
  | OnReplayed u64
  | OnReplayGap u64 u64
  | OnLagged u64
  | OnReplayUnavailable string

type_synonym handler = "handler_call list \<Rightarrow> handler_call \<Rightarrow> bool"

record client =
  cl_url :: string
  cl_token :: string
  cl_patterns :: "string list"
  cl_backoff :: backoff_policy
  cl_dedup_capacity :: nat

record 's client_builder =
  cb_url :: string
  cb_token :: string
  cb_patterns :: "string list"
  cb_backoff :: backoff_policy
  cb_cursor_store :: "'s option"
  cb_resume_cursor :: u64
  cb_dedup_capacity :: nat

definition Client_builder :: "string \<Rightarrow> string \<Rightarrow> 's client_builder" where
  "Client_builder url token =
     \<lparr>cb_url = url, cb_token = token, cb_patterns = [], cb_backoff = BackoffPolicy_default,
      cb_cursor_store = None, cb_resume_cursor = 0, cb_dedup_capacity = 8192\<rparr>"

definition builder_pattern :: "string \<Rightarrow> 's client_builder \<Rightarrow> 's client_builder" where
  "builder_pattern p self = self\<lparr>cb_patterns := cb_patterns self @ [p]\<rparr>"

definition builder_patterns :: "string list \<Rightarrow> 's client_builder \<Rightarrow> 's client_builder" where
  "builder_patterns ps self = self\<lparr>cb_patterns := cb_patterns self @ ps\<rparr>"

definition builder_resume_cursor :: "u64 \<Rightarrow> 's client_builder \<Rightarrow> 's client_builder" where
  "builder_resume_cursor c self = self\<lparr>cb_resume_cursor := c\<rparr>"

definition builder_dedup_capacity :: "nat \<Rightarrow> 's client_builder \<Rightarrow> 's client_builder" where
  "builder_dedup_capacity n self = self\<lparr>cb_dedup_capacity := max n 1\<rparr>"

definition builder_backoff :: "backoff_policy \<Rightarrow> 's client_builder \<Rightarrow> 's client_builder" where
  "builder_backoff policy self = self\<lparr>cb_backoff := policy\<rparr>"

definition builder_cursor_store :: "'s \<Rightarrow> 's client_builder \<Rightarrow> 's client_builder" where
  "builder_cursor_store store self = self\<lparr>cb_cursor_store := Some store\<rparr>"

text \<open>The store of a client is the one that was installed, or the in-memory one (\<open>Inl\<close>).\<close>

definition builder_build :: "'s client_builder \<Rightarrow> client \<times> (mem_store + 's)" where
  "builder_build self =
     (\<lparr>cl_url = cb_url self, cl_token = cb_token self, cl_patterns = cb_patterns self,
       cl_backoff = cb_backoff self, cl_dedup_capacity = cb_dedup_capacity self\<rparr>,
      (case cb_cursor_store self of
         Some store \<Rightarrow> Inr store
       | None \<Rightarrow> Inl (MemoryCursorStore_new (cb_resume_cursor self))))"

text \<open>
  What a run carries from session to session: dedup state, store, the history of handler
  calls, the reconnect backoff and the delays slept so far.
\<close>

record 's run_state =
  cr_resume :: resume_state
  cr_store :: 's
  cr_calls :: "handler_call list"
  cr_backoff :: backoff
  cr_waits :: "duration list"

datatype flow = Continue | Return | Fail client_error

definition call_hook ::
  "handler \<Rightarrow> handler_call \<Rightarrow> flow \<Rightarrow> 's run_state \<Rightarrow> flow \<times> 's run_state" where
  "call_hook h call next st =
     ((if h (cr_calls st) call then next else Fail ErrHandler),
      st\<lparr>cr_calls := cr_calls st @ [call]\<rparr>)"

text \<open>The arm of the receive loop for one frame.\<close>

definition session_event ::
  "(u64 \<Rightarrow> 's \<Rightarrow> (client_error + unit) \<times> 's) \<Rightarrow> handler \<Rightarrow> stamped_event \<Rightarrow> 's run_state \<Rightarrow>
   flow \<times> 's run_state" where
  "session_event save h e st =
     (if should_process (st_id e) (st_seq e) (cr_resume st)
      then (case call_hook h (OnEvent e) Continue st of
              (Fail err, st1) \<Rightarrow> (Fail err, st1)
            | (_, st1) \<Rightarrow>
                (let resume = record_event (st_id e) (st_seq e) (cr_resume st1);
                     st2 = st1\<lparr>cr_resume := resume\<rparr>
                 in (case save (rs_cursor resume) (cr_store st2) of
                       (Inl err, s) \<Rightarrow> (Fail err, st2\<lparr>cr_store := s\<rparr>)
                     | (Inr _, s) \<Rightarrow> (Continue, st2\<lparr>cr_store := s\<rparr>))))
      else (Continue, st))"

fun session_frame ::
  "(u64 \<Rightarrow> 's \<Rightarrow> (client_error + unit) \<times> 's) \<Rightarrow> handler \<Rightarrow> sub_server_msg \<Rightarrow> 's run_state \<Rightarrow>
   flow \<times> 's run_state" where
  "session_frame save h (SubEvent e) st = session_event save h e st"
| "session_frame save h (Replayed through_seq) st = call_hook h (OnReplayed through_seq) Continue st"
| "session_frame save h (ReplayGap from_seq earliest_seq) st =
     call_hook h (OnReplayGap from_seq earliest_seq) Continue st"
| "session_frame save h (Lagged dropped) st = call_hook h (OnLagged dropped) Return st"
| "session_frame save h (SubError operation msg) st =
     (if operation = ''replay'' then call_hook h (OnReplayUnavailable msg) Continue st
      else (Continue, st))"
| "session_frame save h (Closing reason) st =
     ((if closing_is_fatal reason then Fail ErrRevoked else Return), st)"
| "session_frame save h (Welcome nm) st = (Continue, st)"
| "session_frame save h (SubOk operation) st = (Continue, st)"
| "session_frame save h Pong st = (Continue, st)"

function session_loop ::
  "(string \<Rightarrow> sub_server_msg option) \<Rightarrow> (ws_message list \<Rightarrow> bool) \<Rightarrow>
   (u64 \<Rightarrow> 's \<Rightarrow> (client_error + unit) \<times> 's) \<Rightarrow> handler \<Rightarrow> wire \<Rightarrow> 's run_state \<Rightarrow>
   (client_error + unit) \<times> 's run_state" where
  "session_loop from_str send_ok save h w st =
     (case recv from_str send_ok w of
        (Inl e, _) \<Rightarrow> (Inl e, st)
      | (Inr msg, w') \<Rightarrow>
          (case session_frame save h msg st of
             (Fail e, st') \<Rightarrow> (Inl e, st')
           | (Return, st') \<Rightarrow> (Inr (), st')
           | (Continue, st') \<Rightarrow> session_loop from_str send_ok save h w' st'))"
  by pat_completeness auto
termination
  by (relation "measure (\<lambda>(_, _, _, _, w, _). length (wr_items w))")
    (auto simp: recv_def dest!: recv_items_shorter [OF sym])

declare session_loop.simps [simp del]

text \<open>The network, JSON and the parsers of a request, as the client sees them.\<close>

record env =
  en_url_err :: "string \<Rightarrow> string option"
  en_header_ok :: "string \<Rightarrow> bool"
  en_from_str :: "string \<Rightarrow> sub_server_msg option"
  en_to_text :: "sub_client_msg \<Rightarrow> string"
  en_send_ok :: "ws_message list \<Rightarrow> bool"
  en_powi :: "f64 \<Rightarrow> int \<Rightarrow> f64"

definition run_session ::
  "env \<Rightarrow> (u64 \<Rightarrow> 's \<Rightarrow> (client_error + unit) \<times> 's) \<Rightarrow> handler \<Rightarrow> client \<Rightarrow> connect_result \<Rightarrow>
   's run_state \<Rightarrow> (client_error + unit) \<times> 's run_state" where
  "run_session env save h self net st =
     (case connection_connect (en_url_err env) (en_header_ok env) (en_from_str env) (en_send_ok env)
             (cl_url self) (cl_token self) net of
        Inl e \<Rightarrow> (Inl e, st)
      | Inr (_, w) \<Rightarrow>
          (let st1 = st\<lparr>cr_backoff := Backoff_reset (cr_backoff st)\<rparr>
           in (case connection_subscribe (en_to_text env) (en_send_ok env)
                      (cl_patterns self) (Some (rs_cursor (cr_resume st1))) w of
                 (Inl e, _) \<Rightarrow> (Inl e, st1)
               | (Inr _, w') \<Rightarrow>
                   session_loop (en_from_str env) (en_send_ok env) save h w' st1)))"

text \<open>\<^verbatim>\<open>Client::connect\<close>: the connection, subscribed, for callers that drive it themselves.\<close>

definition client_connect ::
  "env \<Rightarrow> ('s \<Rightarrow> client_error + u64) \<Rightarrow> client \<Rightarrow> connect_result \<Rightarrow> 's \<Rightarrow> client_error + string \<times> wire" where
  "client_connect env load self net store =
     (case load store of
        Inl e \<Rightarrow> Inl e
      | Inr cursor \<Rightarrow>
          (case connection_connect (en_url_err env) (en_header_ok env) (en_from_str env) (en_send_ok env)
                  (cl_url self) (cl_token self) net of
             Inl e \<Rightarrow> Inl e
           | Inr (nm, w) \<Rightarrow>
               (case connection_subscribe (en_to_text env) (en_send_ok env) (cl_patterns self) (Some cursor) w of
                  (Inl e, _) \<Rightarrow> Inl e
                | (Inr _, w') \<Rightarrow> Inr (nm, w'))))"

text \<open>
  \<^verbatim>\<open>run\<close> loops for ever; \<open>nets\<close> are the outcomes of its connection attempts so far, each with the random
  sample drawn for the delay after it.  The result is the fatal error it returned with, the panic of
  a delay that cannot be represented, or \<open>Going\<close> while it is still going.
\<close>

datatype run_end = Going | Returned client_error | Panicked

definition back_off :: "env \<Rightarrow> f64 \<Rightarrow> 's run_state \<Rightarrow> 's run_state option" where
  "back_off env rand01 st =
     (case next_delay (en_powi env) rand01 (cr_backoff st) of
        None \<Rightarrow> None
      | Some (delay, b) \<Rightarrow> Some (st\<lparr>cr_backoff := b, cr_waits := cr_waits st @ [delay]\<rparr>))"

fun run_rounds ::
  "env \<Rightarrow> (u64 \<Rightarrow> 's \<Rightarrow> (client_error + unit) \<times> 's) \<Rightarrow> handler \<Rightarrow> client \<Rightarrow> (connect_result \<times> f64) list \<Rightarrow>
   's run_state \<Rightarrow> run_end \<times> 's run_state" where
  "run_rounds env save h self [] st = (Going, st)"
| "run_rounds env save h self ((net, rand01) # nets) st =
     (case run_session env save h self net st of
        (res, st') \<Rightarrow>
          (case res of
             Inl e \<Rightarrow>
               if is_fatal e then (Returned e, st')
               else (case back_off env rand01 st' of
                       None \<Rightarrow> (Panicked, st')
                     | Some st'' \<Rightarrow> run_rounds env save h self nets st'')
           | Inr _ \<Rightarrow>
               (case back_off env rand01 st' of
                  None \<Rightarrow> (Panicked, st')
                | Some st'' \<Rightarrow> run_rounds env save h self nets st'')))"

definition run_start :: "client \<Rightarrow> u64 \<Rightarrow> 's \<Rightarrow> 's run_state" where
  "run_start self cursor store =
     \<lparr>cr_resume = ResumeState_new cursor (cl_dedup_capacity self), cr_store = store, cr_calls = [],
      cr_backoff = BackoffPolicy_start (cl_backoff self), cr_waits = []\<rparr>"

definition client_run ::
  "env \<Rightarrow> ('s \<Rightarrow> client_error + u64) \<Rightarrow> (u64 \<Rightarrow> 's \<Rightarrow> (client_error + unit) \<times> 's) \<Rightarrow> handler \<Rightarrow>
   client \<Rightarrow> (connect_result \<times> f64) list \<Rightarrow> 's \<Rightarrow> run_end \<times> 's run_state" where
  "client_run env load save h self nets store =
     (case load store of
        Inl e \<Rightarrow> (Returned e, run_start self 0 store)
      | Inr cursor \<Rightarrow> run_rounds env save h self nets (run_start self cursor store))"

section \<open>The dedup window\<close>

definition resume_inv :: "resume_state \<Rightarrow> bool" where
  "resume_inv r \<longleftrightarrow> set (rs_order r) = rs_seen r \<and> distinct (rs_order r) \<and>
     length (rs_order r) \<le> rs_capacity r \<and> 1 \<le> rs_capacity r"

lemma resume_inv_new: "resume_inv (ResumeState_new c n)"
  by (simp add: resume_inv_def ResumeState_new_def)

lemma remember_simps [simp]:
  "rs_cursor (remember eid r) = rs_cursor r" "rs_capacity (remember eid r) = rs_capacity r"
  by (simp_all add: remember_def Let_def)

lemma record_event_cursor [simp]:
  "rs_cursor (record_event eid seq r) = max (rs_cursor r) seq"
  by (auto simp: record_event_def Let_def max_def)

lemma record_event_seen: "rs_seen (record_event eid seq r) \<subseteq> insert eid (rs_seen r)"
  by (auto simp: record_event_def remember_def Let_def)

lemma resume_inv_remember:
  assumes "resume_inv r"
  shows "resume_inv (remember eid r)"
proof (cases "eid \<in> rs_seen r \<or> length (rs_order r @ [eid]) \<le> rs_capacity r")
  case True
  show ?thesis
  proof (cases "eid \<in> rs_seen r")
    case True
    with assms show ?thesis by (simp add: remember_def)
  next
    case False
    with \<open>_ \<or> _\<close> have "remember eid r = r\<lparr>rs_seen := insert eid (rs_seen r), rs_order := rs_order r @ [eid]\<rparr>"
      by (simp add: remember_def Let_def)
    with False \<open>_ \<or> _\<close> assms show ?thesis by (simp add: resume_inv_def)
  qed
next
  case False
  then have fresh: "eid \<notin> rs_seen r" and full: "length (rs_order r @ [eid]) > rs_capacity r" by auto
  show ?thesis
  proof (cases "rs_order r")
    case Nil
    with assms full show ?thesis by (simp add: resume_inv_def)
  next
    case (Cons x xs)
    with assms have "rs_seen r = insert x (set xs)" "x \<notin> set xs" "distinct xs"
      "Suc (length xs) \<le> rs_capacity r"
      by (auto simp: resume_inv_def)
    with Cons fresh full show ?thesis
      by (auto simp: resume_inv_def remember_def Let_def)
  qed
qed

lemma resume_inv_record: "resume_inv r \<Longrightarrow> resume_inv (record_event eid seq r)"
  using resume_inv_remember [of r eid] by (auto simp: record_event_def Let_def resume_inv_def)

section \<open>What reaches the handler\<close>

fun event_of_call :: "handler_call \<Rightarrow> stamped_event option" where
  "event_of_call (OnEvent e) = Some e"
| "event_of_call _ = None"

definition handled :: "handler_call list \<Rightarrow> stamped_event list" where
  "handled calls = List.map_filter event_of_call calls"

lemma handled_Nil [simp]: "handled [] = []"
  by (simp add: handled_def)

lemma map_filter_snoc:
  "List.map_filter f (xs @ [x]) = List.map_filter f xs @ (case f x of None \<Rightarrow> [] | Some y \<Rightarrow> [y])"
  by (induction xs) (simp_all split: option.splits)

lemma handled_snoc [simp]:
  "handled (calls @ [c]) = handled calls @ (case event_of_call c of None \<Rightarrow> [] | Some e \<Rightarrow> [e])"
  by (simp add: handled_def map_filter_snoc)

text \<open>
  The history of a run that started at cursor \<open>c0\<close>: sequence numbers rise strictly, and every
  call but possibly the last one succeeded.  While the run goes on, the last one did too, and the
  cursor is the number of the last event handled.
\<close>

definition calls_inv :: "handler \<Rightarrow> u64 \<Rightarrow> handler_call list \<Rightarrow> bool" where
  "calls_inv h c0 calls \<longleftrightarrow> sorted_wrt (<) (c0 # map st_seq (handled calls)) \<and>
     (\<forall>n. Suc n < length calls \<longrightarrow> h (take n calls) (calls ! n))"

definition going_inv :: "handler \<Rightarrow> u64 \<Rightarrow> 's run_state \<Rightarrow> bool" where
  "going_inv h c0 st \<longleftrightarrow> calls_inv h c0 (cr_calls st) \<and> resume_inv (cr_resume st) \<and>
     (\<forall>n < length (cr_calls st). h (take n (cr_calls st)) (cr_calls st ! n)) \<and>
     rs_cursor (cr_resume st) = last (c0 # map st_seq (handled (cr_calls st)))"

lemma sorted_wrt_snoc_last:
  "sorted_wrt (<) (x # xs) \<Longrightarrow> last (x # xs) < (y :: 'a :: order) \<Longrightarrow> sorted_wrt (<) (x # xs @ [y])"
proof (induction xs arbitrary: x)
  case (Cons a xs)
  have "sorted_wrt (<) (a # xs @ [y])"
    by (rule Cons.IH) (use Cons.prems in simp_all)
  moreover have "x < a" using Cons.prems by simp
  ultimately show ?case by (auto intro: less_trans)
qed simp

lemma going_calls: "going_inv h c0 st \<Longrightarrow> calls_inv h c0 (cr_calls st)"
  by (simp add: going_inv_def)

lemma all_ok_snoc:
  "(\<forall>n < length calls. h (take n calls) (calls ! n)) \<Longrightarrow> h calls c \<Longrightarrow>
   \<forall>n < length (calls @ [c]). h (take n (calls @ [c])) ((calls @ [c]) ! n)"
  by (auto simp: nth_append less_Suc_eq)

lemma calls_inv_snoc:
  assumes "going_inv h c0 st" and "event_of_call c = None \<or>
    (\<exists>e. event_of_call c = Some e \<and> rs_cursor (cr_resume st) < st_seq e)"
  shows "calls_inv h c0 (cr_calls st @ [c])"
proof -
  have "\<forall>n. Suc n < length (cr_calls st @ [c]) \<longrightarrow>
      h (take n (cr_calls st @ [c])) ((cr_calls st @ [c]) ! n)"
    using assms(1) by (auto simp: going_inv_def nth_append)
  moreover have "sorted_wrt (<) (c0 # map st_seq (handled (cr_calls st @ [c])))"
    using assms sorted_wrt_snoc_last [of c0 "map st_seq (handled (cr_calls st))"]
    by (auto simp: going_inv_def calls_inv_def)
  ultimately show ?thesis by (simp add: calls_inv_def)
qed

lemma going_call_hook:
  assumes "going_inv h c0 st" and "event_of_call c = None" and "call_hook h c next st = (fl, st')"
  shows "calls_inv h c0 (cr_calls st') \<and> (fl = Fail ErrHandler \<or> fl = next \<and> going_inv h c0 st')"
proof -
  have "calls_inv h c0 (cr_calls st @ [c])" using calls_inv_snoc assms by blast
  then show ?thesis
    using assms all_ok_snoc [of "cr_calls st" h c]
    by (cases "h (cr_calls st) c") (auto simp: call_hook_def going_inv_def)
qed

lemma going_event:
  assumes inv: "going_inv h c0 st" and "session_event save h e st = (fl, st')"
  shows "calls_inv h c0 (cr_calls st') \<and> (fl = Fail ErrHandler \<or> going_inv h c0 st')"
proof (cases "should_process (st_id e) (st_seq e) (cr_resume st)")
  case True
  then have lt: "rs_cursor (cr_resume st) < st_seq e" by (simp add: should_process_def)
  have ci: "calls_inv h c0 (cr_calls st @ [OnEvent e])"
    using calls_inv_snoc [OF inv] lt by simp
  show ?thesis
  proof (cases "h (cr_calls st) (OnEvent e)")
    case False
    with True ci assms(2) show ?thesis by (auto simp: session_event_def call_hook_def)
  next
    case ok: True
    have "going_inv h c0 (st\<lparr>cr_calls := cr_calls st @ [OnEvent e],
        cr_resume := record_event (st_id e) (st_seq e) (cr_resume st), cr_store := s\<rparr>)" for s
      using inv ci lt all_ok_snoc [of "cr_calls st" h "OnEvent e", OF _ ok] resume_inv_record
      by (auto simp: going_inv_def max_def)
    with True ok ci assms(2) show ?thesis
      by (auto simp: session_event_def call_hook_def Let_def split: prod.splits sum.splits)
  qed
qed (use assms in \<open>auto simp: session_event_def going_calls\<close>)

lemma going_frame:
  assumes "going_inv h c0 st" and "session_frame save h msg st = (fl, st')"
  shows "calls_inv h c0 (cr_calls st') \<and> (fl = Fail ErrHandler \<or> going_inv h c0 st')"
proof (cases msg)
  case (SubEvent e)
  with assms going_event [OF assms(1)] show ?thesis by simp
next
  case (Replayed n)
  with assms going_call_hook [OF assms(1), of "OnReplayed n"] show ?thesis by auto
next
  case (ReplayGap a b)
  with assms going_call_hook [OF assms(1), of "OnReplayGap a b"] show ?thesis by auto
next
  case (Lagged n)
  with assms going_call_hook [OF assms(1), of "OnLagged n"] show ?thesis by auto
next
  case (SubError a b)
  with assms going_call_hook [OF assms(1), of "OnReplayUnavailable b"] going_calls [OF assms(1)]
  show ?thesis by (cases "a = ''replay''") auto
qed (use assms going_calls [OF assms(1)] in auto)

lemma going_loop:
  assumes "going_inv h c0 st" and "session_loop from_str send_ok save h w st = (res, st')"
  shows "calls_inv h c0 (cr_calls st') \<and> (res = Inl ErrHandler \<or> going_inv h c0 st')"
  using assms
proof (induction from_str send_ok save h w st arbitrary: res st' rule: session_loop.induct)
  case (1 from_str send_ok save h w st)
  show ?case
  proof (cases "recv from_str send_ok w")
    case (Pair r w')
    show ?thesis
    proof (cases r)
      case (Inl e)
      with Pair 1(2,3) show ?thesis by (auto simp: session_loop.simps [of _ _ _ _ w] going_calls)
    next
      case (Inr msg)
      obtain fl st1 where fr: "session_frame save h msg st = (fl, st1)" by fastforce
      note g = going_frame [OF 1(2) fr]
      show ?thesis
      proof (cases fl)
        case Continue
        have "session_loop from_str send_ok save h w' st1 = (res, st')"
          using 1(3) Pair Inr fr Continue by (simp add: session_loop.simps [of _ _ _ _ w])
        with 1(1) [OF Pair [symmetric] Inr fr [symmetric] Continue] g Continue show ?thesis by auto
      qed (use 1(3) Pair Inr fr g in \<open>auto simp: session_loop.simps [of _ _ _ _ w]\<close>)
    qed
  qed
qed

lemma going_backoff [simp]:
  "going_inv h c0 (st\<lparr>cr_backoff := b\<rparr>) = going_inv h c0 st" "going_inv h c0 (st\<lparr>cr_waits := w\<rparr>) = going_inv h c0 st"
  by (simp_all add: going_inv_def)

lemma back_off_Some:
  "back_off env r st = Some st' \<longleftrightarrow>
     (\<exists>d b. next_delay (en_powi env) r (cr_backoff st) = Some (d, b) \<and>
        st' = st\<lparr>cr_backoff := b, cr_waits := cr_waits st @ [d]\<rparr>)"
  by (auto simp: back_off_def split: option.splits)

lemma going_session:
  assumes "going_inv h c0 st" and "run_session env save h self net st = (res, st')"
  shows "calls_inv h c0 (cr_calls st') \<and> (res = Inl ErrHandler \<or> going_inv h c0 st')"
proof -
  have st1: "going_inv h c0 (st\<lparr>cr_backoff := Backoff_reset (cr_backoff st)\<rparr>)" using assms(1) by simp
  show ?thesis
    using assms(2) going_calls [OF st1] st1 assms(1) going_calls [OF assms(1)] going_loop [OF st1]
    by (auto simp: run_session_def Let_def split: sum.splits prod.splits)
qed

text \<open>A round ends the run, or is followed by a delay and the rest of the rounds.\<close>

lemma run_rounds_cases:
  assumes "run_rounds env save h self ((net, r) # nets) st = (res, st')"
  obtains (fatal) e where "run_session env save h self net st = (Inl e, st')" "is_fatal e" "res = Returned e"
  | (panic) x where "run_session env save h self net st = (x, st')" "\<forall>e. x = Inl e \<longrightarrow> \<not> is_fatal e"
      "back_off env r st' = None" "res = Panicked"
  | (on) x st1 st2 where "run_session env save h self net st = (x, st1)" "\<forall>e. x = Inl e \<longrightarrow> \<not> is_fatal e"
      "back_off env r st1 = Some st2" "run_rounds env save h self nets st2 = (res, st')"
  using assms by (auto split: prod.splits sum.splits if_splits option.splits)

lemma going_rounds:
  assumes "going_inv h c0 st" and "run_rounds env save h self nets st = (res, st')"
  shows "calls_inv h c0 (cr_calls st') \<and> (res = Returned ErrHandler \<or> going_inv h c0 st')"
  using assms
proof (induction nets arbitrary: st)
  case (Cons round nets)
  obtain net r where round: "round = (net, r)" by fastforce
  from Cons.prems(2) [unfolded round] show ?case
  proof (cases rule: run_rounds_cases)
    case fatal
    with going_session [OF Cons.prems(1)] show ?thesis by blast
  next
    case (panic x)
    have "x \<noteq> Inl ErrHandler" using panic(2) by auto
    with going_session [OF Cons.prems(1) panic(1)] show ?thesis by blast
  next
    case (on x st1 st2)
    have "x \<noteq> Inl ErrHandler" using on(2) by auto
    with going_session [OF Cons.prems(1) on(1)] on(3) have "going_inv h c0 st2" by (auto simp: back_off_Some)
    with Cons.IH on(4) show ?thesis by blast
  qed
qed (simp add: going_calls)

lemma going_start: "going_inv h c0 (run_start self c0 s)"
  using resume_inv_new [of c0] by (simp add: going_inv_def calls_inv_def ResumeState_new_def run_start_def)

text \<open>What every frame keeps, a whole run keeps.\<close>

lemma loop_preserves:
  assumes "\<And>msg st. P st \<Longrightarrow> P (snd (session_frame save h msg st))" and "P st"
  shows "P (snd (session_loop from_str send_ok save h w st))"
  using assms(2)
proof (induction "length (wr_items w)" arbitrary: w st rule: less_induct)
  case less
  show ?case
  proof (cases "recv from_str send_ok w")
    case (Pair r w')
    show ?thesis
    proof (cases r)
      case (Inl e)
      with Pair less.prems show ?thesis by (simp add: session_loop.simps [of _ _ _ _ w])
    next
      case (Inr msg)
      obtain fl st1 where fr: "session_frame save h msg st = (fl, st1)" by fastforce
      have P1: "P st1" using assms(1) [OF less.prems, of msg] fr by simp
      have "length (wr_items w') < length (wr_items w)"
        using recv_items_shorter Pair Inr by (fastforce simp: recv_def)
      with less.hyps P1 show ?thesis
        using Pair Inr fr by (cases fl) (simp_all add: session_loop.simps [of _ _ _ _ w])
    qed
  qed
qed

lemma rounds_preserve:
  assumes frame: "\<And>msg st. P st \<Longrightarrow> P (snd (session_frame save h msg st))"
    and backoff: "\<And>st b w. P (st\<lparr>cr_backoff := b\<rparr>) = P st \<and> P (st\<lparr>cr_waits := w\<rparr>) = P st" and "P st"
  shows "P (snd (run_rounds env save h self nets st))"
  using assms(3)
proof (induction nets arbitrary: st)
  case (Cons round nets)
  obtain net r where round: "round = (net, r)" by fastforce
  obtain res st' where run: "run_rounds env save h self (round # nets) st = (res, st')" by fastforce
  have session: "P (snd (run_session env save h self net st))"
    using Cons.prems loop_preserves [of P, OF frame, of "st\<lparr>cr_backoff := Backoff_reset (cr_backoff st)\<rparr>"]
    by (auto simp: run_session_def Let_def backoff split: sum.splits prod.splits)
  from run [unfolded round] have "P st'"
  proof (cases rule: run_rounds_cases)
    case (on x st1 st2)
    then have "P st2" using session backoff by (auto simp: back_off_Some)
    with Cons.IH on(4) show ?thesis by (metis snd_conv)
  qed (use session in auto)
  with run show ?case by simp
qed simp

section \<open>The delays between connections\<close>

definition connects :: "env \<Rightarrow> client \<Rightarrow> connect_result \<Rightarrow> bool" where
  "connects env self net \<longleftrightarrow>
     (\<exists>nm w. connection_connect (en_url_err env) (en_header_ok env) (en_from_str env) (en_send_ok env)
        (cl_url self) (cl_token self) net = Inr (nm, w))"

lemma frame_keeps_backoff:
  "cr_backoff (snd (session_frame save h msg st)) = cr_backoff st \<and>
   cr_waits (snd (session_frame save h msg st)) = cr_waits st"
  by (cases msg) (auto simp: call_hook_def session_event_def Let_def split: flow.splits prod.splits sum.splits)

lemma session_backoff:
  assumes "run_session env save h self net st = (res, st')"
  shows "cr_waits st' = cr_waits st \<and>
    cr_backoff st' = (if connects env self net then Backoff_reset (cr_backoff st) else cr_backoff st)"
proof -
  let ?b = "Backoff_reset (cr_backoff st)"
  have "cr_backoff (snd (session_loop f g save h w (st\<lparr>cr_backoff := ?b\<rparr>))) = ?b \<and>
      cr_waits (snd (session_loop f g save h w (st\<lparr>cr_backoff := ?b\<rparr>))) = cr_waits st" for f g w
    by (rule loop_preserves) (simp_all add: frame_keeps_backoff)
  then have loop: "cr_backoff st'' = ?b \<and> cr_waits st'' = cr_waits st"
    if "session_loop f g save h w (st\<lparr>cr_backoff := ?b\<rparr>) = (x, st'')" for f g w x st''
    using that by (metis snd_conv)
  show ?thesis
  proof (cases "connection_connect (en_url_err env) (en_header_ok env) (en_from_str env) (en_send_ok env)
      (cl_url self) (cl_token self) net")
    case (Inl e)
    then show ?thesis using assms by (auto simp: run_session_def connects_def)
  next
    case (Inr p)
    then show ?thesis
      using assms by (cases p) (auto simp: run_session_def connects_def Let_def split: sum.splits prod.splits dest: loop)
  qed
qed

text \<open>A connection made by hand has asked for everything past the stored cursor, as a run's would.\<close>

lemma client_connect_subscribed:
  assumes "client_connect env load self net store = Inr (nm, w)"
  shows "connects env self net \<and> (\<exists>cursor. load store = Inr cursor \<and>
    last (wr_sent w) = WsText (en_to_text env (Subscribe (cl_patterns self) (Some \<lparr>rr_after_seq = cursor\<rparr>))))"
  using assms by (auto simp: client_connect_def connects_def connection_subscribe_def wire_send_def subscribe_msg_def
      split: sum.splits prod.splits if_splits)

text \<open>The range of \<^verbatim>\<open>rand::random::<f64>\<close>.\<close>

fun unit_sample :: "f64 \<Rightarrow> bool" where
  "unit_sample (Finite q) = (0 \<le> q \<and> q < 1)"
| "unit_sample _ = False"

text \<open>
  The attempt number each round's delay is computed from: it counts the rounds since the last
  connection, saturating, and starts again at zero with every connection.
\<close>

fun attempt_numbers :: "env \<Rightarrow> client \<Rightarrow> u32 \<Rightarrow> (connect_result \<times> f64) list \<Rightarrow> u32 list" where
  "attempt_numbers env self a [] = []"
| "attempt_numbers env self a ((net, _) # nets) =
     (let a' = if connects env self net then 0 else a in a' # attempt_numbers env self (bump a') nets)"

text \<open>A wait of policy \<open>p\<close> in a round with attempt number \<open>a\<close> and a sample in the generator's range.\<close>

definition wait_ok :: "env \<Rightarrow> backoff_policy \<Rightarrow> u32 \<Rightarrow> f64 \<Rightarrow> duration \<Rightarrow> bool" where
  "wait_ok env p a rand01 d \<longleftrightarrow> (\<exists>j r. bp_jitter p = Finite j \<and> rand01 = Finite r \<and> 0 \<le> r \<and> r < 1 \<and>
     base_delay (en_powi env) p a \<le> bp_max p \<and>
     \<bar>of_nat d - of_nat (base_delay (en_powi env) p a) * (1 - j + 2 * r * j)\<bar> \<le> 1)"

lemma back_off_ok:
  assumes max: "bp_max (bo_policy b) \<le> 10 ^ 14" and j: "bp_jitter (bo_policy b) = Finite j" "0 \<le> j" "j < 1"
    and r: "unit_sample rand01" and b: "b = cr_backoff st"
  obtains d where "wait_ok env (bo_policy b) (bo_attempt b) rand01 d"
    "back_off env rand01 st =
       Some (st\<lparr>cr_backoff := b\<lparr>bo_attempt := bump (bo_attempt b)\<rparr>, cr_waits := cr_waits st @ [d]\<rparr>)"
proof -
  obtain r where r: "rand01 = Finite r" "0 \<le> r" "r < 1" using r by (cases rand01) auto
  obtain d where "next_delay (en_powi env) (Finite r) b = Some (d, b\<lparr>bo_attempt := bump (bo_attempt b)\<rparr>)"
    "base_delay (en_powi env) (bo_policy b) (bo_attempt b) \<le> bp_max (bo_policy b)"
    "\<bar>of_nat d - of_nat (base_delay (en_powi env) (bo_policy b) (bo_attempt b)) * (1 - j + 2 * r * j)\<bar> \<le> 1"
    by (rule next_delay_jittered [OF max j r(2,3)])
  then show thesis using j(1) r by (intro that [of d]) (auto simp: wait_ok_def back_off_def b)
qed

lemma rounds_wait:
  assumes "bp_max p \<le> 10 ^ 14" and "bp_jitter p = Finite j" and "0 \<le> j" and "j < 1"
    and "list_all (unit_sample \<circ> snd) nets" and "bo_policy (cr_backoff st) = p"
    and "run_rounds env save h self nets st = (res, st')"
  shows "\<exists>ws. cr_waits st' = cr_waits st @ ws \<and> res \<noteq> Panicked \<and> (res = Going \<longleftrightarrow> length ws = length nets) \<and>
    length ws \<le> length nets \<and>
    (\<forall>k < length ws. wait_ok env p (attempt_numbers env self (bo_attempt (cr_backoff st)) nets ! k) (snd (nets ! k)) (ws ! k))"
  using assms(5-)
proof (induction nets arbitrary: st)
  case (Cons round nets)
  obtain net q where round: "round = (net, q)" "unit_sample q" using Cons.prems(1) by (cases round) auto
  let ?a = "if connects env self net then 0 else bo_attempt (cr_backoff st)"
  have b: "cr_backoff st1 = \<lparr>bo_policy = p, bo_attempt = ?a\<rparr> \<and> cr_waits st1 = cr_waits st"
    if "run_session env save h self net st = (x, st1)" for x st1
    using session_backoff [OF that] Cons.prems(2) by (auto simp: Backoff_reset_def)
  have wait: "\<exists>d. wait_ok env p ?a q d \<and> back_off env q st1 =
      Some (st1\<lparr>cr_backoff := \<lparr>bo_policy = p, bo_attempt = bump ?a\<rparr>, cr_waits := cr_waits st @ [d]\<rparr>)"
    if "run_session env save h self net st = (x, st1)" for x st1
    by (rule back_off_ok [OF _ _ assms(3,4) round(2) refl, of st1 env]) (use b [OF that] assms(1,2) in auto)
  from Cons.prems(3) [unfolded round] show ?case
  proof (cases rule: run_rounds_cases)
    case (fatal e)
    then show ?thesis using b by (intro exI [of _ "[]"]) fastforce
  next
    case (panic x)
    then show ?thesis using wait [OF panic(1)] by simp
  next
    case (on x st1 st2)
    from wait [OF on(1)] on(3) obtain d where d: "wait_ok env p ?a q d" "cr_waits st2 = cr_waits st @ [d]"
      "cr_backoff st2 = \<lparr>bo_policy = p, bo_attempt = bump ?a\<rparr>" by auto
    from Cons.IH [OF _ _ on(4)] Cons.prems(1) d(3) obtain ws where
      ws: "cr_waits st' = cr_waits st2 @ ws" "res \<noteq> Panicked" "res = Going \<longleftrightarrow> length ws = length nets"
      "length ws \<le> length nets"
      "\<forall>k < length ws. wait_ok env p (attempt_numbers env self (bump ?a) nets ! k) (snd (nets ! k)) (ws ! k)" by auto
    have "\<forall>k < length (d # ws). wait_ok env p (attempt_numbers env self (bo_attempt (cr_backoff st)) (round # nets) ! k)
        (snd ((round # nets) ! k)) ((d # ws) ! k)"
      using d(1) ws(5) by (auto simp: round(1) Let_def nth_Cons split: nat.splits)
    with d(2) ws show ?thesis by (intro exI [of _ "d # ws"]) simp
  qed
qed auto

section \<open>The contract of a cursor store\<close>

text \<open>
  A cursor value is covered by a history when it is the one the run started from or the number
  of an event whose handling succeeded.
\<close>

definition covered :: "handler \<Rightarrow> u64 \<Rightarrow> handler_call list \<Rightarrow> u64 \<Rightarrow> bool" where
  "covered h c0 calls c \<longleftrightarrow> c = c0 \<or>
     (\<exists>n e. n < length calls \<and> calls ! n = OnEvent e \<and> h (take n calls) (OnEvent e) \<and> c = st_seq e)"

lemma covered_snoc: "covered h c0 calls c \<Longrightarrow> covered h c0 (calls @ [x]) c"
  unfolding covered_def by (metis less_SucI length_append_singleton less_imp_le_nat nth_append
      take_append append_Nil2 diff_is_0_eq take0)

lemma covered_new: "h calls (OnEvent e) \<Longrightarrow> covered h c0 (calls @ [OnEvent e]) (st_seq e)"
  unfolding covered_def by (intro disjI2 exI [of _ "length calls"] exI [of _ e]) simp

locale cursor_store =
  fixes load :: "'s \<Rightarrow> client_error + u64"
    and save :: "u64 \<Rightarrow> 's \<Rightarrow> (client_error + unit) \<times> 's"
  assumes saved: "save c s = (Inr (), s') \<Longrightarrow> load s' = Inr c"
    and not_saved: "save c s = (Inl e, s') \<Longrightarrow> load s' = load s"
begin

definition persisted :: "handler \<Rightarrow> u64 \<Rightarrow> 's run_state \<Rightarrow> bool" where
  "persisted h c0 st \<longleftrightarrow> (\<exists>c. load (cr_store st) = Inr c \<and> covered h c0 (cr_calls st) c)"

lemma persisted_hook: "persisted h c0 st \<Longrightarrow> persisted h c0 (snd (call_hook h c next st))"
  by (auto simp: persisted_def call_hook_def intro: covered_snoc)

lemma persisted_event:
  assumes "persisted h c0 st"
  shows "persisted h c0 (snd (session_event save h e st))"
proof (cases "should_process (st_id e) (st_seq e) (cr_resume st) \<and> h (cr_calls st) (OnEvent e)")
  case False
  with assms persisted_hook [OF assms, of "OnEvent e" Continue] show ?thesis
    by (auto simp: session_event_def call_hook_def)
next
  case True
  then have cur: "max (rs_cursor (cr_resume st)) (st_seq e) = st_seq e"
    by (auto simp: should_process_def intro: max_absorb2)
  obtain r s' where sv: "save (st_seq e) (cr_store st) = (r, s')" by fastforce
  have st': "snd (session_event save h e st) = st\<lparr>cr_calls := cr_calls st @ [OnEvent e],
      cr_resume := record_event (st_id e) (st_seq e) (cr_resume st), cr_store := s'\<rparr>"
    using True cur sv by (cases r) (simp_all add: session_event_def call_hook_def Let_def)
  show ?thesis
  proof (cases r)
    case (Inl err)
    with sv not_saved assms show ?thesis
      unfolding st' by (auto simp: persisted_def intro: covered_snoc)
  next
    case (Inr u)
    with sv saved have "load s' = Inr (st_seq e)" by simp
    with True covered_new show ?thesis unfolding st' by (auto simp: persisted_def)
  qed
qed

lemma persisted_frame: "persisted h c0 st \<Longrightarrow> persisted h c0 (snd (session_frame save h msg st))"
  by (cases msg) (simp_all add: persisted_event persisted_hook)

lemma run_persisted:
  assumes "load store = Inr c0" and "client_run env load save h self nets store = (res, st)"
  shows "persisted h c0 st"
proof -
  have "persisted h c0 (snd (run_rounds env save h self nets (run_start self c0 store)))"
    by (rule rounds_preserve [where P = "persisted h c0"])
      (auto simp: persisted_frame, auto simp: persisted_def assms(1) covered_def run_start_def)
  with assms show ?thesis by (simp add: client_run_def)
qed

end

interpretation mem: cursor_store mem_load mem_save
  by unfold_locales (auto simp: mem_load_def mem_save_def)

section \<open>A session that is not disturbed\<close>

text \<open>The receive loop on a list of frames that all parse.\<close>

fun feed ::
  "(u64 \<Rightarrow> 's \<Rightarrow> (client_error + unit) \<times> 's) \<Rightarrow> handler \<Rightarrow> sub_server_msg list \<Rightarrow> 's run_state \<Rightarrow>
   (client_error + unit) \<times> 's run_state" where
  "feed save h [] st = (Inl ErrConnectionClosed, st)"
| "feed save h (m # ms) st =
     (case session_frame save h m st of
        (Fail e, st') \<Rightarrow> (Inl e, st')
      | (Return, st') \<Rightarrow> (Inr (), st')
      | (Continue, st') \<Rightarrow> feed save h ms st')"

definition text_items :: "string list \<Rightarrow> stream_item list" where
  "text_items ts = map (\<lambda>t. Got (WsText t)) ts"

lemma session_loop_feed:
  "map from_str ts = map Some ms \<Longrightarrow>
   session_loop from_str send_ok save h \<lparr>wr_items = text_items ts, wr_sent = sent\<rparr> st = feed save h ms st"
proof (induction ms arbitrary: ts st)
  case Nil
  then show ?case by (simp add: session_loop.simps recv_def text_items_def)
next
  case (Cons m ms)
  then obtain t ts' where ts: "ts = t # ts'" "from_str t = Some m" "map from_str ts' = map Some ms"
    by (cases ts) auto
  have "recv from_str send_ok \<lparr>wr_items = text_items ts, wr_sent = sent\<rparr> =
      (Inr m, \<lparr>wr_items = text_items ts', wr_sent = sent\<rparr>)"
    by (simp add: recv_def text_items_def ts parse_frame_def)
  then show ?case
    by (simp add: session_loop.simps [of from_str send_ok save h "\<lparr>wr_items = text_items ts, wr_sent = sent\<rparr>"]
        Cons.IH [OF ts(3)] split: prod.splits flow.splits)
qed

text \<open>What the cursor guard lets through.\<close>

fun accepted :: "u64 \<Rightarrow> stamped_event list \<Rightarrow> stamped_event list" where
  "accepted c [] = []"
| "accepted c (e # es) =
     (if c < st_seq e then e # accepted (st_seq e) es else accepted c es)"

lemma accepted_sorted:
  "sorted_wrt (<) (c # map st_seq es) \<Longrightarrow> accepted c es = es"
  by (induction es arbitrary: c) auto

lemma accepted_stale:
  "\<forall>e \<in> set es. st_seq e \<le> c \<Longrightarrow> accepted c es = []"
  by (induction es) (auto simp: not_less [symmetric])

lemma accepted_append:
  "accepted c (xs @ ys) = accepted c xs @ accepted (last (c # map st_seq (accepted c xs))) ys"
proof (induction xs arbitrary: c)
  case (Cons x xs)
  show ?case
  proof (cases "c < st_seq x")
    case True
    then show ?thesis using Cons.IH [of "st_seq x"] by simp
  next
    case False
    then show ?thesis using Cons.IH [of c] by simp
  qed
qed simp

text \<open>Identities agree with sequence numbers over the events that exist.\<close>

definition fresh_ids :: "stamped_event set \<Rightarrow> resume_state \<Rightarrow> bool" where
  "fresh_ids H r \<longleftrightarrow> inj_on st_id H \<and> (\<forall>e \<in> H. st_id e \<in> rs_seen r \<longrightarrow> st_seq e \<le> rs_cursor r)"

lemma fresh_ids_record:
  assumes "fresh_ids H r" and "e \<in> H"
  shows "fresh_ids H (record_event (st_id e) (st_seq e) r)"
proof -
  have "st_seq x \<le> max (rs_cursor r) (st_seq e)"
    if "x \<in> H" "st_id x \<in> rs_seen (record_event (st_id e) (st_seq e) r)" for x
  proof -
    have "st_id x = st_id e \<or> st_id x \<in> rs_seen r"
      using that(2) record_event_seen [of "st_id e" "st_seq e" r] by auto
    then show ?thesis
      using assms that(1) by (auto simp: fresh_ids_def le_max_iff_disj dest: inj_onD)
  qed
  with assms(1) show ?thesis by (simp add: fresh_ids_def)
qed

fun benign :: "sub_server_msg \<Rightarrow> bool" where
  "benign (Lagged _) = False"
| "benign (Closing _) = False"
| "benign _ = True"

fun event_of_msg :: "sub_server_msg \<Rightarrow> stamped_event list" where
  "event_of_msg (SubEvent e) = [e]"
| "event_of_msg _ = []"

lemma session_event_mem:
  assumes "\<And>calls c. h calls c" and "fresh_ids H (cr_resume st)" and "e \<in> H"
  shows "\<exists>st'. session_event mem_save h e st = (Continue, st') \<and> fresh_ids H (cr_resume st') \<and>
    handled (cr_calls st') = handled (cr_calls st) @ accepted (rs_cursor (cr_resume st)) [e] \<and>
    rs_cursor (cr_resume st') = max (rs_cursor (cr_resume st)) (st_seq e)"
proof (cases "rs_cursor (cr_resume st) < st_seq e")
  case True
  then have "should_process (st_id e) (st_seq e) (cr_resume st)"
    using assms(2,3) by (auto simp: should_process_def fresh_ids_def not_less [symmetric])
  with True assms fresh_ids_record show ?thesis
    by (simp add: session_event_def call_hook_def Let_def mem_save_def)
next
  case False
  with assms show ?thesis by (auto simp: session_event_def should_process_def max_def)
qed

lemma accepted_max:
  "accepted c [e] @ accepted (max c (st_seq e)) es = accepted c (e # es)"
  by (auto simp: max_def)

lemma feed_handled:
  assumes ok: "\<And>calls c. h calls c"
  shows "list_all benign ms \<Longrightarrow> fresh_ids H (cr_resume st) \<Longrightarrow> set (concat (map event_of_msg ms)) \<subseteq> H \<Longrightarrow>
    handled (cr_calls (snd (feed mem_save h ms st))) =
      handled (cr_calls st) @ accepted (rs_cursor (cr_resume st)) (concat (map event_of_msg ms))"
proof (induction ms arbitrary: st)
  case (Cons m ms)
  show ?case
  proof (cases "\<exists>e. m = SubEvent e")
    case True
    then obtain e where m: "m = SubEvent e" ..
    obtain st' where st': "session_event mem_save h e st = (Continue, st')"
      "fresh_ids H (cr_resume st')"
      "handled (cr_calls st') = handled (cr_calls st) @ accepted (rs_cursor (cr_resume st)) [e]"
      "rs_cursor (cr_resume st') = max (rs_cursor (cr_resume st)) (st_seq e)"
      using session_event_mem [of h H st e, OF ok Cons.prems(2)] Cons.prems(3) m by auto
    show ?thesis
      using Cons.IH [OF _ st'(2)] Cons.prems st' accepted_max [of "rs_cursor (cr_resume st)" e]
      by (simp add: m)
  next
    case False
    then have none: "event_of_msg m = []" by (cases m) auto
    have "\<exists>st'. session_frame mem_save h m st = (Continue, st') \<and> cr_resume st' = cr_resume st \<and>
        handled (cr_calls st') = handled (cr_calls st)"
      using False Cons.prems(1) ok by (cases m) (auto simp: call_hook_def)
    then obtain st' where "session_frame mem_save h m st = (Continue, st')"
      "cr_resume st' = cr_resume st" "handled (cr_calls st') = handled (cr_calls st)" by blast
    then show ?thesis using Cons.IH [of st'] Cons.prems none by simp
  qed
qed simp

section \<open>Properties\<close>

lemma covered_handled:
  assumes inv: "calls_inv h c0 calls" and cov: "covered h c0 calls c"
    and n: "n < length calls" "calls ! n = OnEvent e" "st_seq e \<le> c"
  shows "h (take n calls) (OnEvent e)"
proof (cases "Suc n < length calls")
  case True
  with inv n(2) show ?thesis by (metis calls_inv_def)
next
  case False
  with n(1) obtain front where calls: "calls = front @ [OnEvent e]" "n = length front"
    by (metis Suc_lessI append_butlast_last_id diff_Suc_1 last_conv_nth length_butlast
        list.size(3) n(2) not_less_zero)
  have "sorted_wrt (<) ((c0 # map st_seq (handled front)) @ [st_seq e])"
    using inv by (simp add: calls_inv_def calls)
  then have lt: "\<forall>x \<in> set (c0 # map st_seq (handled front)). x < st_seq e"
    by (simp only: sorted_wrt_append) auto
  with n(3) cov obtain m e' where m: "m < length calls" "calls ! m = OnEvent e'"
      "h (take m calls) (OnEvent e')" "c = st_seq e'"
    by (auto simp: covered_def)
  show ?thesis
  proof (cases "m = n")
    case True
    with m n(2) show ?thesis by simp
  next
    case False
    with m calls have "m < length front" "front ! m = OnEvent e'" by (auto simp: nth_append less_Suc_eq)
    then have "OnEvent e' \<in> set front" by (metis nth_mem)
    then have "e' \<in> set (handled front)"
      by (induction front) (auto simp: handled_def split: option.splits)
    with lt m(4) n(3) show ?thesis by auto
  qed
qed

text \<open>
  C3: the handler sees every event at most once and in sequence order, over any number of
  reconnects and whatever frames the server sends (duplicates, repeats, out of order): the
  numbers of the events handed to it rise strictly and lie above the cursor the run started
  from, and no call follows one that failed.
\<close>

theorem client_at_most_once_in_order:
  assumes "load store = Inr c0" and "client_run env load save h self nets store = (res, st)"
  shows "sorted_wrt (<) (c0 # map st_seq (handled (cr_calls st))) \<and>
    (\<forall>n. Suc n < length (cr_calls st) \<longrightarrow> h (take n (cr_calls st)) (cr_calls st ! n))"
proof -
  have "calls_inv h c0 (cr_calls st)"
    using going_rounds [OF going_start] assms by (fastforce simp: client_run_def)
  then show ?thesis by (simp add: calls_inv_def)
qed

text \<open>
  C4: at least once.  With the library's store, the cursor it would load after a restart, at
  whatever point the run stopped, lies behind every event whose handling did not succeed:
  every event handed over with a number up to the stored cursor was handled successfully, so
  what failed is asked for again.
\<close>

theorem client_at_least_once:
  assumes "mem_load store = Inr c0" and "client_run env mem_load mem_save h self nets store = (res, st)"
  shows "\<exists>c. mem_load (cr_store st) = Inr c \<and>
    (\<forall>n e. n < length (cr_calls st) \<longrightarrow> cr_calls st ! n = OnEvent e \<longrightarrow> st_seq e \<le> c \<longrightarrow>
       h (take n (cr_calls st)) (OnEvent e))"
proof -
  have "calls_inv h c0 (cr_calls st)"
    using going_rounds [OF going_start] assms by (fastforce simp: client_run_def)
  moreover obtain c where "mem_load (cr_store st) = Inr c" "covered h c0 (cr_calls st) c"
    using mem.run_persisted [OF assms] by (auto simp: mem.persisted_def)
  ultimately show ?thesis using covered_handled by blast
qed


definition sample_env :: env where
  "sample_env = \<lparr>en_url_err = (\<lambda>_. None), en_header_ok = (\<lambda>_. True),
     en_from_str = (\<lambda>t. if t = ''w'' then Some (Welcome ''n'')
       else Some (SubEvent \<lparr>st_seq = of_nat (length t), st_id = of_nat (length t), st_ts_ms = 0,
                            st_channel = ''a'', st_payload_b64 = []\<rparr>)),
     en_to_text = (\<lambda>_. ''s''), en_send_ok = (\<lambda>_. True),
     en_powi = (\<lambda>x n. f64_of_rat (power_int (f64_value x) n))\<rparr>"

definition sample_client :: client where
  "sample_client = fst (builder_build (builder_pattern ''a'' (Client_builder ''ws://h'' ''tok'' :: mem_store client_builder)))"

definition sample_nets :: "(connect_result \<times> f64) list" where
  "sample_nets = [(Connected (text_items [''w'', ''ee'', ''eee'', ''ee'']), Finite 0), (ConnFailed, Finite (1 / 2)),
     (Connected (text_items [''w'', ''eee'', ''eeee'']), Finite (1 / 4))]"

text \<open>A handler that refuses the event numbered 4.\<close>

definition sample_handler :: handler where
  "sample_handler calls c = (case c of OnEvent e \<Rightarrow> st_seq e \<noteq> 4 | _ \<Rightarrow> True)"

theorem client_at_most_once_in_order_witness:
  "case client_run sample_env mem_load mem_save sample_handler sample_client sample_nets
          (MemoryCursorStore_new 1) of
     (res, st) \<Rightarrow> sorted_wrt (<) (1 # map st_seq (handled (cr_calls st)))"
proof -
  have "mem_load (MemoryCursorStore_new 1) = Inr 1"
    by (simp add: mem_load_def MemoryCursorStore_new_def)
  from client_at_most_once_in_order [of mem_load, OF this] show ?thesis by (auto split: prod.splits)
qed

theorem client_at_least_once_witness:
  "case client_run sample_env mem_load mem_save sample_handler sample_client sample_nets
          (MemoryCursorStore_new 1) of
     (res, st) \<Rightarrow> \<exists>c. mem_load (cr_store st) = Inr c \<and>
       (\<forall>n e. n < length (cr_calls st) \<longrightarrow> cr_calls st ! n = OnEvent e \<longrightarrow> st_seq e \<le> c \<longrightarrow> st_seq e \<noteq> 4)"
proof -
  have "mem_load (MemoryCursorStore_new 1) = Inr 1"
    by (simp add: mem_load_def MemoryCursorStore_new_def)
  from client_at_least_once [OF this, of sample_env sample_handler sample_client sample_nets]
  show ?thesis by (force simp: sample_handler_def split: prod.splits)
qed


end
