(* ===== verification/End_To_End.thy ===== *)
theory End_To_End
  imports Sub_Kit
begin

text \<open>
  The server's subscriber plane and the client library together: what a client's handler sees of
  what is published, through the registry, the durable log, the outbound queue, the connection's
  loop, the socket and the client's receive loop.
\<close>

section \<open>A subscribed connection at work\<close>

record batch =
  b_mint :: "nat \<Rightarrow> uuid"
  b_now :: u64
  b_now2 :: u64
  b_events :: "event list"

text \<open>
  A connection, the registry, and the fan-outs in flight: for each fan-out that has stamped and
  committed its batch, in the order of the stamps, the frames it has not pushed yet.  Fan-outs of
  several extensions run at once: between the commit of a batch and the push of each of its frames
  any other task may run, because delivery holds only a shared read lock.  The acts are the commit
  of a batch, the push of the next frame of one of the fan-outs in flight, a pop of the queue by the
  connection's task (that arm of the select loop reads no input and no log), and a run of the pruner.
\<close>

type_synonym plane = "conn \<times> registry \<times> stamped_event list list"

datatype act = Stamp batch | Push nat | Pop | PruneLog u64 bool

fun perform ::
  "(stored_event \<Rightarrow> string option) \<Rightarrow> (string \<Rightarrow> stored_event option) \<Rightarrow> (sub_server_msg \<Rightarrow> string option) \<Rightarrow>
   act \<Rightarrow> plane \<Rightarrow> plane" where
  "perform enc dec to_string (Stamp b) (c, r, fl) =
     (if b_events b = [] then (c, r, fl)
      else (case fanout_stamp enc (b_mint b) True (b_now b) (b_now2 b) (b_events b) r of
              (frames, r') \<Rightarrow> (c, r', fl @ [frames])))"
| "perform enc dec to_string (Push i) (c, r, fl) =
     (if i < length fl
      then (case fl ! i of
              [] \<Rightarrow> (c, r, fl)
            | f # fs \<Rightarrow> (c, r\<lparr>rg_subscribers := deliver to_string f (rg_subscribers r)\<rparr>, fl[i := fs]))
      else (c, r, fl))"
| "perform enc dec to_string Pop (c, r, fl) =
     (case socket_step (\<lambda>_. None) to_string (\<lambda>_. None) (\<lambda>_. True) (empty_log, empty_log, empty_log) PopReady
        (c, r) of (c', r') \<Rightarrow> (c', r', fl))"
| "perform enc dec to_string (PruneLog now db_ok) (c, r, fl) =
     (c, r\<lparr>rg_delivery := map_option (\<lambda>l. snd (prune_blocking dec db_ok now l)) (rg_delivery r)\<rparr>, fl)"

text \<open>A whole fan-out is its stamp and the pushes of its frames.\<close>

lemma pushes_deliver:
  "fold (perform enc dec to_string) (replicate (length frames) (Push (length fl))) (c, r, fl @ [frames]) =
     (c, fanout_deliver to_string frames r, fl @ [[]])"
  by (induction frames arbitrary: r) (simp_all add: fanout_deliver_def)

lemma fanout_as_acts:
  assumes "b_events b \<noteq> []"
    and "fanout_stamp enc (b_mint b) True (b_now b) (b_now2 b) (b_events b) r = (frames, r')"
  shows "fold (perform enc dec to_string) (Stamp b # replicate (length frames) (Push (length fl))) (c, r, fl) =
    (c, fanout enc to_string (b_mint b) True (b_now b) (b_now2 b) (b_events b) r, fl @ [[]])"
  using assms pushes_deliver by (simp add: fanout_def)

definition batch_room :: "(stored_event \<Rightarrow> string option) \<Rightarrow> batch \<Rightarrow> registry \<Rightarrow> bool" where
  "batch_room enc b r \<longleftrightarrow>
     (case rg_delivery r of None \<Rightarrow> False | Some l \<Rightarrow> room enc (b_mint b) (b_events b) (b_now b) l)"

text \<open>
  A push overtakes when the connection wants the frame and also wants one that an earlier fan-out
  still holds: the server allows it, and it loses the earlier event for a client that filters by
  cursor.
\<close>

definition overtakes :: "nat \<Rightarrow> plane \<Rightarrow> bool" where
  "overtakes i = (\<lambda>(c, r, fl).
     (case hget (rg_subscribers r) (cn_id c) of
        None \<Rightarrow> False
      | Some s \<Rightarrow> i < length fl \<and> fl ! i \<noteq> [] \<and> wanted (Some (sub_patterns s)) (hd (fl ! i)) \<and>
          list_ex (wanted (Some (sub_patterns s))) (concat (take i fl))))"

text \<open>The log has room for every batch, and no push overtakes.\<close>

fun orderly ::
  "(stored_event \<Rightarrow> string option) \<Rightarrow> (string \<Rightarrow> stored_event option) \<Rightarrow> (sub_server_msg \<Rightarrow> string option) \<Rightarrow>
   act list \<Rightarrow> plane \<Rightarrow> bool" where
  "orderly enc dec to_string [] st = True"
| "orderly enc dec to_string (x # xs) st =
     ((case x of Stamp b \<Rightarrow> batch_room enc b (fst (snd st)) | Push i \<Rightarrow> \<not> overtakes i st | _ \<Rightarrow> True) \<and>
      orderly enc dec to_string xs (perform enc dec to_string x st))"

text \<open>What the acts commit, in order.\<close>

fun stamped_in ::
  "(stored_event \<Rightarrow> string option) \<Rightarrow> (string \<Rightarrow> stored_event option) \<Rightarrow> (sub_server_msg \<Rightarrow> string option) \<Rightarrow>
   act list \<Rightarrow> plane \<Rightarrow> stamped_event list" where
  "stamped_in enc dec to_string [] st = []"
| "stamped_in enc dec to_string (x # xs) st =
     (case x of
        Stamp b \<Rightarrow> if b_events b = [] then []
          else fst (fanout_stamp enc (b_mint b) True (b_now b) (b_now2 b) (b_events b) (fst (snd st)))
      | _ \<Rightarrow> []) @ stamped_in enc dec to_string xs (perform enc dec to_string x st)"

lemma orderly_append:
  "orderly enc dec to_string (xs @ ys) st \<longleftrightarrow>
     orderly enc dec to_string xs st \<and> orderly enc dec to_string ys (fold (perform enc dec to_string) xs st)"
  by (induction xs arbitrary: st) auto

lemma stamped_in_append:
  "stamped_in enc dec to_string (xs @ ys) st = stamped_in enc dec to_string xs st @
     stamped_in enc dec to_string ys (fold (perform enc dec to_string) xs st)"
  by (induction xs arbitrary: st) auto

section \<open>One pop\<close>

text \<open>The queue without its front frame, its lag notice taken.\<close>

definition popped :: "frame \<Rightarrow> frame list \<Rightarrow> outbound_queue \<Rightarrow> outbound_queue" where
  "popped f fs q = q\<lparr>q_frames := fs, q_lag_pending := 0,
     q_delivered := (if fr_is_event f then q_delivered q + 1 else q_delivered q)\<rparr>"

definition lag_notice :: "(sub_server_msg \<Rightarrow> string option) \<Rightarrow> outbound_queue \<Rightarrow> ws_message list" where
  "lag_notice to_string q =
     (if q_frames q = [] \<or> q_lag_pending q = 0 then []
      else [WsText (ws_encode to_string (Lagged (of_nat (q_lag_pending q))))])"

lemma pop_step:
  assumes "cn_open c" and "hget (rg_subscribers r) (cn_id c) = Some s" and "q_frames (sub_queue s) = f # fs"
  obtains r' where
    "socket_step from_str to_string dec (\<lambda>_. True) snaps PopReady (c, r) =
       (c\<lparr>cn_sent := cn_sent c @ lag_notice to_string (sub_queue s) @ [WsText (fr_text f)],
          cn_open := \<not> fr_closing f\<rparr>, r')"
    "rg_delivery r' = rg_delivery r"
    "hget (rg_subscribers r') (cn_id c) =
       (if fr_closing f then None else Some (s\<lparr>sub_queue := popped f fs (sub_queue s)\<rparr>))"
proof -
  define st' where "st' = socket_step from_str to_string dec (\<lambda>_. True) snaps PopReady (c, r)"
  have "fst st' = c\<lparr>cn_sent := cn_sent c @ lag_notice to_string (sub_queue s) @ [WsText (fr_text f)],
      cn_open := \<not> fr_closing f\<rparr>"
    "rg_delivery (snd st') = rg_delivery r"
    "hget (rg_subscribers (snd st')) (cn_id c) =
       (if fr_closing f then None else Some (s\<lparr>sub_queue := popped f fs (sub_queue s)\<rparr>))"
    using assms
    by (auto simp: st'_def socket_step_def pop_def socket_pop_def take_pending_lag_def lag_notice_def popped_def
        sink_send_def socket_break_def registry_remove_def hm_simps Let_def)
  with that [of "snd st'"] show thesis unfolding st'_def by (metis prod.collapse)
qed

lemma pop_step_empty:
  "hget (rg_subscribers r) (cn_id c) = Some s \<Longrightarrow> q_frames (sub_queue s) = [] \<Longrightarrow>
   socket_step from_str to_string dec sink_ok snaps PopReady (c, r) = (c, r)"
  by (simp add: socket_step_def pop_def)

lemma pop_step_closed:
  "\<not> cn_open c \<Longrightarrow> socket_step from_str to_string dec sink_ok snaps arm (c, r) = (c, r)"
  by (simp add: socket_step_def)

section \<open>What the connection has sent or still queues\<close>

definition outgoing :: "conn \<Rightarrow> subscriber \<Rightarrow> ws_message list" where
  "outgoing c s = cn_sent c @ map (WsText \<circ> fr_text) (q_frames (sub_queue s))"

definition serving :: "(stored_event \<Rightarrow> string option) \<Rightarrow> (string \<Rightarrow> stored_event option) \<Rightarrow> shared \<Rightarrow>
    subscriber \<Rightarrow> conn \<times> registry \<Rightarrow> bool" where
  "serving enc dec l s st \<longleftrightarrow> (case st of (c, r) \<Rightarrow>
     cn_open c \<and> rg_delivery r = Some l \<and> log_inv enc dec l \<and> hget (rg_subscribers r) (cn_id c) = Some s \<and>
     list_all (\<lambda>f. \<not> fr_closing f) (q_frames (sub_queue s)) \<and>
     q_lag_pending (sub_queue s) \<le> q_dropped (sub_queue s))"

lemma push_event_dropped: "q_dropped q \<le> q_dropped (push_event q t)"
  by (cases rule: push_event_cases [of q t]) (simp_all add: record_drop_def evicted_def)

lemma push_event_clean:
  assumes "q_dropped (push_event q t) = q_dropped q"
  shows "push_event q t = q\<lparr>q_frames := q_frames q @ [event_frame t]\<rparr>"
proof (cases rule: push_event_cases [of q t])
  case oversized
  then show ?thesis using assms by (simp add: record_drop_def)
next
  case (queued k)
  then have "k = 0" using assms by (simp add: evicted_def)
  with queued show ?thesis by simp
qed

lemma push_event_keeps:
  "q_lag_pending q \<le> q_dropped q \<Longrightarrow> q_lag_pending (push_event q t) \<le> q_dropped (push_event q t)"
  "list_all (\<lambda>f. \<not> fr_closing f) (q_frames q) \<Longrightarrow> list_all (\<lambda>f. \<not> fr_closing f) (q_frames (push_event q t))"
proof -
  have "list_all P (drop_events k fs)" if "list_all P fs" for P k fs
    using that by (induction k fs rule: drop_events.induct) auto
  then show "list_all (\<lambda>f. \<not> fr_closing f) (q_frames q) \<Longrightarrow> list_all (\<lambda>f. \<not> fr_closing f) (q_frames (push_event q t))"
    by (cases rule: push_event_cases [of q t]) (simp_all add: record_drop_def event_frame_def)
qed (cases rule: push_event_cases [of q t]; simp add: record_drop_def evicted_def)

abbreviation push_all :: "string list \<Rightarrow> outbound_queue \<Rightarrow> outbound_queue" where
  "push_all \<equiv> fold (\<lambda>t q. push_event q t)"

lemma push_all_dropped: "q_dropped q \<le> q_dropped (push_all ts q)"
  by (induction ts arbitrary: q) (auto intro: order_trans push_event_dropped)

lemma push_all_clean:
  "q_dropped (push_all ts q) = q_dropped q \<Longrightarrow> q_frames (push_all ts q) = q_frames q @ map event_frame ts"
proof (induction ts arbitrary: q)
  case (Cons t ts)
  have "q_dropped (push_event q t) = q_dropped q"
    using Cons.prems push_event_dropped [of q t] push_all_dropped [of "push_event q t" ts] by simp
  with Cons push_event_clean [of q t] show ?case by simp
qed simp

lemma push_all_keeps:
  "q_lag_pending q \<le> q_dropped q \<Longrightarrow> q_lag_pending (push_all ts q) \<le> q_dropped (push_all ts q)"
  "list_all (\<lambda>f. \<not> fr_closing f) (q_frames q) \<Longrightarrow> list_all (\<lambda>f. \<not> fr_closing f) (q_frames (push_all ts q))"
  by (induction ts arbitrary: q) (simp_all add: push_event_keeps)

lemma outgoing_offered:
  assumes "q_dropped (sub_queue (offered_all to_string ss s)) = q_dropped (sub_queue s)"
  shows "outgoing c (offered_all to_string ss s) =
    outgoing c s @ map WsText (live_texts to_string (sub_patterns s) ss)"
  using push_all_clean [of "live_texts to_string (sub_patterns s) ss" "sub_queue s"] assms
  by (simp add: outgoing_def offered_all_def)

lemma sorted_view: "log_inv enc dec l \<Longrightarrow> sorted_wrt (<) (map st_seq (view dec l))"
proof (cases "view dec l = []")
  case False
  assume "log_inv enc dec l"
  then have "map unat (map st_seq (view dec l)) = [unat (sh_floor l) ..< unat (sh_head l) + 1]"
    using dl.window [of enc dec l] False by (simp add: comp_def)
  then have "sorted_wrt (<) (map unat (map st_seq (view dec l)))" by (simp only: sorted_wrt_upt)
  then show ?thesis by (simp add: sorted_wrt_map word_less_nat_alt del: list.map_comp map_map)
qed simp

text \<open>
  How far the acts have brought the connection and the log.  As long as nothing has been dropped,
  what was sent, is queued and is still in flight grows by exactly the wanted events, in log order.
\<close>

definition progressed ::
  "(stored_event \<Rightarrow> string option) \<Rightarrow> (string \<Rightarrow> stored_event option) \<Rightarrow> (sub_server_msg \<Rightarrow> string option) \<Rightarrow>
   stamped_event list \<Rightarrow> (conn \<times> stamped_event list list) \<times> subscriber \<times> shared \<Rightarrow>
   (conn \<times> stamped_event list list) \<times> subscriber \<times> shared \<Rightarrow> bool" where
  "progressed enc dec to_string ss = (\<lambda>((c, fl), s, l) ((c', fl'), s', l').
     cn_id c' = cn_id c \<and> sub_patterns s' = sub_patterns s \<and> (log_step enc dec)\<^sup>*\<^sup>* l l' \<and>
     (\<exists>k. view dec l' = drop k (view dec l @ ss)) \<and> sorted_wrt (<) (map st_seq ss) \<and>
     (\<forall>e \<in> set ss. sh_head l < st_seq e \<and> st_seq e \<le> sh_head l') \<and> sh_head l \<le> sh_head l' \<and>
     q_dropped (sub_queue s) \<le> q_dropped (sub_queue s') \<and>
     (q_dropped (sub_queue s') = 0 \<longrightarrow>
        outgoing c' s' @ map WsText (live_texts to_string (sub_patterns s) (concat fl')) =
        outgoing c s @ map WsText (live_texts to_string (sub_patterns s) (concat fl @ ss))))"

lemma progressed_refl: "progressed enc dec to_string [] x x"
proof -
  have "\<exists>k. v = drop k v" for v :: "stamped_event list" by (rule exI [of _ 0]) simp
  then show ?thesis by (auto simp: progressed_def)
qed

lemma drop_chain: "\<exists>k''. drop k' (drop k v @ ss) = drop k'' (v @ ss)"
proof (cases "k \<le> length v")
  case True
  then have "drop k v @ ss = drop k (v @ ss)" by simp
  then show ?thesis by (metis drop_drop)
next
  case False
  then have "drop k' (drop k v @ ss) = drop (k' + length v) (v @ ss)" by simp
  then show ?thesis by blast
qed

lemma progressed_trans:
  assumes "progressed enc dec to_string ss x y" and "progressed enc dec to_string ss' y z"
  shows "progressed enc dec to_string (ss @ ss') x z"
proof -
  obtain c fl s l c1 fl1 s1 l1 c2 fl2 s2 l2 where
    eq: "x = ((c, fl), s, l)" "y = ((c1, fl1), s1, l1)" "z = ((c2, fl2), s2, l2)"
    by (cases x; cases y; cases z) (metis prod.collapse)
  obtain k where "view dec l1 = drop k (view dec l @ ss)"
    using assms(1) unfolding progressed_def eq prod.case by blast
  moreover obtain k' where "view dec l2 = drop k' (view dec l1 @ ss')"
    using assms(2) unfolding progressed_def eq prod.case by blast
  ultimately have "\<exists>k. view dec l2 = drop k (view dec l @ ss @ ss')"
    using drop_chain [of k' k "view dec l @ ss" ss'] by (simp only: append_assoc)
  moreover have "sorted_wrt (<) (map st_seq (ss @ ss'))"
    using assms by (fastforce simp: progressed_def eq sorted_wrt_append intro: le_less_trans)
  moreover have "(log_step enc dec)\<^sup>*\<^sup>* l l2"
    using assms rtranclp_trans [of "log_step enc dec" l l1 l2] by (auto simp: progressed_def eq)
  moreover have "\<forall>e \<in> set (ss @ ss'). sh_head l < st_seq e \<and> st_seq e \<le> sh_head l2"
    using assms by (auto simp: progressed_def eq intro: order_trans le_less_trans)
  moreover have "q_dropped (sub_queue s2) = 0 \<longrightarrow>
      outgoing c2 s2 @ map WsText (live_texts to_string (sub_patterns s) (concat fl2)) =
      outgoing c s @ map WsText (live_texts to_string (sub_patterns s) (concat fl @ ss @ ss'))"
    using assms by (simp add: progressed_def eq)
  moreover have "cn_id c2 = cn_id c" "sub_patterns s2 = sub_patterns s" "sh_head l \<le> sh_head l2"
      "q_dropped (sub_queue s) \<le> q_dropped (sub_queue s2)"
    using assms by (auto simp: progressed_def eq)
  ultimately show ?thesis unfolding progressed_def eq prod.case by blast
qed

section \<open>One act\<close>

lemma stamp_serving:
  assumes sv: "serving enc dec l s (c, r)" and room: "batch_room enc b r" and ne: "b_events b \<noteq> []"
    and st: "fanout_stamp enc (b_mint b) True (b_now b) (b_now2 b) (b_events b) r = (ss, r')"
  obtains l' where "serving enc dec l' s (c, r')" "progressed enc dec to_string ss ((c, fl), s, l) ((c, fl @ [ss]), s, l')"
proof -
  define l' where "l' = snd (append_blocking enc (b_mint b) True (b_events b) (b_now b) l)"
  have l: "rg_delivery r = Some l" "log_inv enc dec l" using sv by (simp_all add: serving_def)
  have rm: "room enc (b_mint b) (b_events b) (b_now b) l" using room l(1) by (simp add: batch_room_def)
  have ss: "ss = stamped_batch (sh_head l) (b_mint b) (b_now b) 0 (b_events b)"
    and r': "r' = r\<lparr>rg_delivery := Some l'\<rparr>"
    using st l(1) ne append_blocking_eq [OF l(2) rm ne] by (auto simp: fanout_stamp_def append_def l'_def)
  have l': "log_inv enc dec l'" unfolding l'_def by (rule log_inv_append_blocking [OF l(2) rm ne])
  have view: "view dec l' = view dec l @ ss"
    unfolding l'_def ss by (rule view_append_blocking [OF l(2) rm ne])
  have "log_step enc dec l l'"
    using Append [OF rm, of dec True] ne by (simp add: l'_def append_def)
  moreover have "\<forall>e \<in> set ss. sh_head l < st_seq e"
    using batch_past_head [of "sh_head l" "b_events b"] rm by (auto simp: ss room_def)
  moreover have "\<forall>e \<in> set ss. st_seq e \<le> sh_head l'" using dl.view_le_head [OF l'] by (simp add: view)
  moreover have "sorted_wrt (<) (map st_seq ss)"
    using sorted_view [OF l'] by (simp add: view sorted_wrt_append)
  moreover have "sh_head l \<le> sh_head l'"
    using unat_head_append_blocking [OF l(2) rm ne] by (simp add: l'_def word_le_nat_alt)
  moreover have "\<exists>k. view dec l' = drop k (view dec l @ ss)" by (rule exI [of _ 0]) (simp add: view)
  ultimately have "progressed enc dec to_string ss ((c, fl), s, l) ((c, fl @ [ss]), s, l')"
    by (simp add: progressed_def)
  moreover have "serving enc dec l' s (c, r')" using sv l' by (simp add: serving_def r')
  ultimately show thesis using that by blast
qed

text \<open>A push that does not overtake takes the first wanted frame of those in flight.\<close>

lemma push_in_order:
  assumes "i < length fl" and "fl ! i = f # fs"
    and "wanted (Some ps) f \<longrightarrow> \<not> list_ex (wanted (Some ps)) (concat (take i fl))"
  shows "live_texts to_string ps [f] @ live_texts to_string ps (concat (fl[i := fs])) =
    live_texts to_string ps (concat fl)"
proof -
  have none: "live_texts to_string ps xs = []" if "\<not> list_ex (wanted (Some ps)) xs" for xs
    using that by (induction xs) (auto simp: live_texts_Cons wanted_def)
  have "fl = take i fl @ (f # fs) # drop (Suc i) fl"
    using assms(1,2) by (metis id_take_nth_drop)
  then have "concat fl = concat (take i fl) @ (f # fs) @ concat (drop (Suc i) fl)"
    by (metis concat.simps(2) concat_append)
  moreover have "concat (fl[i := fs]) = concat (take i fl) @ fs @ concat (drop (Suc i) fl)"
    using assms(1) by (simp add: upd_conv_take_nth_drop)
  moreover have "live_texts to_string ps [f] = [] \<or> live_texts to_string ps (concat (take i fl)) = []"
    using assms(3) none [of "[f]"] none [of "concat (take i fl)"] by auto
  moreover have "live_texts to_string ps ((f # fs) @ ys) = live_texts to_string ps [f] @ live_texts to_string ps (fs @ ys)" for ys
    by (simp add: live_texts_Cons)
  ultimately show ?thesis by (elim disjE) simp_all
qed

lemma push_serving:
  assumes sv: "serving enc dec l s (c, r)" and i: "i < length fl" "fl ! i = f # fs"
    and ord: "\<not> overtakes i (c, r, fl)"
  shows "serving enc dec l (offered_all to_string [f] s) (c, r\<lparr>rg_subscribers := deliver to_string f (rg_subscribers r)\<rparr>)"
    and "progressed enc dec to_string [] ((c, fl), s, l) ((c, fl[i := fs]), offered_all to_string [f] s, l)"
proof -
  let ?s = "offered_all to_string [f] s"
  show "serving enc dec l ?s (c, r\<lparr>rg_subscribers := deliver to_string f (rg_subscribers r)\<rparr>)"
    using sv push_all_keeps by (simp add: serving_def hget_deliver offered_all_def)
  have mono: "q_dropped (sub_queue s) \<le> q_dropped (sub_queue ?s)"
    using push_all_dropped by (simp add: offered_all_def)
  have "wanted (Some (sub_patterns s)) f \<longrightarrow> \<not> list_ex (wanted (Some (sub_patterns s))) (concat (take i fl))"
    using ord sv i by (auto simp: overtakes_def serving_def)
  note texts = push_in_order [OF i this, of to_string]
  have "outgoing c ?s @ map WsText (live_texts to_string (sub_patterns s) (concat (fl[i := fs]))) =
      outgoing c s @ map WsText (live_texts to_string (sub_patterns s) (concat fl))" if "q_dropped (sub_queue ?s) = 0"
    using outgoing_offered [of to_string "[f]" s c] that mono texts by (simp flip: texts)
  moreover have "\<exists>k. view dec l = drop k (view dec l)" by (rule exI [of _ 0]) simp
  ultimately show "progressed enc dec to_string [] ((c, fl), s, l) ((c, fl[i := fs]), ?s, l)"
    using mono by (simp add: progressed_def offered_all_def)
qed

lemma pop_serving:
  assumes sv: "serving enc dec l s (c, r)"
    and step: "socket_step from_str to_string dec' (\<lambda>_. True) snaps PopReady (c, r) = (c', r')"
  obtains s' where "serving enc dec l s' (c', r')" "progressed enc dec to_string' [] ((c, fl), s, l) ((c', fl), s', l)"
proof (cases "q_frames (sub_queue s)")
  case Nil
  then have "c' = c" "r' = r" using sv step pop_step_empty [of r c s] by (auto simp: serving_def)
  with sv show thesis using that [of s] by (simp add: progressed_refl)
next
  case (Cons f fs)
  have open': "cn_open c" "hget (rg_subscribers r) (cn_id c) = Some s" "\<not> fr_closing f"
    using sv Cons by (auto simp: serving_def)
  obtain r1 where 1: "socket_step from_str to_string dec' (\<lambda>_. True) snaps PopReady (c, r) =
      (c\<lparr>cn_sent := cn_sent c @ lag_notice to_string (sub_queue s) @ [WsText (fr_text f)],
         cn_open := \<not> fr_closing f\<rparr>, r1)" "rg_delivery r1 = rg_delivery r"
    "hget (rg_subscribers r1) (cn_id c) =
       (if fr_closing f then None else Some (s\<lparr>sub_queue := popped f fs (sub_queue s)\<rparr>))"
    by (rule pop_step [OF open'(1,2) Cons])
  have "\<exists>k. view dec l = drop k (view dec l)" by (rule exI [of _ 0]) simp
  with sv step 1 Cons open' show thesis
    by (intro that [of "s\<lparr>sub_queue := popped f fs (sub_queue s)\<rparr>"])
      (auto simp: serving_def progressed_def popped_def outgoing_def lag_notice_def)
qed

lemma prune_serving:
  assumes sv: "serving enc dec l s (c, r)" and l'_def: "l' = snd (prune_blocking dec db_ok now l)"
  shows "serving enc dec l' s (c, r\<lparr>rg_delivery := Some l'\<rparr>)"
    and "progressed enc dec to_string [] ((c, fl), s, l) ((c, fl), s, l')"
proof -
  have inv: "log_inv enc dec l" using sv by (simp add: serving_def)
  have step: "log_step enc dec l l'" unfolding l'_def by (rule Prune)
  have "sh_head l' = sh_head l \<and> (\<exists>k. view dec l' = drop k (view dec l))"
  proof (cases db_ok)
    case True
    obtain k where "sh_table (snd (prune_blocking dec True now l)) = drop k (sh_table l)"
      "sh_head (snd (prune_blocking dec True now l)) = sh_head l"
      by (rule prune_blocking_least [OF inv, of now]) (rule that)
    with True show ?thesis by (auto simp: l'_def view_def drop_map)
  next
    case False
    have "\<exists>k. view dec l = drop k (view dec l)" by (rule exI [of _ 0]) simp
    with False show ?thesis by (simp add: l'_def prune_failed)
  qed
  with step show "progressed enc dec to_string [] ((c, fl), s, l) ((c, fl), s, l')"
    by (auto simp: progressed_def)
  show "serving enc dec l' s (c, r\<lparr>rg_delivery := Some l'\<rparr>)"
    using sv log_step_keeps [OF inv step] by (simp add: serving_def)
qed

lemma performed_once:
  assumes sv: "serving enc dec l s (c, r)" and ord: "orderly enc dec to_string [x] (c, r, fl)"
  obtains c' r' fl' l' s' where "perform enc dec to_string x (c, r, fl) = (c', r', fl')"
    "serving enc dec l' s' (c', r')"
    "progressed enc dec to_string (stamped_in enc dec to_string [x] (c, r, fl)) ((c, fl), s, l) ((c', fl'), s', l')"
proof (cases x)
  case (Stamp b)
  show thesis
  proof (cases "b_events b = []")
    case True
    with Stamp sv show thesis using that [of c r fl l s] by (simp add: progressed_refl)
  next
    case False
    obtain ss r' where st: "fanout_stamp enc (b_mint b) True (b_now b) (b_now2 b) (b_events b) r = (ss, r')"
      by (metis prod.collapse)
    have "batch_room enc b r" using ord Stamp by simp
    from sv this False st obtain l' where
      "serving enc dec l' s (c, r')" "progressed enc dec to_string ss ((c, fl), s, l) ((c, fl @ [ss]), s, l')"
      by (rule stamp_serving)
    with Stamp False st show thesis using that [of c r' "fl @ [ss]" l' s] by simp
  qed
next
  case (Push i)
  show thesis
  proof (cases "i < length fl \<and> fl ! i \<noteq> []")
    case True
    then obtain f fs where f: "i < length fl" "fl ! i = f # fs" by (metis neq_Nil_conv)
    have "\<not> overtakes i (c, r, fl)" using ord Push by simp
    from push_serving [OF sv f this, where to_string = to_string] Push f show thesis
      by (intro that [of c "r\<lparr>rg_subscribers := deliver to_string f (rg_subscribers r)\<rparr>" "fl[i := fs]" l
            "offered_all to_string [f] s"]) simp_all
  next
    case False
    then have "perform enc dec to_string x (c, r, fl) = (c, r, fl)" using Push by (auto split: list.splits)
    with Push sv show thesis using that [of c r fl l s] by (simp add: progressed_refl)
  qed
next
  case Pop
  obtain c' r' where step: "socket_step (\<lambda>_. None) to_string (\<lambda>_. None) (\<lambda>_. True)
      (empty_log, empty_log, empty_log) PopReady (c, r) = (c', r')" by (metis prod.collapse)
  obtain s' where "serving enc dec l s' (c', r')"
    "progressed enc dec to_string [] ((c, fl), s, l) ((c', fl), s', l)"
    by (rule pop_serving [OF sv step])
  with Pop step show thesis using that [of c' r' fl l s'] by simp
next
  case (PruneLog now db_ok)
  have "rg_delivery r = Some l" using sv by (simp add: serving_def)
  with PruneLog prune_serving(1) [OF sv refl, of db_ok now]
    prune_serving(2) [OF sv refl, where db_ok = db_ok and now = now and to_string = to_string and fl = fl] show thesis
    by (intro that [of c "r\<lparr>rg_delivery := Some (snd (prune_blocking dec db_ok now l))\<rparr>" fl
          "snd (prune_blocking dec db_ok now l)" s]) simp_all
qed

lemma performed_serving:
  assumes "serving enc dec l s (c, r)" and "orderly enc dec to_string xs (c, r, fl)"
    and "fold (perform enc dec to_string) xs (c, r, fl) = (c', r', fl')"
  obtains l' s' where "serving enc dec l' s' (c', r')"
    "progressed enc dec to_string (stamped_in enc dec to_string xs (c, r, fl)) ((c, fl), s, l) ((c', fl'), s', l')"
proof -
  have "\<exists>l' s'. serving enc dec l' s' (c', r') \<and>
    progressed enc dec to_string (stamped_in enc dec to_string xs (c, r, fl)) ((c, fl), s, l) ((c', fl'), s', l')"
    using assms
  proof (induction xs arbitrary: c r fl l s)
    case Nil
    then show ?case by (intro exI [of _ l] exI [of _ s]) (auto simp: progressed_refl)
  next
    case (Cons x xs)
    have "orderly enc dec to_string [x] (c, r, fl)" using Cons.prems(2) by simp
    with Cons.prems(1) obtain c1 r1 fl1 l1 s1 where 1: "perform enc dec to_string x (c, r, fl) = (c1, r1, fl1)"
      "serving enc dec l1 s1 (c1, r1)"
      "progressed enc dec to_string (stamped_in enc dec to_string [x] (c, r, fl)) ((c, fl), s, l) ((c1, fl1), s1, l1)"
      by (rule performed_once)
    have "orderly enc dec to_string xs (c1, r1, fl1)" "fold (perform enc dec to_string) xs (c1, r1, fl1) = (c', r', fl')"
      using Cons.prems(2,3) 1(1) by simp_all
    from Cons.IH [OF 1(2) this] obtain l' s' where 2: "serving enc dec l' s' (c', r')"
      "progressed enc dec to_string (stamped_in enc dec to_string xs (c1, r1, fl1)) ((c1, fl1), s1, l1) ((c', fl'), s', l')"
      by blast
    have "stamped_in enc dec to_string [x] (c, r, fl) @ stamped_in enc dec to_string xs (c1, r1, fl1) =
        stamped_in enc dec to_string (x # xs) (c, r, fl)" using 1(1) by simp
    with 2(1) progressed_trans [OF 1(3) 2(2)] show ?case by (intro exI [of _ l'] exI [of _ s']) (simp only: simp_thms)
  qed
  with that show thesis by blast
qed

lemma performed_serving_at:
  assumes "serving enc dec l s (c, r)" and "orderly enc dec to_string xs (c, r, fl)"
    and "fold (perform enc dec to_string) xs (c, r, fl) = (c', r', fl')" and "rg_delivery r' = Some l'"
  obtains s' where "serving enc dec l' s' (c', r')"
    "progressed enc dec to_string (stamped_in enc dec to_string xs (c, r, fl)) ((c, fl), s, l) ((c', fl'), s', l')"
    "hget (rg_subscribers r') (cn_id c) = Some s'"
  by (rule performed_serving [OF assms(1-3)]) (use assms(4) that in \<open>auto simp: serving_def progressed_def\<close>)

text \<open>Acts of other tasks leave the connection alone.\<close>

lemma perform_others:
  "Pop \<notin> set xs \<Longrightarrow> fold (perform enc dec to_string) xs (c, r, fl) = (c', r', fl') \<Longrightarrow> c' = c"
proof (induction xs arbitrary: r fl)
  case (Cons x xs)
  have "fst (perform enc dec to_string x (c, r, fl)) = c"
    using Cons.prems(1) by (cases x) (simp_all split: prod.splits list.splits)
  then obtain r1 fl1 where "perform enc dec to_string x (c, r, fl) = (c, r1, fl1)" by (metis prod.collapse)
  with Cons show ?case by simp
qed simp

section \<open>What the client makes of it\<close>

lemma sorted_wrt_le_last: "sorted_wrt (<) xs \<Longrightarrow> x \<in> set xs \<Longrightarrow> x \<le> (last xs :: 'a :: order)"
  by (induction xs) (auto intro: less_imp_le)

lemma accepted_filter:
  "sorted_wrt (<) (map st_seq es) \<Longrightarrow> accepted c es = filter (\<lambda>e. c < st_seq e) es"
proof (induction es arbitrary: c)
  case (Cons e es)
  then have "filter (\<lambda>x. st_seq e < st_seq x) es = es" by (simp add: filter_id_conv)
  moreover have "c < st_seq e \<Longrightarrow> filter (\<lambda>x. c < st_seq x) es = es"
    using Cons.prems by (auto simp: filter_id_conv intro: less_trans)
  ultimately show ?case using Cons by simp
qed simp

text \<open>
  A replay \<open>R\<close> past the cursor followed by live events: the replay is taken whole, and of the live
  events those past its end.
\<close>

lemma accepted_after_replay:
  assumes R: "sorted_wrt (<) (map st_seq R)" "\<forall>e \<in> set R. a < st_seq e"
    and live: "sorted_wrt (<) (map st_seq live)"
  obtains m where "accepted a (R @ live) = R @ filter (\<lambda>e. m < st_seq e) live"
    "m = a \<or> m \<in> st_seq ` set R" "a \<le> m" "\<forall>e \<in> set R. st_seq e \<le> m"
proof -
  have sR: "sorted_wrt (<) (a # map st_seq R)" using R by auto
  have le: "x \<le> last (a # map st_seq R)" if "x \<in> set (a # map st_seq R)" for x
    using that sR by (metis sorted_wrt_le_last)
  have "accepted a (R @ live) = R @ accepted (last (a # map st_seq R)) live"
    by (simp only: accepted_append [of a R] accepted_sorted [OF sR])
  moreover have "last (a # map st_seq R) = a \<or> last (a # map st_seq R) \<in> st_seq ` set R"
    using last_in_set [of "a # map st_seq R"] by auto
  ultimately show thesis using that le by (simp add: accepted_filter [OF live])
qed

lemma live_texts_total:
  assumes "\<And>m. to_string m \<noteq> None"
  shows "live_texts to_string ps ss =
    map (\<lambda>e. ws_encode to_string (SubEvent e)) (filter (wanted (Some ps)) ss)"
proof (induction ss)
  case (Cons e ss)
  obtain t where "to_string (SubEvent e) = Some t" using assms [of "SubEvent e"] by auto
  with Cons show ?case by (simp add: live_texts_Cons ws_encode_def wanted_def)
qed simp

lemma sink_send_all_sent:
  "sink_send_all (\<lambda>_. True) ts c = (True, c\<lparr>cn_sent := cn_sent c @ map WsText ts\<rparr>)"
  by (induction ts arbitrary: c) (simp_all add: sink_send_def)

lemma wanted_added: "wanted (Some (add_patterns qs [])) = wanted (Some qs)"
  by (intro ext) (simp add: wanted_def list_ex_iff)

text \<open>The events of a replay whose three looks at the log are separated by appends and prunes.\<close>

lemma replay_frames_events:
  assumes "log_inv enc dec lf" and "(log_step enc dec)\<^sup>*\<^sup>* lf lh" and "(log_step enc dec)\<^sup>*\<^sup>* lh lr"
    and "a \<noteq> - 1" and "list_all (\<lambda>p. validate_pattern p = Inr ()) ps"
    and "replay_frames dec ps a lf lh lr = Inr fr"
  obtains k where
    "concat (map event_of_msg fr) =
       filter (\<lambda>e. a < st_seq e \<and> wanted (Some (map Pattern ps)) e) (drop k (view dec lh))"
    "list_all benign fr"
    "view dec lr = drop k (view dec lh) @ filter (\<lambda>e. sh_head lh < st_seq e) (view dec lr)"
proof -
  obtain k where k: "replay_frames dec ps a lf lh lr =
      Inr ([SubOk ''subscribe''] @
        (if sh_floor lf \<noteq> 0 \<and> unat a + 1 < unat (sh_floor lf) then [ReplayGap a (sh_floor lf)] else []) @
        map SubEvent (filter (\<lambda>e. a < st_seq e \<and> wanted (Some (map Pattern ps)) e)
          (drop k (view dec lh))) @ [Replayed (sh_head lh)])"
    "view dec lr = drop k (view dec lh) @ filter (\<lambda>e. sh_head lh < st_seq e) (view dec lr)"
    by (rule replay_frames_window [OF assms(1-5)])
  have "concat (map (event_of_msg \<circ> SubEvent) xs) = xs" for xs by (induction xs) auto
  with k assms(6) show thesis by (intro that [of k]) (auto simp: list_all_iff)
qed

text \<open>The client's receive loop on a replay and the live events after it.\<close>

lemma session_on_replay:
  assumes codec: "\<And>m. \<exists>t. to_string m = Some t \<and> from_str t = Some m" and ok: "\<And>calls x. h calls x"
    and fresh: "fresh_ids H (cr_resume st)" and fr: "list_all benign fr" "set (concat (map event_of_msg fr)) \<subseteq> H"
    and live: "set live \<subseteq> H"
  shows "handled (cr_calls (snd (session_loop from_str send_ok mem_save h
      \<lparr>wr_items = map Got (map WsText (map (ws_encode to_string) (fr @ map SubEvent live))), wr_sent = sent\<rparr> st))) =
    handled (cr_calls st) @ accepted (rs_cursor (cr_resume st)) (concat (map event_of_msg fr) @ live)"
proof -
  define ms where "ms = fr @ map SubEvent live"
  have "from_str (ws_encode to_string m) = Some m" for m using codec [of m] by (auto simp: ws_encode_def)
  then have "map from_str (map (ws_encode to_string) ms) = map Some ms" by simp
  from session_loop_feed [OF this, of send_ok mem_save h sent st]
  have loop: "session_loop from_str send_ok mem_save h
      \<lparr>wr_items = map Got (map WsText (map (ws_encode to_string) ms)), wr_sent = sent\<rparr> st = feed mem_save h ms st"
    by (simp add: text_items_def comp_def)
  have "concat (map (event_of_msg \<circ> SubEvent) es) = es" for es by (induction es) auto
  then have evs: "concat (map event_of_msg ms) = concat (map event_of_msg fr) @ live" by (simp add: ms_def)
  have "list_all benign ms" using fr(1) by (auto simp: ms_def list_all_iff)
  moreover have "set (concat (map event_of_msg ms)) \<subseteq> H" unfolding evs using fr(2) live by auto
  ultimately show ?thesis
    using feed_handled [of h, OF ok _ fresh] unfolding evs loop [unfolded ms_def]
    by (metis evs loop ms_def)
qed

text \<open>Every event the log still holds that is past the cursor and wanted is replayed or live.\<close>

lemma replay_or_live:
  assumes rows: "view dec lr = X @ filter (\<lambda>e. sh_head lh < st_seq e) (view dec lr)"
    and old: "\<forall>e \<in> set (view dec lh). st_seq e \<le> sh_head lh"
    and lr: "view dec lr = drop k (view dec lh @ sc)" and l3: "view dec l3 = drop k' (view dec lr @ sd)"
    and sd: "\<forall>e \<in> set sd. sh_head lh < st_seq e" and e: "e \<in> set (view dec l3)"
  shows "e \<in> set X \<or> e \<in> set (sc @ sd) \<and> sh_head lh < st_seq e"
proof -
  have "e \<in> set (view dec lr) \<or> e \<in> set sd" using e l3 by (auto dest: in_set_dropD)
  then show ?thesis
  proof
    assume lr': "e \<in> set (view dec lr)"
    then have "e \<in> set (X @ filter (\<lambda>e. sh_head lh < st_seq e) (view dec lr))" by (subst (asm) rows)
    then have "e \<in> set X \<or> sh_head lh < st_seq e" by auto
    moreover have "e \<in> set (view dec lh) \<or> e \<in> set sc" using lr' lr by (auto dest: in_set_dropD)
    ultimately show ?thesis using old by (auto simp: not_less [symmetric])
  qed (use sd in auto)
qed

text \<open>What the client takes of a replay of the rows \<open>X\<close> up to \<open>hi\<close> and of the live events \<open>ls\<close>.\<close>

lemma accepted_exactly_once:
  assumes X: "sorted_wrt (<) (map st_seq X)" "\<forall>e \<in> set X. st_seq e \<le> hi" "set X \<subseteq> C"
    and ls: "sorted_wrt (<) (map st_seq ls)" "set ls \<subseteq> C"
    and V: "\<forall>e \<in> V. e \<in> set X \<or> e \<in> set ls \<and> hi < st_seq e"
    and new_def: "new = accepted a (filter (\<lambda>e. a < st_seq e \<and> W e) X @ filter W ls)"
  shows "sorted_wrt (<) (map st_seq new) \<and> set new \<subseteq> {e \<in> C. a < st_seq e \<and> W e} \<and>
    {e \<in> V. a < st_seq e \<and> W e} \<subseteq> set new"
proof -
  define R where "R = filter (\<lambda>e. a < st_seq e \<and> W e) X"
  have R: "sorted_wrt (<) (map st_seq R)" "\<forall>e \<in> set R. a < st_seq e"
    and live: "sorted_wrt (<) (map st_seq (filter W ls))"
    using X(1) ls(1) unfolding sorted_wrt_map R_def by (auto intro: sorted_wrt_filter)
  obtain m where m: "accepted a (R @ filter W ls) = R @ filter (\<lambda>e. m < st_seq e) (filter W ls)"
    "m = a \<or> m \<in> st_seq ` set R" "a \<le> m" "\<forall>e \<in> set R. st_seq e \<le> m"
    by (rule accepted_after_replay [OF R live])
  have new: "new = R @ filter (\<lambda>e. m < st_seq e) (filter W ls)" using m(1) by (simp add: new_def R_def)
  have "sorted_wrt (<) (map st_seq (filter (\<lambda>e. m < st_seq e) (filter W ls)))"
    using live unfolding sorted_wrt_map by (rule sorted_wrt_filter)
  then have "sorted_wrt (<) (map st_seq new)"
    using R(1) m(4) by (auto simp: new sorted_wrt_append simp del: filter_filter intro: le_less_trans)
  moreover have "set new \<subseteq> {e \<in> C. a < st_seq e \<and> W e}"
    using X(3) ls(2) m(3) by (auto simp: new R_def)
  moreover have "m < st_seq e" if "a < st_seq e" "hi < st_seq e" for e
    using m(2) that X(2) by (auto simp: R_def intro: le_less_trans)
  then have "{e \<in> V. a < st_seq e \<and> W e} \<subseteq> set new"
    using V by (auto simp: new R_def)
  ultimately show ?thesis by blast
qed

text \<open>What goes out on a connection that answers a replay request and then serves its queue.\<close>

lemma stream_of_progress:
  assumes "progressed enc dec to_string ss ((c, fl), s1, l) ((c, flr), s2, lr)"
    and "progressed enc dec to_string sd ((c2, flr), s2, lr) ((c3, fl3), s3, l3)"
    and c2: "c2 = c\<lparr>cn_sent := cn_sent c @ map WsText (map (ws_encode to_string) fr)\<rparr>"
    and empty: "q_frames (sub_queue s1) = []" "q_frames (sub_queue s3) = []" "q_dropped (sub_queue s3) = 0"
    and pushed: "\<not> list_ex (wanted (Some (sub_patterns s1))) (concat fl3)" and total: "\<And>m. to_string m \<noteq> None"
  shows "drop (length (cn_sent c)) (cn_sent c3) = map WsText (map (ws_encode to_string)
    (fr @ map SubEvent (filter (wanted (Some (sub_patterns s1))) (concat fl @ ss @ sd))))"
proof -
  have pats: "sub_patterns s2 = sub_patterns s1" and none: "q_dropped (sub_queue s2) = 0"
    using assms(1,2) empty(3) by (simp_all add: progressed_def)
  have "live_texts to_string (sub_patterns s1) (concat fl3) = []"
    using pushed by (simp add: live_texts_total [OF total] list_ex_iff filter_empty_conv)
  then have "outgoing c3 s3 = outgoing c2 s2 @ map WsText (live_texts to_string (sub_patterns s1) (concat flr @ sd))"
    using assms(2) empty(3) pats by (simp add: progressed_def)
  moreover have "outgoing c s2 @ map WsText (live_texts to_string (sub_patterns s1) (concat flr)) =
      cn_sent c @ map WsText (live_texts to_string (sub_patterns s1) (concat fl @ ss))"
    using assms(1) none empty(1) by (simp add: progressed_def outgoing_def)
  then have "map (WsText \<circ> fr_text) (q_frames (sub_queue s2)) @
      map WsText (live_texts to_string (sub_patterns s1) (concat flr @ sd)) =
      map WsText (live_texts to_string (sub_patterns s1) (concat fl @ ss @ sd))"
    by (simp add: outgoing_def)
  ultimately show ?thesis
    using empty(2) by (simp add: outgoing_def c2 live_texts_total [OF total] comp_def)
qed

text \<open>The rows replayed and the events pushed live, along a run of the plane.\<close>

lemma replayed_and_live:
  assumes FH: "progressed enc dec to_string sh ((c, fl), s1, l) ((ch, flh), s2, lh)"
    and R: "progressed enc dec to_string sc ((ch, flh), s2, lh) ((cr, flr), s3, lr)"
    and D: "progressed enc dec to_string sd ((c2, flr), s3, lr) ((c3, fl3), s4, l3)"
    and inv: "log_inv enc dec lh" and rows: "view dec lr = drop k (view dec lh) @ filter (\<lambda>e. sh_head lh < st_seq e) (view dec lr)"
    and fl: "sorted_wrt (<) (map st_seq (concat fl))" "\<forall>e \<in> set (concat fl). st_seq e \<le> sh_head l"
  shows "sorted_wrt (<) (map st_seq (concat fl @ (sh @ sc) @ sd))"
    and "sorted_wrt (<) (map st_seq (drop k (view dec lh)))"
    and "\<forall>e \<in> set (drop k (view dec lh)). st_seq e \<le> sh_head lh"
    and "set (drop k (view dec lh)) \<subseteq> set (view dec l) \<union> set sh"
    and "\<forall>e \<in> set (view dec l3). e \<in> set (drop k (view dec lh)) \<or>
      e \<in> set (concat fl @ (sh @ sc) @ sd) \<and> sh_head lh < st_seq e"
proof -
  note FR = progressed_trans [OF FH R]
  obtain kh kr k3 where views: "view dec lh = drop kh (view dec l @ sh)"
    "view dec lr = drop kr (view dec lh @ sc)" "view dec l3 = drop k3 (view dec lr @ sd)"
    using FH R D unfolding progressed_def prod.case by blast
  have past: "\<forall>e \<in> set (sh @ sc). sh_head l < st_seq e \<and> st_seq e \<le> sh_head lr"
    "\<forall>e \<in> set sd. sh_head lr < st_seq e" "sh_head l \<le> sh_head lr" "sh_head lh \<le> sh_head lr"
    "sorted_wrt (<) (map st_seq (sh @ sc))" "sorted_wrt (<) (map st_seq sd)"
    using FR R D unfolding progressed_def prod.case by blast+
  have "st_seq x < st_seq y" if "x \<in> set (concat fl @ sh @ sc)" "y \<in> set sd" for x y
  proof -
    have "st_seq x \<le> sh_head lr" using that(1) fl(2) past(1,3) by (auto intro: order_trans)
    with that(2) past(2) show ?thesis by (auto intro: le_less_trans)
  qed
  moreover have "st_seq x < st_seq y" if "x \<in> set (concat fl)" "y \<in> set (sh @ sc)" for x y
    using that fl(2) past(1) by (meson le_less_trans)
  ultimately show "sorted_wrt (<) (map st_seq (concat fl @ (sh @ sc) @ sd))"
    using fl(1) past(5,6) by (simp add: sorted_wrt_append) blast
  show "sorted_wrt (<) (map st_seq (drop k (view dec lh)))"
    using sorted_view [OF inv] unfolding sorted_wrt_map by (rule sorted_wrt_drop)
  show "\<forall>e \<in> set (drop k (view dec lh)). st_seq e \<le> sh_head lh"
    using dl.view_le_head [OF inv] by (auto dest: in_set_dropD)
  show "set (drop k (view dec lh)) \<subseteq> set (view dec l) \<union> set sh"
    unfolding views(1) by (auto dest!: in_set_dropD)
  have "\<forall>e \<in> set (view dec lh). st_seq e \<le> sh_head lh" "\<forall>e \<in> set sd. sh_head lh < st_seq e"
    using dl.view_le_head [OF inv] past(2,4) by (auto intro: le_less_trans)
  from replay_or_live [OF rows this(1) views(2,3) this(2)]
  show "\<forall>e \<in> set (view dec l3). e \<in> set (drop k (view dec lh)) \<or>
      e \<in> set (concat fl @ (sh @ sc) @ sd) \<and> sh_head lh < st_seq e" by fastforce
qed

section \<open>Properties\<close>


text \<open>The frames a drain sends: all of them, or those up to the first that closes the connection.\<close>

fun until_closing :: "frame list \<Rightarrow> frame list" where
  "until_closing [] = []"
| "until_closing (f # fs) = (if fr_closing f then [f] else f # until_closing fs)"

definition drained :: "outbound_queue \<Rightarrow> outbound_queue" where
  "drained q = q\<lparr>q_frames := [], q_lag_pending := (if q_frames q = [] then q_lag_pending q else 0),
     q_delivered := q_delivered q + length (filter fr_is_event (q_frames q))\<rparr>"

lemma drained_Nil: "q_frames (sub_queue s) = [] \<Longrightarrow> s\<lparr>sub_queue := drained (sub_queue s)\<rparr> = s"
  by (auto simp: drained_def intro!: subscriber.equality outbound_queue.equality)

lemma drained_popped: "q_frames q = f # fs \<Longrightarrow> drained (popped f fs q) = drained q"
  by (simp add: drained_def popped_def)

lemma pops_after_close:
  "\<not> cn_open c \<Longrightarrow> (socket_step from_str to_string dec sink_ok snaps PopReady ^^ n) (c, r) = (c, r)"
  by (induction n) (simp_all add: pop_step_closed)

lemma pops_when_empty:
  "hget (rg_subscribers r) (cn_id c) = Some s \<Longrightarrow> q_frames (sub_queue s) = [] \<Longrightarrow>
   (socket_step from_str to_string dec sink_ok snaps PopReady ^^ n) (c, r) = (c, r)"
  by (induction n) (simp_all add: pop_step_empty)

text \<open>
  C21: what is queued gets sent.  Take any open connection, whatever its queue holds and whatever
  was dropped before, whose peer takes what is sent and to whose queue nothing is added meanwhile.
  After as many pops as there are frames, a notice of the frames dropped since the last one has gone
  out first, if there were any, and then every frame, in order, and nothing else; the queue is empty,
  each event frame is counted as delivered, and the drop count is what it was.  If one of the frames
  closes the connection, it is the last one sent, the connection is closed and its entry is gone.
\<close>

theorem served_queue_drains:
  assumes "cn_open c" and "hget (rg_subscribers r) (cn_id c) = Some s"
    and "length (q_frames (sub_queue s)) \<le> n"
  shows "case (socket_step from_str to_string dec (\<lambda>_. True) snaps PopReady ^^ n) (c, r) of (c', r') \<Rightarrow>
    cn_sent c' = cn_sent c @ lag_notice to_string (sub_queue s) @
      map (WsText \<circ> fr_text) (until_closing (q_frames (sub_queue s))) \<and>
    (if list_ex fr_closing (q_frames (sub_queue s))
     then \<not> cn_open c' \<and> hget (rg_subscribers r') (cn_id c) = None
     else cn_open c' \<and> hget (rg_subscribers r') (cn_id c) = Some (s\<lparr>sub_queue := drained (sub_queue s)\<rparr>))"
  using assms
proof (induction n arbitrary: c r s)
  case 0
  then show ?case by (simp add: lag_notice_def drained_Nil)
next
  case (Suc n)
  show ?case
  proof (cases "q_frames (sub_queue s)")
    case Nil
    with Suc.prems show ?thesis
      unfolding pops_when_empty [OF Suc.prems(2) Nil] by (simp add: lag_notice_def drained_Nil)
  next
    case (Cons f fs)
    obtain r' where step: "socket_step from_str to_string dec (\<lambda>_. True) snaps PopReady (c, r) =
        (c\<lparr>cn_sent := cn_sent c @ lag_notice to_string (sub_queue s) @ [WsText (fr_text f)],
           cn_open := \<not> fr_closing f\<rparr>, r')"
      "hget (rg_subscribers r') (cn_id c) =
         (if fr_closing f then None else Some (s\<lparr>sub_queue := popped f fs (sub_queue s)\<rparr>))"
      by (rule pop_step [OF Suc.prems(1,2) Cons])
    have lag: "lag_notice to_string (popped f fs (sub_queue s)) = []" by (simp add: lag_notice_def popped_def)
    show ?thesis
    proof (cases "fr_closing f")
      case True
      then show ?thesis using Cons step by (simp add: funpow_Suc_right pops_after_close del: funpow.simps)
    next
      case False
      define c1 where "c1 = c\<lparr>cn_sent := cn_sent c @ lag_notice to_string (sub_queue s) @ [WsText (fr_text f)],
        cn_open := True\<rparr>"
      define s1 where "s1 = s\<lparr>sub_queue := popped f fs (sub_queue s)\<rparr>"
      have s1: "hget (rg_subscribers r') (cn_id c1) = Some s1" "length (q_frames (sub_queue s1)) \<le> n" "cn_open c1"
        "q_frames (sub_queue s1) = fs" "lag_notice to_string (sub_queue s1) = []"
        "s1\<lparr>sub_queue := drained (sub_queue s1)\<rparr> = s\<lparr>sub_queue := drained (sub_queue s)\<rparr>"
        using step(2) False Suc.prems(3) Cons
        by (simp_all add: c1_def s1_def popped_def lag_notice_def drained_popped [unfolded popped_def])
      have "socket_step from_str to_string dec (\<lambda>_. True) snaps PopReady (c, r) = (c1, r')"
        using step(1) False by (simp add: c1_def)
      moreover have "cn_id c1 = cn_id c"
        "cn_sent c1 = cn_sent c @ lag_notice to_string (sub_queue s) @ [WsText (fr_text f)]" by (simp_all add: c1_def)
      ultimately show ?thesis
        using Suc.IH [OF s1(3,1,2)] False Cons s1(4-6)
        by (simp add: funpow_Suc_right del: funpow.simps split: prod.splits if_split_asm)
    qed
  qed
qed

text \<open>
  A codec for the server's frames that meets the assumption on the JSON one, and a connection that
  subscribes while three events, two of them wanted, are being published.
\<close>

fun msg_code :: "sub_server_msg \<Rightarrow> nat \<times> nat \<times> nat \<times> nat \<times> string \<times> string" where
  "msg_code (Welcome nm) = (0, 0, 0, 0, nm, [])"
| "msg_code (SubOk oper) = (1, 0, 0, 0, oper, [])"
| "msg_code (SubError oper msg) = (2, 0, 0, 0, oper, msg)"
| "msg_code (SubEvent e) =
     (3, unat (st_seq e), unat (st_id e), unat (st_ts_ms e), st_channel e, st_payload_b64 e)"
| "msg_code (Replayed n) = (4, unat n, 0, 0, [], [])"
| "msg_code (ReplayGap a b) = (5, unat a, unat b, 0, [], [])"
| "msg_code (Lagged n) = (6, unat n, 0, 0, [], [])"
| "msg_code Pong = (7, 0, 0, 0, [], [])"
| "msg_code (Closing CloseShutdown) = (8, 0, 0, 0, [], [])"
| "msg_code (Closing CloseRevoked) = (9, 0, 0, 0, [], [])"

definition msg_of_code :: "nat \<times> nat \<times> nat \<times> nat \<times> string \<times> string \<Rightarrow> sub_server_msg" where
  "msg_of_code = (\<lambda>(tag, n, i, t, a, b).
     [Welcome a, SubOk a, SubError a b,
      SubEvent \<lparr>st_seq = of_nat n, st_id = of_nat i, st_ts_ms = of_nat t, st_channel = a, st_payload_b64 = b\<rparr>,
      Replayed (of_nat n), ReplayGap (of_nat n) (of_nat i), Lagged (of_nat n), Pong, Closing CloseShutdown,
      Closing CloseRevoked] ! (tag mod 10))"

definition msg_enc :: "sub_server_msg \<Rightarrow> string option" where
  "msg_enc m = (case msg_code m of (tag, n, i, t, a, b) \<Rightarrow>
     Some (put_nat tag @ put_nat n @ put_nat i @ put_nat t @ put_nat (length a) @ a @ b))"

definition msg_dec :: "string \<Rightarrow> sub_server_msg option" where
  "msg_dec s =
     (case get_nat s of None \<Rightarrow> None | Some (tag, s) \<Rightarrow>
     (case get_nat s of None \<Rightarrow> None | Some (n, s) \<Rightarrow>
     (case get_nat s of None \<Rightarrow> None | Some (i, s) \<Rightarrow>
     (case get_nat s of None \<Rightarrow> None | Some (t, s) \<Rightarrow>
     (case get_nat s of None \<Rightarrow> None | Some (k, s) \<Rightarrow>
        Some (msg_of_code (tag, n, i, t, take k s, drop k s)))))))"

lemma msg_codec: "\<exists>t. msg_enc m = Some t \<and> msg_dec t = Some m"
proof -
  have "msg_of_code (msg_code m) = m"
    by (cases m rule: msg_code.cases) (simp_all add: msg_of_code_def)
  then show ?thesis by (auto simp: msg_enc_def msg_dec_def split: prod.splits)
qed

definition sample_conn :: conn where
  "sample_conn = \<lparr>cn_id = 1, cn_awaiting_pong = False, cn_sent = [], cn_open = True\<rparr>"

definition sample_sub :: subscriber where
  "sample_sub = \<lparr>sub_name = ''n'', sub_remote_addr = None, sub_patterns = [],
     sub_queue = OutboundQueue_new 4 99, sub_close = None\<rparr>"

definition sample_server :: registry where
  "sample_server = (with_delivery empty_log)\<lparr>rg_subscribers := [(1, sample_sub)], rg_next_id := 2\<rparr>"

definition sample_batch :: batch where
  "sample_batch = \<lparr>b_mint = of_nat, b_now = 5, b_now2 = 5, b_events = sample_events\<rparr>"

definition sample_subscribed :: registry where
  "sample_subscribed = snd (subscribe 1 [''a.>''] sample_server)"

text \<open>The batch is committed, one frame is pushed and a run of the pruner fails before the rows are read.\<close>

abbreviation sample_acts :: "act list \<Rightarrow> plane \<Rightarrow> plane" where
  "sample_acts \<equiv> fold (perform unary_enc unary_dec msg_enc)"

definition sample_committed :: plane where
  "sample_committed = sample_acts [Stamp sample_batch] (sample_conn, sample_subscribed, [])"

definition sample_pushed :: plane where
  "sample_pushed = sample_acts [Push 0] sample_committed"

definition sample_read :: plane where
  "sample_read = sample_acts [PruneLog 6 False] sample_pushed"

definition sample_frames :: "sub_server_msg list" where
  "sample_frames = projr (replay_frames unary_dec [''a.>''] 0 sample_log sample_log sample_log)"

definition sample_answered :: conn where
  "sample_answered = snd (sink_send_all (\<lambda>_. True) (map (ws_encode msg_enc) sample_frames) sample_conn)"

definition sample_later :: "act list" where
  "sample_later = [Pop, Push 0, Push 0, Pop]"

definition sample_drained :: plane where
  "sample_drained = sample_acts sample_later (sample_answered, snd sample_read)"

definition sample_run :: "mem_store run_state" where
  "sample_run = \<lparr>cr_resume = ResumeState_new 0 8, cr_store = MemoryCursorStore_new 0, cr_calls = [],
     cr_backoff = BackoffPolicy_start BackoffPolicy_default, cr_waits = []\<rparr>"

lemma sample_steps:
  "rg_delivery sample_server = Some empty_log" "hget (rg_subscribers sample_server) 1 = Some sample_sub"
  "fst (subscribe 1 [''a.>''] sample_server) = Inr ()" "rg_delivery sample_subscribed = Some empty_log"
  "rg_delivery (fst (snd sample_committed)) = Some sample_log" "rg_delivery (fst (snd sample_pushed)) = Some sample_log"
  "rg_delivery (fst (snd sample_read)) = Some sample_log" "rg_delivery (fst (snd sample_drained)) = Some sample_log"
  "isl (replay_frames unary_dec [''a.>''] 0 sample_log sample_log sample_log) = False"
  "fst sample_committed = sample_conn" "fst sample_pushed = sample_conn" "fst sample_read = sample_conn"
  "concat (snd (snd sample_drained)) = []"
  by code_simp+

lemma sample_entry:
  "hget (rg_subscribers (fst (snd sample_drained))) 1 =
     Some (sample_sub\<lparr>sub_patterns := [Pattern ''a.>''],
       sub_queue := (OutboundQueue_new 4 99)\<lparr>q_delivered := 2\<rparr>\<rparr>)"
  by code_simp

lemma overtakes_0: "\<not> overtakes 0 st"
  by (simp add: overtakes_def split: prod.splits option.splits)

lemma sample_orderly:
  "orderly unary_enc unary_dec msg_enc ([Stamp sample_batch] @ [Push 0] @ [PruneLog 6 False]) (sample_conn, sample_subscribed, [])"
  "orderly unary_enc unary_dec msg_enc sample_later (sample_answered, snd sample_read)"
  using sample_room sample_steps(4)
  by (simp_all add: batch_room_def sample_batch_def sample_later_def overtakes_0 del: perform.simps)

lemma sample_stamped:
  "stamped_in unary_enc unary_dec msg_enc ([Stamp sample_batch] @ [Push 0] @ [PruneLog 6 False])
     (sample_conn, sample_subscribed, []) = view unary_dec sample_log"
  "view unary_dec empty_log = []"
  by code_simp+

lemma sample_stamped_later:
  "stamped_in unary_enc unary_dec msg_enc sample_later (sample_answered, snd sample_read) = []"
  by (simp add: sample_later_def)

lemma sample_view_ids: "map (\<lambda>e. (st_seq e, st_id e)) (view unary_dec sample_log) = [(1, 0), (2, 1), (3, 2)]"
  by code_simp

lemma sample_wanted:
  "map st_seq (filter (\<lambda>e. 0 < st_seq e \<and> wanted (Some (map Pattern [''a.>''])) e) (view unary_dec sample_log)) = [1, 2]"
  by code_simp


text \<open>A queue that dropped three frames and holds an event and a closing frame.\<close>

definition sample_lagged :: subscriber where
  "sample_lagged = sample_sub\<lparr>sub_queue := (OutboundQueue_new 4 99)\<lparr>
     q_frames := [event_frame ''e'', \<lparr>fr_text = ''bye'', fr_closing = True, fr_is_event = False\<rparr>],
     q_dropped := 5, q_lag_pending := 3\<rparr>\<rparr>"

theorem served_queue_drains_witness:
  "case (socket_step (\<lambda>_. None) msg_enc unary_dec (\<lambda>_. True) (empty_log, empty_log, empty_log) PopReady ^^ 4)
     (sample_conn, sample_server\<lparr>rg_subscribers := [(1, sample_lagged)]\<rparr>) of (c', r') \<Rightarrow>
   cn_sent c' = [WsText (ws_encode msg_enc (Lagged 3)), WsText ''e'', WsText ''bye''] \<and> \<not> cn_open c' \<and>
   hget (rg_subscribers r') 1 = None"
  using served_queue_drains [where c = sample_conn and r = "sample_server\<lparr>rg_subscribers := [(1, sample_lagged)]\<rparr>"
      and s = sample_lagged and n = 4 and from_str = "\<lambda>_. None" and to_string = msg_enc and dec = unary_dec
      and snaps = "(empty_log, empty_log, empty_log)"]
  by (simp add: sample_conn_def sample_lagged_def hget_def lag_notice_def event_frame_def)

text \<open>
  C19: two fan-outs that overlap can lose an event for good.  Their events are stamped and committed
  in one order and reach the connection's queue in the other, which the server allows; nothing is
  dropped.  The client then handles only the later one: the earlier one, wanted and committed, is
  never handed to the handler, and the cursor the client stores is past it, so that no replay
  brings it back.
\<close>

theorem reordered_fanouts_lose_event:
  assumes "rg_delivery r = Some l" and "log_inv enc dec l"
    and "fanout_stamp enc minta True nowa nowa2 [ea] r = ([fa], ra)"
    and "fanout_stamp enc mintb True nowb nowb2 [eb] ra = ([fb], rb)"
    and "room enc minta [ea] nowa l" and "room enc mintb [eb] nowb (the (rg_delivery ra))"
    and "hget (rg_subscribers r) sid = Some s" and "q_frames (sub_queue s) = []"
    and "sub_matches (ev_channel ea) s" and "sub_matches (ev_channel eb) s"
    and "hget (rg_subscribers (fanout_deliver to_string [fa] (fanout_deliver to_string [fb] rb))) sid = Some s'"
    and "q_dropped (sub_queue s') = 0"
    and "\<And>m. \<exists>t. to_string m = Some t \<and> from_str t = Some m"
    and "\<And>calls x. h calls x" and "rs_cursor (cr_resume st) = sh_head l" and "st_id fb \<notin> rs_seen (cr_resume st)"
  shows "(\<exists>l'. rg_delivery rb = Some l' \<and> view dec l' = view dec l @ [fa, fb]) \<and>
    (case session_loop from_str send_ok mem_save h
       \<lparr>wr_items = text_items (map fr_text (q_frames (sub_queue s'))), wr_sent = sent\<rparr> st of (_, st') \<Rightarrow>
     handled (cr_calls st') = handled (cr_calls st) @ [fb] \<and>
     mem_load (cr_store st') = Inr (st_seq fb) \<and> st_seq fa < st_seq fb)"
proof -
  define la where "la = snd (append_blocking enc minta True [ea] nowa l)"
  define lb where "lb = snd (append_blocking enc mintb True [eb] nowb la)"
  have a: "[fa] = stamped_batch (sh_head l) minta nowa 0 [ea]" "ra = r\<lparr>rg_delivery := Some la\<rparr>"
    using assms(3,1) append_blocking_eq [OF assms(2,5)] by (auto simp: fanout_stamp_def append_def la_def)
  have inv: "log_inv enc dec la" unfolding la_def by (rule log_inv_append_blocking [OF assms(2,5)]) simp
  have room: "room enc mintb [eb] nowb la" using assms(6) a(2) by simp
  have b: "[fb] = stamped_batch (sh_head la) mintb nowb 0 [eb]" "rb = ra\<lparr>rg_delivery := Some lb\<rparr>"
    using assms(4) a(2) append_blocking_eq [OF inv room] by (auto simp: fanout_stamp_def append_def lb_def)
  have view: "view dec lb = view dec l @ [fa, fb]"
    using view_append_blocking [OF assms(2,5)] view_append_blocking [OF inv room] a(1) b(1)
    by (simp add: la_def lb_def)
  have "log_inv enc dec lb" unfolding lb_def by (rule log_inv_append_blocking [OF inv room]) simp
  from sorted_view [OF this] have lt: "st_seq fa < st_seq fb" by (simp add: view sorted_wrt_append)
  have "unat (sh_head l) + length [ea] < 2 ^ 64" using assms(5) by (simp only: room_def)
  from batch_past_head [OF this, of fa minta nowa] have past: "sh_head l < st_seq fa"
    by (simp only: a(1) [symmetric]) simp
  have ch: "st_channel fa = ev_channel ea" "st_channel fb = ev_channel eb"
    using a(1) b(1) by (simp_all add: stamped_batch_def stamp_def)
  have s': "s' = offered_all to_string [fb, fa] s"
    using assms(7,11) by (simp add: b(2) a(2) fanout_deliver_def hget_deliver offered_all_Cons)
  have total: "to_string m \<noteq> None" for m using assms(13) [of m] by auto
  have q: "map fr_text (q_frames (sub_queue s')) = map (ws_encode to_string) [SubEvent fb, SubEvent fa]"
    using push_all_clean [of "live_texts to_string (sub_patterns s) [fb, fa]" "sub_queue s"]
      push_all_dropped [of "sub_queue s" "live_texts to_string (sub_patterns s) [fb, fa]"] assms(8-12)
    by (simp add: s' offered_all_def live_texts_total [OF total] wanted_def sub_matches_def ch)
  have "from_str (ws_encode to_string m) = Some m" for m using assms(13) [of m] by (auto simp: ws_encode_def)
  then have "map from_str (map fr_text (q_frames (sub_queue s'))) = map Some [SubEvent fb, SubEvent fa]"
    by (simp add: q)
  note loop = session_loop_feed [OF this, of send_ok mem_save h sent st]
  have "max (sh_head l) (st_seq fb) = st_seq fb" "sh_head l < st_seq fb" "\<not> st_seq fb < st_seq fa"
    using lt past by (auto intro: less_trans)
  then show ?thesis
    using lt assms(14-16) view b(2)
    by (simp add: loop session_event_def call_hook_def should_process_def Let_def mem_save_def mem_load_def)
qed

definition sample_first :: event where "sample_first = \<lparr>ev_channel = ''a.b'', ev_payload_b64 = ''x''\<rparr>"

definition sample_second :: event where "sample_second = \<lparr>ev_channel = ''a.c'', ev_payload_b64 = ''y''\<rparr>"

definition sample_stamped_a :: "stamped_event list \<times> registry" where
  "sample_stamped_a = fanout_stamp unary_enc (\<lambda>_. 1) True 5 5 [sample_first] sample_subscribed"

definition sample_stamped_b :: "stamped_event list \<times> registry" where
  "sample_stamped_b = fanout_stamp unary_enc (\<lambda>_. 2) True 6 6 [sample_second] (snd sample_stamped_a)"

definition sample_swapped :: registry where
  "sample_swapped = fanout_deliver msg_enc (fst sample_stamped_a)
     (fanout_deliver msg_enc (fst sample_stamped_b) (snd sample_stamped_b))"

lemma sample_stamps:
  "fst sample_stamped_a = [stamp 0 (\<lambda>_. 1) 5 0 sample_first]"
  "fst sample_stamped_b = [stamp 1 (\<lambda>_. 2) 6 0 sample_second]"
  "rg_delivery (snd sample_stamped_a) = Some (snd (append unary_enc (\<lambda>_. 1) True [sample_first] 5 empty_log))"
  by code_simp+

lemma sample_swapped_entry:
  "hget (rg_subscribers sample_swapped) 1 = Some (sample_sub\<lparr>sub_patterns := [Pattern ''a.>''],
     sub_queue := (OutboundQueue_new 4 99)\<lparr>q_frames := map (\<lambda>e. event_frame (ws_encode msg_enc (SubEvent e)))
       [stamp 1 (\<lambda>_. 2) 6 0 sample_second, stamp 0 (\<lambda>_. 1) 5 0 sample_first]\<rparr>\<rparr>)"
  "hget (rg_subscribers sample_subscribed) 1 = Some (sample_sub\<lparr>sub_patterns := [Pattern ''a.>'']\<rparr>)"
  by code_simp+

lemma sample_swap_room:
  "room unary_enc (\<lambda>_. 1) [sample_first] 5 empty_log"
  "room unary_enc (\<lambda>_. 2) [sample_second] 6 (snd (append unary_enc (\<lambda>_. 1) True [sample_first] 5 empty_log))"
  by (simp_all add: room_def empty_log_def sample_first_def sample_second_def unary_enc_def stored_of_def stamp_def
      table_bytes_def put_nat_def append_def append_blocking_def)

lemma sample_matches:
  "sub_matches (ev_channel sample_first) (sample_sub\<lparr>sub_patterns := [Pattern ''a.>'']\<rparr>)"
  "sub_matches (ev_channel sample_second) (sample_sub\<lparr>sub_patterns := [Pattern ''a.>'']\<rparr>)"
  by code_simp+

theorem reordered_fanouts_lose_event_witness:
  "case session_loop msg_dec (\<lambda>_. True) mem_save (\<lambda>_ _. True)
     \<lparr>wr_items = text_items (map fr_text (q_frames (sub_queue (the (hget (rg_subscribers sample_swapped) 1))))),
      wr_sent = []\<rparr> sample_run of (_, st') \<Rightarrow>
   handled (cr_calls st') = [stamp 1 (\<lambda>_. 2) 6 0 sample_second] \<and> mem_load (cr_store st') = Inr 2"
  using reordered_fanouts_lose_event [where r = sample_subscribed and l = empty_log and enc = unary_enc
      and dec = unary_dec and minta = "\<lambda>_. 1" and mintb = "\<lambda>_. 2" and nowa = 5 and ?nowa2.0 = 5 and nowb = 6
      and ?nowb2.0 = 6 and ea = sample_first and eb = sample_second and sid = 1 and to_string = msg_enc
      and ra = "snd sample_stamped_a" and rb = "snd sample_stamped_b" and h = "\<lambda>_ _. True" and st = sample_run
      and s = "sample_sub\<lparr>sub_patterns := [Pattern ''a.>'']\<rparr>" and from_str = msg_dec
      and s' = "the (hget (rg_subscribers sample_swapped) 1)" and send_ok = "\<lambda>_. True" and sent = "[]"
      and fa = "stamp 0 (\<lambda>_. 1) 5 0 sample_first" and fb = "stamp 1 (\<lambda>_. 2) 6 0 sample_second"]
    sample_steps(4) empty_log_inv sample_stamps sample_swap_room sample_swapped_entry sample_matches msg_codec
  by (simp add: prod_eq_iff sample_stamped_a_def [symmetric] sample_stamped_b_def [symmetric] sample_swapped_def
      sample_run_def ResumeState_new_def sample_sub_def OutboundQueue_new_def empty_log_def stamp_def
      split: prod.splits)

end
