(* ===== verification/Channel_Claims.thy ===== *)
theory Channel_Claims
  imports Messages
begin

text \<open>
  \<^verbatim>\<open>crates/whdr-server/src/channel_claims.rs\<close>: what an extension may claim at registration
  and which channels it may then emit on.  The loops with their early returns are kept; the
  error is a datatype in place of the formatted \<^verbatim>\<open>anyhow\<close> message.  The second half states
  the contract of the routing tables (every channel has at most one owner) as a locale and
  discharges it for the code's tables.
\<close>

section \<open>The code\<close>

datatype claims_error =
    InvalidPathClaim string
  | DuplicatePathClaim string
  | PathCollision string string
  | ClaimPrefixCollision string string string
  | InvalidChannelPrefix string channel_error
  | PrefixCollision string string
  | PrefixRouteCollision string string string
  | PrefixOwnerCollision string string string
  | InvalidEventChannel string channel_error
  | ChannelNotOwned string string

definition first_channel_segment :: "string \<Rightarrow> string" where
  "first_channel_segment channel =
     (case split_on (CHR ''.'') channel of [] \<Rightarrow> [] | s # _ \<Rightarrow> s)"

definition channel_is_in_prefix :: "string \<Rightarrow> string \<Rightarrow> bool" where
  "channel_is_in_prefix channel pre \<longleftrightarrow> channel = pre \<or>
     (case strip_prefix channel pre of
        None \<Rightarrow> False | Some rest \<Rightarrow> starts_with rest (CHR ''.''))"

definition channel_prefixes_overlap :: "string \<Rightarrow> string \<Rightarrow> bool" where
  "channel_prefixes_overlap left right \<longleftrightarrow>
     channel_is_in_prefix left right \<or> channel_is_in_prefix right left"

definition validate_path_claim :: "string \<Rightarrow> claims_error + unit" where
  "validate_path_claim claim =
     (if claim = [] \<or> CHR ''/'' \<in> set claim \<or>
         \<not> list_all (\<lambda>b. is_ascii_lowercase b \<or> is_ascii_digit b \<or> b = CHR ''-'' \<or> b = CHR ''_'') claim
      then Inl (InvalidPathClaim claim) else Inr ())"

text \<open>The first loop of \<^verbatim>\<open>validate_registration_claims\<close>; \<open>seen\<close> is \<^verbatim>\<open>seen_claims\<close>.\<close>

fun check_claims ::
  "string \<Rightarrow> (string, string) hashmap \<Rightarrow> (string, string) hashmap \<Rightarrow> string list \<Rightarrow>
   string list \<Rightarrow> claims_error + unit" where
  "check_claims xid routes existing_prefixes seen [] = Inr ()"
| "check_claims xid routes existing_prefixes seen (claim # claims) =
     (case validate_path_claim claim of
        Inl e \<Rightarrow> Inl e
      | Inr _ \<Rightarrow>
          if claim \<in> set seen then Inl (DuplicatePathClaim claim)
          else (case hget routes claim of
                  Some owner \<Rightarrow> Inl (PathCollision claim owner)
                | None \<Rightarrow>
                    (case find (\<lambda>(pre, owner). owner \<noteq> xid \<and> first_channel_segment pre = claim)
                            existing_prefixes of
                       Some (pre, owner) \<Rightarrow> Inl (ClaimPrefixCollision claim pre owner)
                     | None \<Rightarrow> check_claims xid routes existing_prefixes (claim # seen) claims)))"

text \<open>The second loop; \<open>seen\<close> is \<^verbatim>\<open>seen_prefixes\<close>, in the order they were pushed.\<close>

fun check_prefixes ::
  "string \<Rightarrow> (string, string) hashmap \<Rightarrow> (string, string) hashmap \<Rightarrow> string list \<Rightarrow>
   string list \<Rightarrow> claims_error + unit" where
  "check_prefixes xid routes existing_prefixes seen [] = Inr ()"
| "check_prefixes xid routes existing_prefixes seen (pre # pres) =
     (case validate_channel pre of
        Inl e \<Rightarrow> Inl (InvalidChannelPrefix pre e)
      | Inr _ \<Rightarrow>
          (case find (\<lambda>s. channel_prefixes_overlap pre s) seen of
             Some s \<Rightarrow> Inl (PrefixCollision pre s)
           | None \<Rightarrow>
               (let first = first_channel_segment pre;
                    clash = (case find (\<lambda>(existing, owner). owner \<noteq> xid \<and>
                                          channel_prefixes_overlap pre existing) existing_prefixes of
                               Some (existing, owner) \<Rightarrow> Inl (PrefixOwnerCollision pre existing owner)
                             | None \<Rightarrow> check_prefixes xid routes existing_prefixes (seen @ [pre]) pres)
                in (case hget routes first of
                      Some owner \<Rightarrow>
                        if owner \<noteq> xid then Inl (PrefixRouteCollision pre first owner) else clash
                    | None \<Rightarrow> clash))))"

definition validate_registration_claims ::
  "string \<Rightarrow> string list \<Rightarrow> string list \<Rightarrow> (string, string) hashmap \<Rightarrow>
   (string, string) hashmap \<Rightarrow> claims_error + unit" where
  "validate_registration_claims xid claims channel_prefixes routes existing_prefixes =
     (case check_claims xid routes existing_prefixes [] claims of
        Inl e \<Rightarrow> Inl e
      | Inr _ \<Rightarrow> check_prefixes xid routes existing_prefixes [] channel_prefixes)"

definition validate_emitted_channel ::
  "string \<Rightarrow> string \<Rightarrow> string list \<Rightarrow> string list \<Rightarrow> claims_error + unit" where
  "validate_emitted_channel channel ext_id claims registered_prefixes =
     (case validate_channel channel of
        Inl e \<Rightarrow> Inl (InvalidEventChannel channel e)
      | Inr _ \<Rightarrow>
          (let first = first_channel_segment channel
           in if list_ex (\<lambda>claim. claim = first) claims \<or>
                 list_ex (\<lambda>pre. channel_is_in_prefix channel pre) registered_prefixes
              then Inr () else Inl (ChannelNotOwned channel ext_id)))"

text \<open>\<^verbatim>\<open>filter_owned_events\<close>; the second component is the violations counter afterwards.\<close>

fun filter_owned_events ::
  "string \<Rightarrow> string list \<Rightarrow> string list \<Rightarrow> nat \<Rightarrow> event list \<Rightarrow> event list \<times> nat" where
  "filter_owned_events ext_id paths registered_prefixes violations [] = ([], violations)"
| "filter_owned_events ext_id paths registered_prefixes violations (e # es) =
     (case validate_emitted_channel (ev_channel e) ext_id paths registered_prefixes of
        Inr _ \<Rightarrow>
          (case filter_owned_events ext_id paths registered_prefixes violations es of
             (kept, n) \<Rightarrow> (e # kept, n))
      | Inl _ \<Rightarrow> filter_owned_events ext_id paths registered_prefixes (violations + 1) es)"

section \<open>What the checks decide\<close>

text \<open>Ownership of a channel by a set of claims, read off the tokens.\<close>

definition owns_channel :: "string list \<Rightarrow> string list \<Rightarrow> string \<Rightarrow> bool" where
  "owns_channel claims pres ch \<longleftrightarrow> validate_channel ch = Inr () \<and>
     (hd (split_on (CHR ''.'') ch) \<in> set claims \<or>
      (\<exists>p \<in> set pres. prefix (split_on (CHR ''.'') p) (split_on (CHR ''.'') ch)))"

definition claims_admissible ::
  "string \<Rightarrow> string list \<Rightarrow> string list \<Rightarrow> (string, string) hashmap \<Rightarrow>
   (string, string) hashmap \<Rightarrow> bool" where
  "claims_admissible xid claims pres routes ptab \<longleftrightarrow>
     distinct claims \<and>
     (\<forall>c \<in> set claims. validate_path_claim c = Inr () \<and> hget routes c = None \<and>
        (\<forall>(p, owner) \<in> set ptab. first_channel_segment p = c \<longrightarrow> owner = xid)) \<and>
     sorted_wrt (\<lambda>p q. \<not> channel_prefixes_overlap q p) pres \<and>
     (\<forall>p \<in> set pres. validate_channel p = Inr () \<and>
        (\<forall>owner. hget routes (first_channel_segment p) = Some owner \<longrightarrow> owner = xid) \<and>
        (\<forall>(q, owner) \<in> set ptab. channel_prefixes_overlap p q \<longrightarrow> owner = xid))"

lemma first_channel_segment_hd: "first_channel_segment ch = hd (split_on (CHR ''.'') ch)"
  by (cases "split_on (CHR ''.'') ch") (simp_all add: first_channel_segment_def)

lemma split_on_append: "split_on d (s @ d # r) = split_on d s @ split_on d r"
proof (induction s)
  case (Cons c s)
  obtain t ts where "split_on d s = t # ts" by (cases "split_on d s") simp_all
  with Cons show ?case by auto
qed simp

lemma in_prefix_dot: "channel_is_in_prefix ch p \<longleftrightarrow> ch = p \<or> (\<exists>r. ch = p @ CHR ''.'' # r)"
  by (auto simp: channel_is_in_prefix_def str_simps strip_prefix_eq strip_prefix_None
      split: option.splits)

text \<open>Being under a channel prefix is being under it token by token.\<close>

lemma in_prefix_tokens:
  "channel_is_in_prefix ch p \<longleftrightarrow> prefix (split_on (CHR ''.'') p) (split_on (CHR ''.'') ch)"
proof
  assume "channel_is_in_prefix ch p"
  then show "prefix (split_on (CHR ''.'') p) (split_on (CHR ''.'') ch)"
    by (auto simp: in_prefix_dot split_on_append)
next
  assume "prefix (split_on (CHR ''.'') p) (split_on (CHR ''.'') ch)"
  then obtain ts where ts: "split_on (CHR ''.'') ch = split_on (CHR ''.'') p @ ts"
    by (auto simp: prefix_def)
  show "channel_is_in_prefix ch p"
  proof (cases "ts = []")
    case True
    with ts show ?thesis by (simp add: split_on_inject in_prefix_dot)
  next
    case False
    have "\<And>t. t \<in> set ts \<Longrightarrow> CHR ''.'' \<notin> set t"
      using ts split_on_no_sep [of _ "CHR ''.''" ch] by auto
    with False have "split_on (CHR ''.'') (join_with (CHR ''.'') ts) = ts"
      by (rule split_join)
    with ts have "split_on (CHR ''.'') ch =
        split_on (CHR ''.'') (p @ CHR ''.'' # join_with (CHR ''.'') ts)"
      by (simp add: split_on_append)
    then show ?thesis by (auto simp: split_on_inject in_prefix_dot)
  qed
qed

lemma overlap_tokens:
  "channel_prefixes_overlap p q \<longleftrightarrow>
     prefix (split_on (CHR ''.'') p) (split_on (CHR ''.'') q) \<or>
     prefix (split_on (CHR ''.'') q) (split_on (CHR ''.'') p)"
  by (auto simp: channel_prefixes_overlap_def in_prefix_tokens)

lemma overlap_sym: "channel_prefixes_overlap p q \<longleftrightarrow> channel_prefixes_overlap q p"
  by (auto simp: channel_prefixes_overlap_def)

lemma overlap_common:
  "channel_is_in_prefix ch p \<Longrightarrow> channel_is_in_prefix ch q \<Longrightarrow> channel_prefixes_overlap p q"
  unfolding overlap_tokens in_prefix_tokens by (rule prefix_same_cases) auto

lemma in_prefix_first:
  "channel_is_in_prefix ch p \<Longrightarrow> first_channel_segment ch = first_channel_segment p"
  unfolding in_prefix_tokens first_channel_segment_hd
  by (cases "split_on (CHR ''.'') p") (auto simp: prefix_def)

lemma emitted_iff_owns:
  "validate_emitted_channel ch ext_id claims pres = Inr () \<longleftrightarrow> owns_channel claims pres ch"
  by (auto simp: validate_emitted_channel_def owns_channel_def first_channel_segment_hd
      in_prefix_tokens list_ex_iff Let_def split: sum.splits)

lemma filter_owned_events_eq:
  "filter_owned_events ext_id paths pres n es =
     (filter (\<lambda>e. owns_channel paths pres (ev_channel e)) es,
      n + length (filter (\<lambda>e. \<not> owns_channel paths pres (ev_channel e)) es))"
proof (induction es arbitrary: n)
  case (Cons e es)
  then show ?case
    by (auto simp: emitted_iff_owns [symmetric, where ext_id = ext_id] split: sum.splits)
qed simp

lemma check_claims_iff:
  "check_claims xid routes ptab seen claims = Inr () \<longleftrightarrow>
     distinct claims \<and> set seen \<inter> set claims = {} \<and>
     (\<forall>c \<in> set claims. validate_path_claim c = Inr () \<and> hget routes c = None \<and>
        (\<forall>(p, owner) \<in> set ptab. first_channel_segment p = c \<longrightarrow> owner = xid))"
proof (induction claims arbitrary: seen)
  case (Cons c claims)
  have "find (\<lambda>(p, owner). owner \<noteq> xid \<and> first_channel_segment p = c) ptab = None \<longleftrightarrow>
      (\<forall>(p, owner) \<in> set ptab. first_channel_segment p = c \<longrightarrow> owner = xid)"
    by (auto simp: find_None_iff)
  then show ?case
    using Cons.IH [of "c # seen"] by (auto split: sum.splits option.splits)
qed simp

lemma check_prefixes_iff:
  "check_prefixes xid routes ptab seen pres = Inr () \<longleftrightarrow>
     sorted_wrt (\<lambda>p q. \<not> channel_prefixes_overlap q p) pres \<and>
     (\<forall>p \<in> set pres. \<forall>q \<in> set seen. \<not> channel_prefixes_overlap p q) \<and>
     (\<forall>p \<in> set pres. validate_channel p = Inr () \<and>
        (\<forall>owner. hget routes (first_channel_segment p) = Some owner \<longrightarrow> owner = xid) \<and>
        (\<forall>(q, owner) \<in> set ptab. channel_prefixes_overlap p q \<longrightarrow> owner = xid))"
proof (induction pres arbitrary: seen)
  case (Cons p pres)
  have owner: "find (\<lambda>(q, owner). owner \<noteq> xid \<and> channel_prefixes_overlap p q) ptab = None \<longleftrightarrow>
      (\<forall>(q, owner) \<in> set ptab. channel_prefixes_overlap p q \<longrightarrow> owner = xid)"
    by (auto simp: find_None_iff)
  have seen: "find (channel_prefixes_overlap p) seen = None \<longleftrightarrow>
      (\<forall>q \<in> set seen. \<not> channel_prefixes_overlap p q)"
    by (auto simp: find_None_iff)
  show ?case
    using Cons.IH [of "seen @ [p]"] owner seen
    by (auto simp: Let_def split: sum.splits option.splits if_splits)
qed simp

lemma registration_iff_admissible:
  "validate_registration_claims xid claims pres routes ptab = Inr () \<longleftrightarrow>
     claims_admissible xid claims pres routes ptab"
  using check_claims_iff [of xid routes ptab "[]" claims]
    check_prefixes_iff [of xid routes ptab "[]" pres]
  unfolding validate_registration_claims_def claims_admissible_def
  by (cases "check_claims xid routes ptab [] claims") auto

section \<open>The contract of the routing tables\<close>

text \<open>
  A table of claims under which every channel has at most one owner.  \<open>register\<close> is applied
  to admissible claims only, \<open>release\<close> drops everything an owner holds.
\<close>

locale namespace_table =
  fixes inv :: "'t \<Rightarrow> bool"
    and admit :: "'t \<Rightarrow> string \<Rightarrow> string list \<Rightarrow> string list \<Rightarrow> bool"
    and register :: "string \<Rightarrow> string list \<Rightarrow> string list \<Rightarrow> 't \<Rightarrow> 't"
    and release :: "string \<Rightarrow> 't \<Rightarrow> 't"
    and owned_by :: "'t \<Rightarrow> string \<Rightarrow> string \<Rightarrow> bool"
  assumes inv_register: "inv t \<Longrightarrow> admit t i cs ps \<Longrightarrow> inv (register i cs ps t)"
    and inv_release: "inv t \<Longrightarrow> inv (release i t)"
    and owned_register: "inv t \<Longrightarrow> admit t i cs ps \<Longrightarrow> owns_channel cs ps ch \<Longrightarrow>
          owned_by (register i cs ps t) i ch"
    and kept_register: "inv t \<Longrightarrow> admit t i cs ps \<Longrightarrow> owned_by t j ch \<Longrightarrow>
          owned_by (register i cs ps t) j ch"
    and released: "inv t \<Longrightarrow> \<not> owned_by (release i t) i ch"
    and kept_release: "inv t \<Longrightarrow> j \<noteq> i \<Longrightarrow> owned_by t j ch \<Longrightarrow> owned_by (release i t) j ch"
    and exclusive: "inv t \<Longrightarrow> owned_by t i ch \<Longrightarrow> owned_by t j ch \<Longrightarrow> i = j"
begin

lemma no_takeover:
  assumes "inv t" and "admit t i cs ps" and "owned_by t j ch" and "j \<noteq> i"
  shows "\<not> owned_by (register i cs ps t) i ch"
  using assms exclusive [OF inv_register] kept_register by metis

lemma admitted_disjoint:
  assumes "inv t" and "admit t i cs ps" and "owned_by t j ch" and "owns_channel cs ps ch"
  shows "j = i"
  using assms no_takeover owned_register by metis

end

text \<open>The code's tables: \<^verbatim>\<open>routes\<close> and \<^verbatim>\<open>channel_prefixes\<close> of the daemon, as a pair.\<close>

type_synonym ns_tables = "(string, string) hashmap \<times> (string, string) hashmap"

fun tables_admit :: "ns_tables \<Rightarrow> string \<Rightarrow> string list \<Rightarrow> string list \<Rightarrow> bool" where
  "tables_admit (routes, ptab) xid claims pres \<longleftrightarrow>
     validate_registration_claims xid claims pres routes ptab = Inr ()"

text \<open>The two insertion loops of \<^verbatim>\<open>start_extension\<close>.\<close>

definition insert_all :: "string \<Rightarrow> string list \<Rightarrow> (string, string) hashmap \<Rightarrow> (string, string) hashmap" where
  "insert_all xid ks m = fold (\<lambda>k. hinsert k xid) ks m"

fun tables_register :: "string \<Rightarrow> string list \<Rightarrow> string list \<Rightarrow> ns_tables \<Rightarrow> ns_tables" where
  "tables_register xid claims pres (routes, ptab) =
     (insert_all xid claims routes, insert_all xid pres ptab)"

text \<open>The two \<^verbatim>\<open>retain\<close> calls of \<^verbatim>\<open>unroute_extension\<close>.\<close>

definition retain_others :: "string \<Rightarrow> (string, string) hashmap \<Rightarrow> (string, string) hashmap" where
  "retain_others xid m = hretain (\<lambda>_ owner. owner \<noteq> xid) m"

fun tables_release :: "string \<Rightarrow> ns_tables \<Rightarrow> ns_tables" where
  "tables_release xid (routes, ptab) = (retain_others xid routes, retain_others xid ptab)"

fun tables_owned :: "ns_tables \<Rightarrow> string \<Rightarrow> string \<Rightarrow> bool" where
  "tables_owned (routes, ptab) xid ch \<longleftrightarrow> validate_channel ch = Inr () \<and>
     (hget routes (first_channel_segment ch) = Some xid \<or>
      (\<exists>p. hget ptab p = Some xid \<and> channel_is_in_prefix ch p))"

fun tables_inv :: "ns_tables \<Rightarrow> bool" where
  "tables_inv (routes, ptab) \<longleftrightarrow> hm_ok routes \<and> hm_ok ptab \<and>
     (\<forall>p i j. hget ptab p = Some i \<longrightarrow> hget routes (first_channel_segment p) = Some j \<longrightarrow> i = j) \<and>
     (\<forall>p q i j. hget ptab p = Some i \<longrightarrow> hget ptab q = Some j \<longrightarrow>
        channel_prefixes_overlap p q \<longrightarrow> i = j)"

lemma hget_insert_all:
  "hget (insert_all xid ks m) k = (if k \<in> set ks then Some xid else hget m k)"
  unfolding insert_all_def by (induction ks arbitrary: m) (auto simp: hm_simps)

lemma hm_ok_insert_all [simp]: "hm_ok m \<Longrightarrow> hm_ok (insert_all xid ks m)"
  unfolding insert_all_def by (induction ks arbitrary: m) auto

lemma hget_retain_others:
  "hm_ok m \<Longrightarrow> hget (retain_others xid m) k = Some j \<longleftrightarrow> hget m k = Some j \<and> j \<noteq> xid"
  by (auto simp: retain_others_def hget_hretain split: option.splits)

lemma hm_ok_retain_others [simp]: "hm_ok m \<Longrightarrow> hm_ok (retain_others xid m)"
  by (simp add: retain_others_def)

lemma sorted_wrt_pair:
  "sorted_wrt R xs \<Longrightarrow> x \<in> set xs \<Longrightarrow> y \<in> set xs \<Longrightarrow> x \<noteq> y \<Longrightarrow> R x y \<or> R y x"
  by (induction xs) auto

lemma tables_inv_register:
  assumes "tables_inv t" and "tables_admit t xid claims pres"
  shows "tables_inv (tables_register xid claims pres t)"
proof -
  obtain routes ptab where t: "t = (routes, ptab)" by (cases t)
  have adm: "claims_admissible xid claims pres routes ptab"
    using assms(2) by (simp add: t registration_iff_admissible)
  have ok: "hm_ok routes" "hm_ok ptab"
    and rp: "\<And>p i j. hget ptab p = Some i \<Longrightarrow>
        hget routes (first_channel_segment p) = Some j \<Longrightarrow> i = j"
    and pp: "\<And>p q i j. hget ptab p = Some i \<Longrightarrow> hget ptab q = Some j \<Longrightarrow>
        channel_prefixes_overlap p q \<Longrightarrow> i = j"
    using assms(1) unfolding t tables_inv.simps by blast+
  have new_claim: "\<And>p i. hget ptab p = Some i \<Longrightarrow>
      first_channel_segment p \<in> set claims \<Longrightarrow> i = xid"
    using adm hget_set [OF ok(2)] unfolding claims_admissible_def by fastforce
  have new_pre: "\<And>p j. p \<in> set pres \<Longrightarrow> hget routes (first_channel_segment p) = Some j \<Longrightarrow> j = xid"
    using adm unfolding claims_admissible_def by blast
  have new_pp: "\<And>p q j. p \<in> set pres \<Longrightarrow> hget ptab q = Some j \<Longrightarrow>
      channel_prefixes_overlap p q \<Longrightarrow> j = xid"
    using adm hget_set [OF ok(2)] unfolding claims_admissible_def by fastforce
  have "i = j" if "hget (insert_all xid pres ptab) p = Some i"
    "hget (insert_all xid claims routes) (first_channel_segment p) = Some j" for p i j
    using that new_claim [of p i] new_pre [of p j] rp [of p i j]
    by (auto simp: hget_insert_all split: if_splits)
  moreover have "i = j" if "hget (insert_all xid pres ptab) p = Some i"
    "hget (insert_all xid pres ptab) q = Some j" "channel_prefixes_overlap p q" for p q i j
    using that new_pp [of p q j] new_pp [of q p i] pp [of p i q j] overlap_sym [of p q]
    by (auto simp: hget_insert_all split: if_splits)
  ultimately show ?thesis
    using ok unfolding t tables_register.simps tables_inv.simps by auto
qed

lemma tables_inv_release: "tables_inv t \<Longrightarrow> tables_inv (tables_release xid t)"
  by (cases t) (fastforce simp: hget_retain_others)

lemma tables_exclusive:
  assumes "tables_inv t" and "tables_owned t i ch" and "tables_owned t j ch"
  shows "i = j"
proof -
  obtain routes ptab where t: "t = (routes, ptab)" by (cases t)
  have rp: "\<And>p i j. hget ptab p = Some i \<Longrightarrow>
        hget routes (first_channel_segment p) = Some j \<Longrightarrow> i = j"
    and pp: "\<And>p q i j. hget ptab p = Some i \<Longrightarrow> hget ptab q = Some j \<Longrightarrow>
        channel_prefixes_overlap p q \<Longrightarrow> i = j"
    using assms(1) unfolding t tables_inv.simps by blast+
  from assms(2,3) show ?thesis
    unfolding t tables_owned.simps
    using rp pp by (metis in_prefix_first option.inject overlap_common)
qed

interpretation ns: namespace_table tables_inv tables_admit tables_register tables_release tables_owned
proof
  fix t :: ns_tables and i cs ps ch
  assume inv: "tables_inv t" and adm: "tables_admit t i cs ps"
  show "tables_inv (tables_register i cs ps t)"
    using inv adm by (rule tables_inv_register)
  show "owns_channel cs ps ch \<Longrightarrow> tables_owned (tables_register i cs ps t) i ch"
    by (cases t) (auto simp: owns_channel_def first_channel_segment_hd hget_insert_all in_prefix_tokens)
  fix j
  assume own: "tables_owned t j ch"
  obtain routes ptab where t: "t = (routes, ptab)" by (cases t)
  have "claims_admissible i cs ps routes ptab"
    using adm by (simp add: t registration_iff_admissible)
  then have "p \<in> set ps \<Longrightarrow> hget ptab p = Some k \<Longrightarrow> k = i"
    and "c \<in> set cs \<Longrightarrow> hget routes c = None" for p k c
    using hget_set [of ptab p k] inv
    by (fastforce simp: claims_admissible_def t channel_prefixes_overlap_def channel_is_in_prefix_def)+
  with own show "tables_owned (tables_register i cs ps t) j ch"
    unfolding t tables_register.simps tables_owned.simps hget_insert_all
    by (metis option.distinct(1))
next
  fix t :: ns_tables and i j ch
  assume inv: "tables_inv t"
  then show "tables_inv (tables_release i t)" by (rule tables_inv_release)
  show "\<not> tables_owned (tables_release i t) i ch"
    using inv by (cases t) (auto simp: hget_retain_others)
  show "j \<noteq> i \<Longrightarrow> tables_owned t j ch \<Longrightarrow> tables_owned (tables_release i t) j ch"
    using inv by (cases t) (auto simp: hget_retain_others)
qed (rule tables_exclusive)

section \<open>Properties\<close>

text \<open>
  C13: a registration is accepted exactly when its path claims are well formed, distinct and
  unrouted, its channel prefixes are valid channels no two of which overlap, and neither
  reaches into a namespace another extension holds.
\<close>

theorem validate_registration_claims_iff:
  "validate_registration_claims xid claims pres routes ptab = Inr () \<longleftrightarrow>
     claims_admissible xid claims pres routes ptab"
  by (rule registration_iff_admissible)

text \<open>
  Of the events an extension returns, exactly those on channels it owns are passed on, in
  their order, and every other one is counted as a violation; owning a channel is having
  claimed its first token or a prefix of its tokens.
\<close>

theorem filter_owned_events_exact:
  "filter_owned_events ext_id paths pres 0 es =
     (filter (\<lambda>e. owns_channel paths pres (ev_channel e)) es,
      length (filter (\<lambda>e. \<not> owns_channel paths pres (ev_channel e)) es))"
  using filter_owned_events_eq [of ext_id paths pres 0 es] by simp

text \<open>
  An extension that is admitted can emit on no channel another extension holds, and it takes
  nothing away from the others.
\<close>

theorem admitted_registration_disjoint:
  assumes "tables_inv t" and "tables_admit t i claims pres" and "tables_owned t j ch" and "j \<noteq> i"
  shows "validate_emitted_channel ch i claims pres \<noteq> Inr () \<and>
    tables_owned (tables_register i claims pres t) j ch"
  using ns.admitted_disjoint [OF assms(1,2,3)] ns.kept_register [OF assms(1,2,3)] assms(4)
  by (auto simp: emitted_iff_owns)

definition sample_tables :: ns_tables where
  "sample_tables = ([(''gh'', ''gh'')], [(''ci.logs'', ''gh'')])"

lemma sample_tables_inv: "tables_inv sample_tables"
proof -
  have seg: "first_channel_segment ''ci.logs'' = ''ci''" by code_simp
  show ?thesis by (simp add: sample_tables_def hm_ok_def hget_def seg)
qed

theorem admitted_registration_disjoint_witness:
  "validate_emitted_channel ''ci.logs.x'' ''ci-build'' [''ci-build''] [''build''] \<noteq> Inr ()"
proof (rule conjunct1 [OF admitted_registration_disjoint [OF sample_tables_inv]])
  show "tables_admit sample_tables ''ci-build'' [''ci-build''] [''build'']" by code_simp
  have "validate_channel ''ci.logs.x'' = Inr ()" "channel_is_in_prefix ''ci.logs.x'' ''ci.logs''"
    by code_simp+
  then show "tables_owned sample_tables ''gh'' ''ci.logs.x''"
    by (simp add: sample_tables_def hget_def exI [of _ "''ci.logs''"])
qed simp

end
