(* ===== verification/Token_Store.thy ===== *)
theory Token_Store
  imports Subscriber_Ws
begin

text \<open>
  \<^verbatim>\<open>crates/whdr-server/src/token_store.rs\<close> and \<^verbatim>\<open>token_control.rs\<close>: subscriber tokens, kept as
  hashes in memory and in a private TOML file, and the admin operations on them.  SHA-256 in
  hex (\<open>digest\<close>), URL-safe base64 of the random bytes (\<open>random\<close>), the clock (\<open>now\<close>) and TOML
  (\<open>to_toml\<close>, \<open>from_toml\<close>) are arguments.  \<^verbatim>\<open>persist\<close> writes a temporary file and renames it
  over the store: its outcome says whether it failed before the rename, after it, or not.
\<close>

section \<open>The code\<close>

record token_record =
  tr_hash :: string
  tr_created :: string

type_synonym token_map = "(string, token_record) hashmap"

record token_store =
  ts_path :: string
  ts_tokens :: token_map

datatype token_error =
    InvalidTokenName string
  | TokenNameExists string
  | UnknownTokenName string
  | TokenFileError
  | TokenConfigError config_error

definition validate_name :: "string \<Rightarrow> token_error + unit" where
  "validate_name name =
     (if name = [] \<or>
         \<not> list_all (\<lambda>b. is_ascii_alphanumeric b \<or> b = CHR ''-'' \<or> b = CHR ''_'') name
      then Inl (InvalidTokenName name) else Inr ())"

definition mint_token :: "string \<Rightarrow> string" where
  "mint_token random = ''tok_'' @ random"

definition hash_token :: "(string \<Rightarrow> string) \<Rightarrow> string \<Rightarrow> string" where
  "hash_token digest token = ''sha256:'' @ digest token"

definition record_for :: "(string \<Rightarrow> string) \<Rightarrow> string \<Rightarrow> string \<Rightarrow> token_record" where
  "record_for digest now token = \<lparr>tr_hash = hash_token digest token, tr_created = now\<rparr>"

definition fingerprint :: "string \<Rightarrow> string" where
  "fingerprint hash = concat (rev (take 8 (rev (utf8_chars hash))))"

text \<open>The file: its mode and text.\<close>

definition load_or_empty ::
  "(string \<Rightarrow> token_map option) \<Rightarrow> string \<Rightarrow> (u32 \<times> string) option \<Rightarrow> token_error + token_store" where
  "load_or_empty from_toml path file =
     (case file of
        None \<Rightarrow> Inr \<lparr>ts_path = path, ts_tokens = []\<rparr>
      | Some (mode, text) \<Rightarrow>
          (case enforce_0600 (\<lambda>_. Some mode) path of
             Inl e \<Rightarrow> Inl (TokenConfigError e)
           | Inr _ \<Rightarrow>
               if trim text = [] then Inr \<lparr>ts_path = path, ts_tokens = []\<rparr>
               else (case from_toml text of
                       None \<Rightarrow> Inl TokenFileError
                     | Some tokens \<Rightarrow> Inr \<lparr>ts_path = path, ts_tokens = tokens\<rparr>)))"

datatype persist_outcome = Persisted | FailedBeforeRename | FailedAfterRename

text \<open>The new contents of the file and the result.\<close>

definition persist ::
  "(token_map \<Rightarrow> string option) \<Rightarrow> persist_outcome \<Rightarrow> token_store \<Rightarrow> (u32 \<times> string) option \<Rightarrow>
   (token_error + unit) \<times> (u32 \<times> string) option" where
  "persist to_toml outcome self file =
     (case to_toml (ts_tokens self) of
        None \<Rightarrow> (Inl TokenFileError, file)
      | Some text \<Rightarrow>
          (case outcome of
             FailedBeforeRename \<Rightarrow> (Inl TokenFileError, file)
           | FailedAfterRename \<Rightarrow> (Inl TokenFileError, Some (384, text))
           | Persisted \<Rightarrow> (Inr (), Some (384, text))))"

text \<open>
  The world of a store operation: the hash function, the random bytes, the clock, TOML and how
  the write of the file goes.
\<close>

record token_env =
  te_digest :: "string \<Rightarrow> string"
  te_random :: string
  te_now :: string
  te_to_toml :: "token_map \<Rightarrow> string option"
  te_outcome :: persist_outcome

type_synonym token_file = "(u32 \<times> string) option"

definition put_token ::
  "token_env \<Rightarrow> string \<Rightarrow> token_store \<Rightarrow> token_file \<Rightarrow>
   (token_error + string) \<times> token_store \<times> token_file" where
  "put_token env name self file =
     (let token = mint_token (te_random env);
          self' = self\<lparr>ts_tokens := hinsert name (record_for (te_digest env) (te_now env) token)
                     (ts_tokens self)\<rparr>
      in (case persist (te_to_toml env) (te_outcome env) self' file of
            (Inl e, file') \<Rightarrow> (Inl e, self', file')
          | (Inr _, file') \<Rightarrow> (Inr token, self', file')))"

definition token_add ::
  "token_env \<Rightarrow> string \<Rightarrow> token_store \<Rightarrow> token_file \<Rightarrow>
   (token_error + string) \<times> token_store \<times> token_file" where
  "token_add env name self file =
     (case validate_name name of
        Inl e \<Rightarrow> (Inl e, self, file)
      | Inr _ \<Rightarrow>
          if hget (ts_tokens self) name \<noteq> None then (Inl (TokenNameExists name), self, file)
          else put_token env name self file)"

definition token_rotate ::
  "token_env \<Rightarrow> string \<Rightarrow> token_store \<Rightarrow> token_file \<Rightarrow>
   (token_error + string) \<times> token_store \<times> token_file" where
  "token_rotate env name self file =
     (case validate_name name of
        Inl e \<Rightarrow> (Inl e, self, file)
      | Inr _ \<Rightarrow>
          if hget (ts_tokens self) name = None then (Inl (UnknownTokenName name), self, file)
          else put_token env name self file)"

definition token_revoke ::
  "token_env \<Rightarrow> string \<Rightarrow> token_store \<Rightarrow> token_file \<Rightarrow>
   (token_error + unit) \<times> token_store \<times> token_file" where
  "token_revoke env name self file =
     (if hget (ts_tokens self) name = None then (Inl (UnknownTokenName name), self, file)
      else (let self' = self\<lparr>ts_tokens := hremove name (ts_tokens self)\<rparr>
            in (case persist (te_to_toml env) (te_outcome env) self' file of
                  (res, file') \<Rightarrow> (res, self', file'))))"

fun find_hash :: "string \<Rightarrow> token_map \<Rightarrow> string option" where
  "find_hash hash [] = None"
| "find_hash hash ((name, rec) # m) = (if tr_hash rec = hash then Some name else find_hash hash m)"

definition authenticate :: "(string \<Rightarrow> string) \<Rightarrow> token_store \<Rightarrow> string \<Rightarrow> string option" where
  "authenticate digest self presented = find_hash (hash_token digest presented) (ts_tokens self)"

definition token_list :: "(string, nat) hashmap \<Rightarrow> token_store \<Rightarrow> token_summary list" where
  "token_list active self =
     map (\<lambda>(name, rec).
            \<lparr>sum_name = name, sum_fingerprint = fingerprint (tr_hash rec), sum_created = tr_created rec,
             sum_active_conns = (case hget active name of None \<Rightarrow> 0 | Some n \<Rightarrow> n)\<rparr>)
       (ts_tokens self)"

definition token_names :: "token_store \<Rightarrow> string list" where
  "token_names self = map fst (ts_tokens self)"

definition invalidated_names :: "token_store \<Rightarrow> token_store \<Rightarrow> string list" where
  "invalidated_names replacement self =
     map fst (filter (\<lambda>(name, rec). hget (ts_tokens replacement) name \<noteq> Some rec) (ts_tokens self))"

subsection \<open>Token control\<close>

text \<open>\<open>show_error\<close> is the error's \<^verbatim>\<open>Display\<close>.\<close>

definition control_add ::
  "(token_error \<Rightarrow> string) \<Rightarrow> token_env \<Rightarrow> string \<Rightarrow> token_store \<Rightarrow> token_file \<Rightarrow>
   'j control_response \<times> token_store \<times> token_file" where
  "control_add show_error env name store file =
     (case token_add env name store file of
        (Inr token, store', file') \<Rightarrow> (CtlToken name token, store', file')
      | (Inl err, store', file') \<Rightarrow> (CtlError (show_error err), store', file'))"

definition control_rotate ::
  "(token_error \<Rightarrow> string) \<Rightarrow> token_env \<Rightarrow> string \<Rightarrow> token_store \<Rightarrow> token_file \<Rightarrow> registry \<Rightarrow>
   'j control_response \<times> token_store \<times> token_file \<times> registry" where
  "control_rotate show_error env name store file reg =
     (case token_rotate env name store file of
        (Inr token, store', file') \<Rightarrow>
          (CtlToken name token, store', file', close_named name CloseRevoked reg)
      | (Inl err, store', file') \<Rightarrow> (CtlError (show_error err), store', file', reg))"

definition control_revoke ::
  "(token_error \<Rightarrow> string) \<Rightarrow> token_env \<Rightarrow> string \<Rightarrow> token_store \<Rightarrow> token_file \<Rightarrow> registry \<Rightarrow>
   'j control_response \<times> token_store \<times> token_file \<times> registry" where
  "control_revoke show_error env name store file reg =
     (case token_revoke env name store file of
        (Inr _, store', file') \<Rightarrow> (CtlOk, store', file', close_named name CloseRevoked reg)
      | (Inl err, store', file') \<Rightarrow> (CtlError (show_error err), store', file', reg))"

definition control_list :: "token_store \<Rightarrow> registry \<Rightarrow> 'j control_response" where
  "control_list store reg = CtlTokens (token_list (active_connection_counts reg) store)"

section \<open>Authentication\<close>

lemma find_hash_Some: "find_hash h m = Some n \<Longrightarrow> \<exists>r. (n, r) \<in> set m \<and> tr_hash r = h"
  by (induction m) (auto split: if_splits)

lemma find_hash_None: "find_hash h m = None \<longleftrightarrow> (\<forall>(n, r) \<in> set m. tr_hash r \<noteq> h)"
  by (induction m) (auto split: if_splits)

lemma find_hash_hget:
  assumes "hm_ok m"
  shows "find_hash h m = Some n \<Longrightarrow> \<exists>r. hget m n = Some r \<and> tr_hash r = h"
    and "find_hash h m = None \<longleftrightarrow> (\<forall>n r. hget m n = Some r \<longrightarrow> tr_hash r \<noteq> h)"
proof -
  show "\<exists>r. hget m n = Some r \<and> tr_hash r = h" if "find_hash h m = Some n"
    using find_hash_Some [OF that] hget_set [OF assms] by blast
  have "(\<forall>(n, r) \<in> set m. tr_hash r \<noteq> h) \<longleftrightarrow> (\<forall>n r. hget m n = Some r \<longrightarrow> tr_hash r \<noteq> h)"
    unfolding hget_set [OF assms, symmetric] by blast
  then show "find_hash h m = None \<longleftrightarrow> (\<forall>n r. hget m n = Some r \<longrightarrow> tr_hash r \<noteq> h)"
    by (simp only: find_hash_None)
qed

lemma find_hash_unique:
  assumes "hm_ok m" and "hget m n = Some r" and "tr_hash r = h"
    and "\<And>n' r'. hget m n' = Some r' \<Longrightarrow> tr_hash r' = h \<Longrightarrow> n' = n"
  shows "find_hash h m = Some n"
proof (cases "find_hash h m")
  case None
  with assms(2,3) show ?thesis unfolding find_hash_hget(2) [OF assms(1)] by blast
next
  case (Some n')
  with assms(4) find_hash_hget(1) [OF assms(1)] show ?thesis by blast
qed

lemma find_hash_absent:
  assumes "hm_ok m" and "\<And>n r. hget m n = Some r \<Longrightarrow> tr_hash r \<noteq> h"
  shows "find_hash h m = None"
  unfolding find_hash_hget(2) [OF assms(1)] using assms(2) by blast

lemma find_hash_hinsert_other:
  "hm_ok m \<Longrightarrow> tr_hash v \<noteq> h \<Longrightarrow> (\<And>r. hget m k = Some r \<Longrightarrow> tr_hash r \<noteq> h) \<Longrightarrow>
   find_hash h (hinsert k v m) = find_hash h m"
proof (induction m)
  case (Cons e m)
  obtain k' v' where e: "e = (k', v')" by (cases e)
  show ?case
  proof (cases "k' = k")
    case True
    with Cons.prems show ?thesis by (simp add: e hinsert_def hget_def)
  next
    case False
    with Cons.IH Cons.prems show ?thesis by (auto simp: e hinsert_def hget_def hm_ok_def)
  qed
qed (simp add: hinsert_def)

lemma find_hash_hremove_other:
  "(\<And>r. hget m k = Some r \<Longrightarrow> tr_hash r \<noteq> h) \<Longrightarrow> hm_ok m \<Longrightarrow>
   find_hash h (hremove k m) = find_hash h m"
proof (induction m)
  case (Cons e m)
  obtain k' v' where e: "e = (k', v')" by (cases e)
  show ?case
  proof (cases "k' = k")
    case True
    then have "hremove k m = m" using Cons.prems(2) by (auto simp: e hremove_def hm_ok_def)
    with True Cons.prems show ?thesis by (simp add: e hremove_def hget_def)
  next
    case False
    with Cons.IH Cons.prems show ?thesis by (auto simp: e hremove_def hget_def hm_ok_def)
  qed
qed (simp add: hremove_def)

text \<open>The hash \<open>h\<close> is stored under no name but \<open>name\<close>.\<close>

definition only_under :: "string \<Rightarrow> string \<Rightarrow> token_map \<Rightarrow> bool" where
  "only_under name h m \<longleftrightarrow> (\<forall>n r. hget m n = Some r \<longrightarrow> tr_hash r = h \<longrightarrow> n = name)"

lemma put_token_ok:
  "put_token env name self file = (Inr token, self', file') \<Longrightarrow>
   token = mint_token (te_random env) \<and>
   self' = self\<lparr>ts_tokens := hinsert name (record_for (te_digest env) (te_now env) token) (ts_tokens self)\<rparr>"
  by (auto simp: put_token_def Let_def split: prod.splits sum.splits)

lemma token_rotate_ok:
  "token_rotate env name self file = (Inr token, self', file') \<Longrightarrow>
   put_token env name self file = (Inr token, self', file')"
  by (auto simp: token_rotate_def split: sum.splits if_splits)

lemma token_revoke_ok:
  "token_revoke env name self file = (Inr u, self', file') \<Longrightarrow>
   self' = self\<lparr>ts_tokens := hremove name (ts_tokens self)\<rparr>"
  by (auto simp: token_revoke_def Let_def split: prod.splits if_splits)

section \<open>Properties\<close>

definition sample_record :: token_record where
  "sample_record = \<lparr>tr_hash = ''sha256:tok_r'', tr_created = ''t''\<rparr>"

definition sample_store :: token_store where
  "sample_store = \<lparr>ts_path = ''p'',
     ts_tokens = [(''n'', \<lparr>tr_hash = ''sha256:tok_old'', tr_created = ''s''\<rparr>)]\<rparr>"

definition sample_tenv :: "persist_outcome \<Rightarrow> token_env" where
  "sample_tenv out = \<lparr>te_digest = (\<lambda>s. s), te_random = ''r'', te_now = ''t'',
     te_to_toml = (\<lambda>m. if m = [(''n'', sample_record)] then Some (''s'')
                       else if m = [] then Some [] else None), te_outcome = out\<rparr>"

lemma sample_store_ok: "hm_ok (ts_tokens sample_store)"
  by (simp add: sample_store_def hm_ok_def)

lemma sample_store_get:
  "hget (ts_tokens sample_store) ''n'' = Some \<lparr>tr_hash = ''sha256:tok_old'', tr_created = ''s''\<rparr>"
  by (simp add: sample_store_def hget_def)

lemma sample_only_under: "only_under ''n'' h (ts_tokens sample_store)"
  by (simp add: only_under_def sample_store_def hget_def)

lemma sample_rotate:
  "token_rotate (sample_tenv Persisted) ''n'' sample_store None =
     (Inr ''tok_r'', sample_store\<lparr>ts_tokens := [(''n'', sample_record)]\<rparr>, Some (384, ''s''))"
  by (simp add: token_rotate_def validate_name_def is_ascii_alphanumeric_def is_ascii_lowercase_def
      code_of_def sample_store_def hget_def put_token_def persist_def Let_def hinsert_def
      sample_tenv_def record_for_def hash_token_def mint_token_def sample_record_def)

text \<open>
  C39: after a rotation the new token opens connections under its name, the one it replaces opens
  none, and every other token does what it did before, provided the hash function does not
  make the tokens concerned collide.
\<close>

theorem rotate_replaces_token:
  assumes "token_rotate env name store file = (Inr token, store', file')"
    and "hm_ok (ts_tokens store)" and "hget (ts_tokens store) name = Some r"
    and "tr_hash r = hash_token (te_digest env) old"
    and "only_under name (hash_token (te_digest env) old) (ts_tokens store)"
    and "only_under name (hash_token (te_digest env) token) (ts_tokens store)"
    and "te_digest env old \<noteq> te_digest env token"
  shows "authenticate (te_digest env) store' token = Some name \<and>
    authenticate (te_digest env) store' old = None \<and>
    (\<forall>p. te_digest env p \<noteq> te_digest env old \<longrightarrow> te_digest env p \<noteq> te_digest env token \<longrightarrow>
       authenticate (te_digest env) store' p = authenticate (te_digest env) store p)"
proof -
  define m where "m = ts_tokens store"
  define v where "v = record_for (te_digest env) (te_now env) token"
  have st: "ts_tokens store' = hinsert name v m"
    using put_token_ok [OF token_rotate_ok [OF assms(1)]] by (simp add: m_def v_def)
  have hv: "tr_hash v = hash_token (te_digest env) token" by (simp add: v_def record_for_def)
  have "find_hash (hash_token (te_digest env) token) (hinsert name v m) = Some name"
    using assms(2,6) hv
    by (intro find_hash_unique [where r = v]) (auto simp: hm_simps m_def only_under_def split: if_splits)
  moreover have "find_hash (hash_token (te_digest env) old) (hinsert name v m) = None"
    using assms(2,5,7) hv
    by (intro find_hash_absent) (auto simp: hm_simps m_def only_under_def hash_token_def split: if_splits)
  moreover have "find_hash (hash_token (te_digest env) p) (hinsert name v m) =
      find_hash (hash_token (te_digest env) p) m"
    if "te_digest env p \<noteq> te_digest env old" "te_digest env p \<noteq> te_digest env token" for p
    using assms(2,3,4) hv that
    by (intro find_hash_hinsert_other) (auto simp: m_def hash_token_def)
  ultimately show ?thesis by (simp add: authenticate_def st m_def)
qed

theorem rotate_replaces_token_witness:
  "authenticate (\<lambda>s. s) (sample_store\<lparr>ts_tokens := [(''n'', sample_record)]\<rparr>) ''tok_r'' = Some ''n'' \<and>
   authenticate (\<lambda>s. s) (sample_store\<lparr>ts_tokens := [(''n'', sample_record)]\<rparr>) ''tok_old'' = None"
proof -
  have digest: "te_digest (sample_tenv Persisted) = (\<lambda>s. s)" by (simp add: sample_tenv_def)
  have "authenticate (te_digest (sample_tenv Persisted))
      (sample_store\<lparr>ts_tokens := [(''n'', sample_record)]\<rparr>) ''tok_r'' = Some ''n'' \<and>
    authenticate (te_digest (sample_tenv Persisted))
      (sample_store\<lparr>ts_tokens := [(''n'', sample_record)]\<rparr>) ''tok_old'' = None"
    using rotate_replaces_token [OF sample_rotate sample_store_ok sample_store_get, of "''tok_old''"]
      sample_only_under
    by (simp add: digest hash_token_def)
  then show ?thesis by (simp only: digest)
qed

text \<open>
  C40: revoking a name cuts it off at once.  The token no longer authenticates, every open
  connection under the name is told to close as revoked, and connections and tokens of other
  names are not touched.
\<close>

theorem revoke_cuts_off:
  assumes "control_revoke show_error env name store file reg = (CtlOk, store', file', reg')"
    and "hm_ok (ts_tokens store)" and "only_under name (hash_token (te_digest env) old) (ts_tokens store)"
  shows "authenticate (te_digest env) store' old = None \<and>
    (\<forall>p n. n \<noteq> name \<longrightarrow> authenticate (te_digest env) store p = Some n \<longrightarrow>
       (\<exists>n'. authenticate (te_digest env) store' p = Some n')) \<and>
    (\<forall>sid s. hget (rg_subscribers reg) sid = Some s \<longrightarrow>
       hget (rg_subscribers reg') sid =
         Some (if sub_name s = name then s\<lparr>sub_close := Some CloseRevoked\<rparr> else s))"
proof -
  define m where "m = ts_tokens store"
  obtain u where rv: "token_revoke env name store file = (Inr u, store', file')"
    and reg': "reg' = close_named name CloseRevoked reg"
    using assms(1) by (auto simp: control_revoke_def split: prod.splits sum.splits)
  have st: "ts_tokens store' = hremove name m" using token_revoke_ok [OF rv] by (simp add: m_def)
  have "find_hash (hash_token (te_digest env) old) (hremove name m) = None"
    using assms(2,3)
    by (intro find_hash_absent) (auto simp: m_def hm_simps only_under_def split: if_splits)
  moreover have "\<exists>n'. find_hash h (hremove name m) = Some n'"
    if n: "n \<noteq> name" and h: "find_hash h m = Some n" for h n
  proof -
    have ok: "hm_ok m" using assms(2) by (simp add: m_def)
    obtain r where r: "hget m n = Some r" "tr_hash r = h" using find_hash_hget(1) [OF ok h] by blast
    then have "hget (hremove name m) n = Some r" using n by (simp add: hm_simps)
    with r(2) show ?thesis
      using find_hash_hget(2) [OF hm_ok_hremove [OF ok], of h] by (metis not_Some_eq)
  qed
  moreover have "hget (rg_subscribers reg') sid =
      map_option (\<lambda>s. if sub_name s = name then s\<lparr>sub_close := Some CloseRevoked\<rparr> else s)
        (hget (rg_subscribers reg) sid)" for sid
    by (simp add: reg' close_named_def hm_simps)
  ultimately show ?thesis by (simp add: authenticate_def st m_def)
qed

lemma sample_revoke:
  "(control_revoke (\<lambda>_. []) (sample_tenv Persisted) ''n'' sample_store None SubscriberRegistry_new
      :: unit control_response \<times> _) =
     (CtlOk, sample_store\<lparr>ts_tokens := []\<rparr>, Some (384, []),
      close_named ''n'' CloseRevoked SubscriberRegistry_new)"
  by (simp add: control_revoke_def token_revoke_def sample_store_def hget_def persist_def Let_def
      hremove_def sample_tenv_def sample_record_def)

theorem revoke_cuts_off_witness:
  "authenticate (\<lambda>s. s) (sample_store\<lparr>ts_tokens := []\<rparr>) ''tok_old'' = None"
proof -
  have digest: "te_digest (sample_tenv Persisted) = (\<lambda>s. s)" by (simp add: sample_tenv_def)
  show ?thesis
    using revoke_cuts_off [OF sample_revoke sample_store_ok sample_only_under, of "''tok_old''"]
    unfolding digest by blast
qed

text \<open>
  A connection is upgraded exactly when the request carries a bearer token whose hash is
  stored, and then it runs under the name the hash is stored under.
\<close>

theorem handshake_needs_stored_token:
  assumes "hm_ok (ts_tokens store)"
  shows "(\<exists>nm. subscribe_handler (authenticate digest store) header = Upgrade nm) \<longleftrightarrow>
    (\<exists>token nm r. header = Some (''Bearer '' @ token) \<and> hget (ts_tokens store) nm = Some r \<and>
       tr_hash r = hash_token digest token)"
proof -
  have auth: "(\<exists>nm. authenticate digest store token = Some nm) \<longleftrightarrow>
      (\<exists>nm r. hget (ts_tokens store) nm = Some r \<and> tr_hash r = hash_token digest token)" for token
    using find_hash_hget(2) [OF assms, of "hash_token digest token"] unfolding authenticate_def
    by (metis not_Some_eq)
  have "(\<exists>nm. subscribe_handler (authenticate digest store) header = Upgrade nm) \<longleftrightarrow>
      (\<exists>token. header = Some (''Bearer '' @ token) \<and> (\<exists>nm. authenticate digest store token = Some nm))"
    by (cases header) (auto simp: subscribe_handler_def strip_prefix_eq split: option.splits)
  then show ?thesis unfolding auth by blast
qed

theorem handshake_needs_stored_token_witness:
  "\<exists>nm. subscribe_handler (authenticate (\<lambda>s. s) sample_store) (Some ''Bearer tok_old'') = Upgrade nm"
proof -
  have "''Bearer tok_old'' = ''Bearer '' @ ''tok_old''" by simp
  then have "\<exists>token nm r. Some ''Bearer tok_old'' = Some (''Bearer '' @ token) \<and>
      hget (ts_tokens sample_store) nm = Some r \<and> tr_hash r = hash_token (\<lambda>s. s) token"
    using sample_store_get unfolding hash_token_def by fastforce
  then show ?thesis
    unfolding handshake_needs_stored_token [OF sample_store_ok, of "\<lambda>s. s" "Some ''Bearer tok_old''"] .
qed

text \<open>
  A store operation that reports success is durable: loading the file afterwards gives the
  store that is in memory, if TOML reads back what it wrote.
\<close>

theorem persisted_store_reloads:
  assumes "put_token env name store file = (Inr token, store', file')"
    and "\<And>m body. te_to_toml env m = Some body \<Longrightarrow>
      (if trim body = [] then m = [] else from_toml body = Some m)"
  shows "load_or_empty from_toml (ts_path store) file' = Inr store'"
proof -
  obtain body where body: "te_to_toml env (ts_tokens store') = Some body" "file' = Some (384, body)"
    "ts_path store' = ts_path store"
    using assms(1)
    by (auto simp: put_token_def persist_def Let_def
        split: option.splits persist_outcome.splits prod.splits sum.splits)
  have "enforce_0600 (\<lambda>_. Some 384) (ts_path store) = Inr ()"
    by (simp add: enforce_0600_def Let_def)
  then show ?thesis
    using body assms(2) [OF body(1)] by (cases store') (auto simp: load_or_empty_def split: if_splits)
qed

lemma sample_put:
  "put_token (sample_tenv Persisted) ''n'' sample_store None =
     (Inr ''tok_r'', sample_store\<lparr>ts_tokens := [(''n'', sample_record)]\<rparr>, Some (384, ''s''))"
  using token_rotate_ok [OF sample_rotate] .

theorem persisted_store_reloads_witness:
  "load_or_empty (\<lambda>_. Some [(''n'', sample_record)]) ''p'' (Some (384, ''s'')) =
     Inr (sample_store\<lparr>ts_tokens := [(''n'', sample_record)]\<rparr>)"
proof -
  have "trim (''s'') = ''s''" "trim [] = []"
    using trim_stable sample_trimmed by (blast, simp add: trim_def trim_start_def trim_end_def)
  then have codec: "\<And>m body. te_to_toml (sample_tenv Persisted) m = Some body \<Longrightarrow>
      (if trim body = [] then m = [] else Some [(''n'', sample_record)] = Some m)"
    by (auto simp: sample_tenv_def split: if_splits)
  have "ts_path sample_store = ''p''" by (simp add: sample_store_def)
  then show ?thesis
    using persisted_store_reloads [OF sample_put, of "\<lambda>_. Some [(''n'', sample_record)]", OF codec]
    by simp
qed

text \<open>
  An operation whose file write fails reports an error but has already changed the store in
  memory: after a failed revocation the token is refused by the running server while the file
  still holds it.
\<close>

theorem failed_revoke_diverges:
  assumes "hget (ts_tokens store) name = Some r" and "te_outcome env = FailedBeforeRename"
  shows "\<exists>e store'. token_revoke env name store file = (Inl e, store', file) \<and>
    hget (ts_tokens store') name = None"
  using assms by (auto simp: token_revoke_def persist_def Let_def hm_simps split: option.splits)

theorem failed_revoke_diverges_witness:
  "\<exists>e store'. token_revoke (sample_tenv FailedBeforeRename) ''n'' sample_store None = (Inl e, store', None) \<and>
     hget (ts_tokens store') ''n'' = None"
  by (rule failed_revoke_diverges) (simp_all add: sample_store_def hget_def sample_tenv_def)

text \<open>
  A reload cuts off exactly the names whose record is gone or changed in the file it reads.
\<close>

theorem invalidated_names_exact:
  assumes "hm_ok (ts_tokens store)"
  shows "name \<in> set (invalidated_names replacement store) \<longleftrightarrow>
    (\<exists>r. hget (ts_tokens store) name = Some r \<and> hget (ts_tokens replacement) name \<noteq> Some r)"
  using hget_set [OF assms] by (force simp: invalidated_names_def)

theorem invalidated_names_exact_witness:
  "''n'' \<in> set (invalidated_names (sample_store\<lparr>ts_tokens := []\<rparr>) sample_store)"
  unfolding invalidated_names_exact [OF sample_store_ok]
  using sample_store_get by (simp add: hget_def)

end
