(* ===== verification/Dispatch_Window.thy ===== *)
theory Dispatch_Window
  imports Prelude
begin

text \<open>
  \<^verbatim>\<open>crates/whdr-server/src/dispatch_window.rs\<close>: the window of dispatches in flight to one
  extension.  The table of pending dispatches is behind a mutex, the counter is an atomic read
  and written by compare-and-swap, and the permit of an entry is released when the entry is
  dropped.  The operations are functions on the shared state; the tasks that call them are an
  inductive step relation in which every atomic action is a step, so a reservation can be
  interleaved with others between its load, its compare-and-swap and its insertion.
\<close>

section \<open>The code\<close>

text \<open>The sender half of the one-shot channel is named by the task that waits on it.\<close>

record window =
  dw_pending :: "(uuid, nat) hashmap"
  dw_in_flight :: nat

definition DispatchWindow_new :: window where
  "DispatchWindow_new = \<lparr>dw_pending = [], dw_in_flight = 0\<rparr>"

datatype cas_round = Refused | Acquired | Retry nat

text \<open>
  One round of the loop of \<^verbatim>\<open>reserve_in_flight\<close> with the value it last saw; a weak
  compare-and-swap may also fail spuriously.
\<close>

definition reserve_round :: "nat \<Rightarrow> bool \<Rightarrow> nat \<Rightarrow> window \<Rightarrow> cas_round \<times> window" where
  "reserve_round limit spurious current w =
     (if current \<ge> limit then (Refused, w)
      else if dw_in_flight w = current \<and> \<not> spurious
           then (Acquired, w\<lparr>dw_in_flight := current + 1\<rparr>)
           else (Retry (dw_in_flight w), w))"

definition release_in_flight :: "nat \<Rightarrow> nat" where
  "release_in_flight v = v - 1"

text \<open>Dropping \<open>n\<close> entries drops \<open>n\<close> permits.\<close>

definition drop_permits :: "nat \<Rightarrow> window \<Rightarrow> window" where
  "drop_permits n w = w\<lparr>dw_in_flight := (release_in_flight ^^ n) (dw_in_flight w)\<rparr>"

text \<open>\<^verbatim>\<open>HashMap::insert\<close>: an entry it replaces is dropped.\<close>

definition pending_insert :: "uuid \<Rightarrow> nat \<Rightarrow> window \<Rightarrow> window" where
  "pending_insert req_id tx w =
     drop_permits (if hget (dw_pending w) req_id = None then 0 else 1)
       (w\<lparr>dw_pending := hinsert req_id tx (dw_pending w)\<rparr>)"

definition window_remove :: "uuid \<Rightarrow> window \<Rightarrow> nat option \<times> window" where
  "window_remove req_id w =
     (case hget (dw_pending w) req_id of
        None \<Rightarrow> (None, w)
      | Some tx \<Rightarrow> (Some tx, drop_permits 1 (w\<lparr>dw_pending := hremove req_id (dw_pending w)\<rparr>)))"

definition window_clear :: "window \<Rightarrow> window" where
  "window_clear w = drop_permits (length (dw_pending w)) (w\<lparr>dw_pending := []\<rparr>)"

definition is_idle :: "window \<Rightarrow> bool" where
  "is_idle w \<longleftrightarrow> length (dw_pending w) = 0 \<and> dw_in_flight w = 0"

text \<open>A reservation that nothing interleaves with.\<close>

definition reserve :: "nat \<Rightarrow> uuid \<Rightarrow> nat \<Rightarrow> window \<Rightarrow> window option" where
  "reserve limit req_id tx w =
     (case reserve_round limit False (dw_in_flight w) w of
        (Acquired, w') \<Rightarrow> Some (pending_insert req_id tx w')
      | _ \<Rightarrow> None)"

record reservation =
  rv_req_id :: uuid
  rv_armed :: bool

definition remove_pending :: "reservation \<Rightarrow> window \<Rightarrow> bool \<times> reservation \<times> window" where
  "remove_pending rv w =
     (if \<not> rv_armed rv then (False, rv, w)
      else (case window_remove (rv_req_id rv) w of
              (removed, w') \<Rightarrow> (removed \<noteq> None, rv\<lparr>rv_armed := False\<rparr>, w')))"

definition reservation_drop :: "reservation \<Rightarrow> window \<Rightarrow> window" where
  "reservation_drop rv w = (if rv_armed rv then snd (window_remove (rv_req_id rv) w) else w)"

datatype 't dispatch_wait = WaitResult 't | WaitDead | WaitTimeout

text \<open>
  \<^verbatim>\<open>wait\<close>: \<open>Some (Some r)\<close> when a result arrives in time, \<open>Some None\<close> when the sender is dropped,
  \<open>None\<close> when the time is up.
\<close>

definition reservation_wait ::
  "'t option option \<Rightarrow> reservation \<Rightarrow> window \<Rightarrow> 't dispatch_wait \<times> reservation \<times> window" where
  "reservation_wait outcome rv w =
     (case outcome of
        Some (Some r) \<Rightarrow> (WaitResult r, rv\<lparr>rv_armed := False\<rparr>, w)
      | Some None \<Rightarrow> (WaitDead, rv\<lparr>rv_armed := False\<rparr>, w)
      | None \<Rightarrow> (case remove_pending rv w of (_, rv', w') \<Rightarrow> (WaitTimeout, rv', w')))"

section \<open>The tasks\<close>

text \<open>
  Where a task is: not reserving, in the loop with the value it last saw, past the loop with its
  permit but not yet in the table, or holding its reservation.
\<close>

datatype task = Outside | Looping nat nat | Permitted | Holding reservation

record system =
  sy_window :: window
  sy_tasks :: "task list"

definition set_task :: "nat \<Rightarrow> task \<Rightarrow> system \<Rightarrow> system" where
  "set_task i t s = s\<lparr>sy_tasks := (sy_tasks s)[i := t]\<rparr>"

text \<open>\<open>M\<close> bounds the limits in force; a reload may change the limit between two calls.\<close>

inductive window_step :: "nat \<Rightarrow> system \<Rightarrow> system \<Rightarrow> bool" for M where
  Load: "i < length (sy_tasks s) \<Longrightarrow> sy_tasks s ! i = Outside \<Longrightarrow> mx \<le> M \<Longrightarrow>
     window_step M s (set_task i (Looping mx (dw_in_flight (sy_window s))) s)"
| Refuse: "i < length (sy_tasks s) \<Longrightarrow> sy_tasks s ! i = Looping mx c \<Longrightarrow>
     reserve_round mx spurious c (sy_window s) = (Refused, w) \<Longrightarrow>
     window_step M s (set_task i Outside s)"
| Again: "i < length (sy_tasks s) \<Longrightarrow> sy_tasks s ! i = Looping mx c \<Longrightarrow>
     reserve_round mx spurious c (sy_window s) = (Retry c', w) \<Longrightarrow>
     window_step M s (set_task i (Looping mx c') (s\<lparr>sy_window := w\<rparr>))"
| Acquire: "i < length (sy_tasks s) \<Longrightarrow> sy_tasks s ! i = Looping mx c \<Longrightarrow>
     reserve_round mx spurious c (sy_window s) = (Acquired, w) \<Longrightarrow>
     window_step M s (set_task i Permitted (s\<lparr>sy_window := w\<rparr>))"
| Enter: "i < length (sy_tasks s) \<Longrightarrow> sy_tasks s ! i = Permitted \<Longrightarrow>
     window_step M s (set_task i (Holding \<lparr>rv_req_id = r, rv_armed = True\<rparr>)
       (s\<lparr>sy_window := pending_insert r i (sy_window s)\<rparr>))"
| Answer: "window_step M s (s\<lparr>sy_window := snd (window_remove r (sy_window s))\<rparr>)"
| Waited: "i < length (sy_tasks s) \<Longrightarrow> sy_tasks s ! i = Holding rv \<Longrightarrow>
     reservation_wait (outcome :: unit option option) rv (sy_window s) = (x, rv', w) \<Longrightarrow>
     window_step M s (set_task i (Holding rv') (s\<lparr>sy_window := w\<rparr>))"
| Dropped: "i < length (sy_tasks s) \<Longrightarrow> sy_tasks s ! i = Holding rv \<Longrightarrow>
     window_step M s (set_task i Outside (s\<lparr>sy_window := reservation_drop rv (sy_window s)\<rparr>))"
| Clear: "window_step M s (s\<lparr>sy_window := window_clear (sy_window s)\<rparr>)"

section \<open>Every permit is accounted for\<close>

definition permitted :: "task list \<Rightarrow> nat" where
  "permitted ts = length (filter (\<lambda>t. t = Permitted) ts)"

definition window_inv :: "nat \<Rightarrow> system \<Rightarrow> bool" where
  "window_inv M s \<longleftrightarrow> hm_ok (dw_pending (sy_window s)) \<and>
     dw_in_flight (sy_window s) = length (dw_pending (sy_window s)) + permitted (sy_tasks s) \<and>
     dw_in_flight (sy_window s) \<le> M \<and>
     (\<forall>mx c. Looping mx c \<in> set (sy_tasks s) \<longrightarrow> mx \<le> M)"

lemma release_pow: "(release_in_flight ^^ n) v = v - n"
  by (induction n) (simp_all add: release_in_flight_def)

lemma drop_permits_simps [simp]:
  "dw_pending (drop_permits n w) = dw_pending w"
  "dw_in_flight (drop_permits n w) = dw_in_flight w - n"
  by (simp_all add: drop_permits_def release_pow)

lemma permitted_update:
  assumes "i < length ts"
  shows "permitted (ts[i := t]) + (if ts ! i = Permitted then 1 else 0) =
    permitted ts + (if t = Permitted then 1 else 0)"
proof -
  have "permitted ts = permitted (take i ts) + permitted (ts ! i # drop (Suc i) ts)"
    unfolding permitted_def by (metis assms filter_append id_take_nth_drop length_append)
  moreover have "permitted (ts[i := t]) = permitted (take i ts) + permitted (t # drop (Suc i) ts)"
    unfolding permitted_def using assms by (simp add: upd_conv_take_nth_drop)
  ultimately show ?thesis by (simp add: permitted_def)
qed

lemma length_hremove:
  "hm_ok m \<Longrightarrow> hget m k = Some v \<Longrightarrow> length m = Suc (length (hremove k m))"
proof (induction m)
  case (Cons e m)
  show ?case
  proof (cases "fst e = k")
    case True
    with Cons.prems(1) have "hremove k m = m"
      by (auto simp: hremove_def hm_ok_def delete_notin_dom map_of_eq_None_iff intro!: AList.delete_id)
    with True show ?thesis by (cases e) (simp add: hremove_def)
  next
    case False
    with Cons show ?thesis by (cases e) (auto simp: hremove_def hm_ok_def hget_def)
  qed
qed (simp add: hget_def)

lemma length_hinsert: "length (hinsert k v m) = (if hget m k = None then Suc (length m) else length m)"
  by (induction m) (auto simp: hinsert_def hget_def)

text \<open>The part of the invariant that is about the window, for \<open>n\<close> permits not in the table yet.\<close>

definition slots :: "nat \<Rightarrow> nat \<Rightarrow> window \<Rightarrow> bool" where
  "slots M n w \<longleftrightarrow> hm_ok (dw_pending w) \<and> dw_in_flight w = length (dw_pending w) + n \<and> dw_in_flight w \<le> M"

lemma window_inv_slots:
  "window_inv M s \<longleftrightarrow> slots M (permitted (sy_tasks s)) (sy_window s) \<and>
     (\<forall>mx c. Looping mx c \<in> set (sy_tasks s) \<longrightarrow> mx \<le> M)"
  by (auto simp: window_inv_def slots_def)

lemma slots_remove: "slots M n w \<Longrightarrow> slots M n (snd (window_remove r w))"
  by (auto simp: slots_def window_remove_def dest: length_hremove split: option.splits)

lemma slots_insert: "slots M (Suc n) w \<Longrightarrow> slots M n (pending_insert r i w)"
  by (auto simp: slots_def pending_insert_def length_hinsert)

lemma slots_clear: "slots M n w \<Longrightarrow> slots M n (window_clear w)"
  by (auto simp: slots_def window_clear_def)

lemma slots_drop: "slots M n w \<Longrightarrow> slots M n (reservation_drop rv w)"
  by (simp add: reservation_drop_def slots_remove)

lemma slots_wait:
  "slots M n w \<Longrightarrow> reservation_wait outcome rv w = (x, rv', w') \<Longrightarrow> slots M n w'"
  using slots_remove [of M n w "rv_req_id rv"]
  by (auto simp: reservation_wait_def remove_pending_def split: option.splits if_splits prod.splits)

lemma slots_acquire:
  "slots M n w \<Longrightarrow> mx \<le> M \<Longrightarrow> reserve_round mx spurious c w = (Acquired, w') \<Longrightarrow> slots M (Suc n) w'"
  by (auto simp: slots_def reserve_round_def split: if_splits)

lemma reserve_round_keeps:
  "reserve_round mx spurious c w = (Retry c', w') \<Longrightarrow> w' = w"
  by (auto simp: reserve_round_def split: if_splits)

lemma window_inv_set_task:
  assumes "i < length (sy_tasks s)" and "slots M n w"
    and "n + (if sy_tasks s ! i = Permitted then 1 else 0) =
      permitted (sy_tasks s) + (if t = Permitted then 1 else 0)"
    and "\<forall>mx c. Looping mx c \<in> set (sy_tasks s) \<longrightarrow> mx \<le> M" and "\<forall>mx c. t = Looping mx c \<longrightarrow> mx \<le> M"
  shows "window_inv M (set_task i t (s\<lparr>sy_window := w\<rparr>))"
proof -
  have "permitted ((sy_tasks s)[i := t]) = n"
    using permitted_update [OF assms(1), of t] assms(3) by linarith
  moreover have "\<forall>mx c. Looping mx c \<in> set ((sy_tasks s)[i := t]) \<longrightarrow> mx \<le> M"
    using assms(4,5) set_update_subset_insert [of "sy_tasks s" i t] by blast
  ultimately show ?thesis using assms(2) by (simp add: window_inv_slots set_task_def)
qed

lemma looping_limit:
  "window_inv M s \<Longrightarrow> i < length (sy_tasks s) \<Longrightarrow> sy_tasks s ! i = Looping mx c \<Longrightarrow> mx \<le> M"
  using nth_mem [of i "sy_tasks s"] by (auto simp: window_inv_def)

lemma window_inv_step:
  assumes "window_step M s s'" and "window_inv M s"
  shows "window_inv M s'"
  using assms
proof (induction rule: window_step.induct)
  case (Load i s mx)
  then show ?case
    using window_inv_set_task [of i s M "permitted (sy_tasks s)" "sy_window s"
        "Looping mx (dw_in_flight (sy_window s))"]
    by (simp add: window_inv_slots)
next
  case (Refuse i s mx c spurious w)
  then show ?case
    using window_inv_set_task [of i s M "permitted (sy_tasks s)" "sy_window s" Outside]
    by (simp add: window_inv_slots)
next
  case (Again i s mx c spurious c' w)
  then have "w = sy_window s" "mx \<le> M"
    using reserve_round_keeps looping_limit by auto
  with Again show ?case
    using window_inv_set_task [of i s M "permitted (sy_tasks s)" w "Looping mx c'"]
    by (simp add: window_inv_slots)
next
  case (Acquire i s mx c spurious w)
  then have "mx \<le> M" using looping_limit by auto
  with Acquire show ?case
    using window_inv_set_task [of i s M "Suc (permitted (sy_tasks s))" w Permitted]
      slots_acquire [of M "permitted (sy_tasks s)" "sy_window s" mx spurious c w]
    by (simp add: window_inv_slots)
next
  case (Enter i s r)
  then have "0 < permitted (sy_tasks s)"
    unfolding permitted_def by (metis (mono_tags) filter_empty_conv length_greater_0_conv nth_mem)
  then obtain n where n: "permitted (sy_tasks s) = Suc n" by (metis gr0_conv_Suc)
  with Enter show ?case
    using window_inv_set_task [of i s M n "pending_insert r i (sy_window s)"
        "Holding \<lparr>rv_req_id = r, rv_armed = True\<rparr>"]
      slots_insert [of M n "sy_window s" r i]
    by (simp add: window_inv_slots)
next
  case (Waited i s rv outcome x rv' w)
  then show ?case
    using window_inv_set_task [of i s M "permitted (sy_tasks s)" w "Holding rv'"]
      slots_wait [of M "permitted (sy_tasks s)" "sy_window s" outcome rv x rv' w]
    by (auto simp: window_inv_slots)
next
  case (Dropped i s rv)
  then show ?case
    using window_inv_set_task [of i s M "permitted (sy_tasks s)" "reservation_drop rv (sy_window s)" Outside]
    by (simp add: window_inv_slots slots_drop)
qed (simp_all add: window_inv_slots slots_remove slots_clear)

lemma window_inv_steps: "(window_step M)\<^sup>*\<^sup>* s s' \<Longrightarrow> window_inv M s \<Longrightarrow> window_inv M s'"
  by (induction rule: rtranclp_induct) (auto intro: window_inv_step)

definition system_start :: "nat \<Rightarrow> system" where
  "system_start n = \<lparr>sy_window = DispatchWindow_new, sy_tasks = replicate n Outside\<rparr>"

lemma window_inv_start: "window_inv M (system_start n)"
  by (auto simp: window_inv_def system_start_def DispatchWindow_new_def permitted_def)

section \<open>Properties\<close>

text \<open>
  C38: whatever the interleaving of any number of tasks, the dispatches in flight never exceed
  the limit in force, the counter is exactly the entries of the table plus the permits on their
  way into it (no permit is leaked or released twice), and once no task is between its
  compare-and-swap and its insertion, an empty table means an idle window.
\<close>

theorem dispatch_window_bounded:
  assumes "(window_step M)\<^sup>*\<^sup>* (system_start n) s"
  shows "length (dw_pending (sy_window s)) \<le> dw_in_flight (sy_window s) \<and>
    dw_in_flight (sy_window s) \<le> M \<and>
    dw_in_flight (sy_window s) = length (dw_pending (sy_window s)) + permitted (sy_tasks s) \<and>
    (Permitted \<notin> set (sy_tasks s) \<and> dw_pending (sy_window s) = [] \<longrightarrow> is_idle (sy_window s))"
proof -
  have inv: "window_inv M s" by (rule window_inv_steps [OF assms window_inv_start])
  moreover have "Permitted \<notin> set (sy_tasks s) \<Longrightarrow> permitted (sy_tasks s) = 0"
    by (auto simp: permitted_def filter_empty_conv)
  ultimately show ?thesis by (auto simp: window_inv_def is_idle_def)
qed

theorem dispatch_window_bounded_witness:
  "\<exists>s. (window_step 1)\<^sup>*\<^sup>* (system_start 2) s \<and> dw_in_flight (sy_window s) \<le> 1 \<and>
     sy_tasks s = [Permitted, Outside]"
proof -
  define s1 where "s1 = set_task 0 (Looping 1 0) (system_start 2)"
  have 1: "window_step 1 (system_start 2) s1"
    using Load [of 0 "system_start 2" 1 1]
    by (simp add: s1_def system_start_def DispatchWindow_new_def numeral_2_eq_2)
  have 2: "window_step 1 s1 (set_task 0 Permitted (s1\<lparr>sy_window := (sy_window s1)\<lparr>dw_in_flight := 1\<rparr>\<rparr>))"
    by (rule Acquire [where mx = 1 and c = 0 and spurious = False])
      (simp_all add: s1_def set_task_def system_start_def DispatchWindow_new_def reserve_round_def
        numeral_2_eq_2)
  have steps: "(window_step 1)\<^sup>*\<^sup>* (system_start 2)
      (set_task 0 Permitted (s1\<lparr>sy_window := (sy_window s1)\<lparr>dw_in_flight := 1\<rparr>\<rparr>))"
    using 1 2 by (meson converse_rtranclp_into_rtranclp rtranclp.rtrancl_refl)
  from dispatch_window_bounded [OF this] have
    "dw_in_flight (sy_window (set_task 0 Permitted (s1\<lparr>sy_window := (sy_window s1)\<lparr>dw_in_flight := 1\<rparr>\<rparr>))) \<le> 1"
    by blast
  moreover have "sy_tasks (set_task 0 Permitted (s1\<lparr>sy_window := (sy_window s1)\<lparr>dw_in_flight := 1\<rparr>\<rparr>)) =
      [Permitted, Outside]"
    by (simp add: s1_def set_task_def system_start_def numeral_2_eq_2)
  ultimately show ?thesis using steps by blast
qed

text \<open>
  A reservation is granted exactly when the window is below the limit, and giving it up
  (a timeout, or dropping the waiting task) leaves the window as it was before.
\<close>

theorem reserve_release_roundtrip:
  assumes "hget (dw_pending w) r = None"
  shows "if dw_in_flight w < limit
    then \<exists>w'. reserve limit r tx w = Some w' \<and> dw_in_flight w' = dw_in_flight w + 1 \<and>
      hget (dw_pending w') r = Some tx \<and>
      dw_in_flight (reservation_drop \<lparr>rv_req_id = r, rv_armed = True\<rparr> w') = dw_in_flight w \<and>
      hget (dw_pending (reservation_drop \<lparr>rv_req_id = r, rv_armed = True\<rparr> w')) = hget (dw_pending w)
    else reserve limit r tx w = None"
proof (cases "dw_in_flight w < limit")
  case True
  define w' where "w' = w\<lparr>dw_in_flight := Suc (dw_in_flight w), dw_pending := hinsert r tx (dw_pending w)\<rparr>"
  have w': "reserve limit r tx w = Some w'"
    using True assms by (simp add: reserve_def reserve_round_def pending_insert_def w'_def drop_permits_def)
  have "hget (hremove r (hinsert r tx (dw_pending w))) = hget (dw_pending w)"
    using assms by (auto simp: fun_eq_iff hm_simps)
  with True w' show ?thesis
    by (simp add: w'_def reservation_drop_def window_remove_def hm_simps)
qed (simp add: reserve_def reserve_round_def)

theorem reserve_release_roundtrip_witness:
  "\<exists>w'. reserve 1 7 0 DispatchWindow_new = Some w' \<and> dw_in_flight w' = 1"
  using reserve_release_roundtrip [of DispatchWindow_new 7 1 0]
  by (auto simp: DispatchWindow_new_def hm_simps)

end
