(* ===== verification/Extensions.thy ===== *)
theory Extensions
  imports Messages
begin

text \<open>
  \<^verbatim>\<open>crates/whdr-server/src/extension_process.rs\<close> and \<^verbatim>\<open>extension_registration.rs\<close>: finding
  extension binaries on the search path, stopping a child process, and the first line an extension
  has to send.  What the file system, the clock and the child answer comes as arguments.
\<close>

section \<open>Discovery\<close>

text \<open>A directory entry: its name as UTF-8 if it is, its path, and its metadata if readable.\<close>

record dir_entry =
  de_name :: "string option"
  de_path :: string
  de_meta :: "(bool \<times> u32) option"

text \<open>73 is 0o111.\<close>

definition is_executable :: "dir_entry \<Rightarrow> bool" where
  "is_executable e =
     (case de_meta e of None \<Rightarrow> False | Some (is_file, mode) \<Rightarrow> is_file \<and> and mode 73 \<noteq> 0)"

definition discover_entry ::
  "dir_entry \<Rightarrow> (string, string) hashmap \<Rightarrow> (string, string) hashmap" where
  "discover_entry e found =
     (case de_name e of
        None \<Rightarrow> found
      | Some file_name \<Rightarrow>
          (case strip_prefix file_name ''whdr-ext-'' of
             None \<Rightarrow> found
           | Some xid \<Rightarrow>
               if xid = [] \<or> \<not> is_executable e then found
               else if hget found xid = None then hinsert xid (de_path e) found else found))"

text \<open>\<open>dirs\<close>: the directories of \<^verbatim>\<open>PATH\<close> in order, with their entries where readable.\<close>

definition discover_extensions ::
  "dir_entry list option list option \<Rightarrow> (string, string) hashmap" where
  "discover_extensions dirs =
     (case dirs of
        None \<Rightarrow> []
      | Some ds \<Rightarrow>
          fold (\<lambda>d found. case d of None \<Rightarrow> found | Some entries \<Rightarrow> fold discover_entry entries found)
            ds [])"

section \<open>Stopping a child\<close>

datatype child_signal = SigTerm | SigKill

text \<open>\<open>has_pid\<close> and \<open>kill_ok\<close>: the child still has a pid, and \<^verbatim>\<open>kill(2)\<close> succeeded.\<close>

definition terminate_child :: "bool \<Rightarrow> bool \<Rightarrow> child_signal list" where
  "terminate_child has_pid kill_ok = (if has_pid \<and> kill_ok then [SigTerm] else [SigKill])"

text \<open>The signals sent: none if the child exits within the grace period, and so on.\<close>

definition wait_for_child_shutdown :: "bool \<Rightarrow> bool \<Rightarrow> bool \<Rightarrow> bool \<Rightarrow> child_signal list" where
  "wait_for_child_shutdown exits_first has_pid kill_ok exits_second =
     (if exits_first then []
      else terminate_child has_pid kill_ok @ (if exits_second then [] else [SigKill]))"

text \<open>\<open>kill_ok\<close>: whether the kill goes through, which only changes what is logged.\<close>

definition kill_child_wait :: "bool \<Rightarrow> child_signal list" where
  "kill_child_wait kill_ok = [SigKill]"

datatype spawn_error = SpawnFailed | StdinUnavailable | StdoutUnavailable

text \<open>A child as the operating system hands it over: its pid and which of its pipes are there.\<close>

record spawned_child =
  sc_pid :: "u32 option"
  sc_stdin :: bool
  sc_stdout :: bool

definition spawn_extension_process ::
  "spawned_child option \<Rightarrow> bool \<Rightarrow> (spawn_error + u32 option) \<times> child_signal list" where
  "spawn_extension_process spawned kill_ok =
     (case spawned of
        None \<Rightarrow> (Inl SpawnFailed, [])
      | Some child \<Rightarrow>
          if \<not> sc_stdin child then (Inl StdinUnavailable, kill_child_wait kill_ok)
          else if \<not> sc_stdout child then (Inl StdoutUnavailable, kill_child_wait kill_ok)
          else (Inr (sc_pid child), []))"

text \<open>No child is left running behind a failed start.\<close>

lemma spawn_leaves_none:
  "spawn_extension_process (Some child) kill_ok = (Inl e, signals) \<Longrightarrow> SigKill \<in> set signals"
  by (auto simp: spawn_extension_process_def kill_child_wait_def split: if_splits)

section \<open>Registration\<close>

record registration_msg =
  rm_id :: string
  rm_paths :: "string list"
  rm_channels :: "string list"

datatype first_line = LineTimeout | LineFailed | LineEof | Line string

datatype registration_error =
    RegisterTimeout
  | RegisterReadFailed
  | ExitedBeforeRegister
  | RegisterMalformed
  | UnsupportedProtocol u32
  | ExpectedRegister
  | BlankRegister

definition read_registration ::
  "(string \<Rightarrow> 'j ext_msg option) \<Rightarrow> string \<Rightarrow> first_line \<Rightarrow> registration_error + registration_msg" where
  "read_registration from_str candidate_id first =
     (case first of
        LineTimeout \<Rightarrow> Inl RegisterTimeout
      | LineFailed \<Rightarrow> Inl RegisterReadFailed
      | LineEof \<Rightarrow> Inl ExitedBeforeRegister
      | Line line \<Rightarrow>
          (case decode_line from_str line of
             Inl _ \<Rightarrow> Inl RegisterMalformed
           | Inr None \<Rightarrow> Inl BlankRegister
           | Inr (Some (ExtRegister r)) \<Rightarrow>
               if reg_protocol r \<noteq> PROTOCOL_VERSION then Inl (UnsupportedProtocol (reg_protocol r))
               else Inr \<lparr>rm_id = (case reg_id r of None \<Rightarrow> candidate_id | Some i \<Rightarrow> i),
                         rm_paths = reg_paths r, rm_channels = reg_channels r\<rparr>
           | Inr (Some _) \<Rightarrow> Inl ExpectedRegister))"

section \<open>Properties\<close>

text \<open>The entry offers the extension \<open>xid\<close>.\<close>

definition offers :: "string \<Rightarrow> dir_entry \<Rightarrow> bool" where
  "offers xid e \<longleftrightarrow> xid \<noteq> [] \<and> de_name e = Some (''whdr-ext-'' @ xid) \<and> is_executable e"

lemma hget_discover_entry:
  "hget (discover_entry e found) xid =
     (case hget found xid of Some p \<Rightarrow> Some p | None \<Rightarrow> if offers xid e then Some (de_path e) else None)"
  by (auto simp: discover_entry_def offers_def hm_simps strip_prefix_eq strip_prefix_None prefix_def
      split: option.splits)

lemma hget_fold_discover:
  "hget (fold discover_entry es found) xid =
     (case hget found xid of Some p \<Rightarrow> Some p | None \<Rightarrow> map_option de_path (List.find (offers xid) es))"
  by (induction es arbitrary: found) (auto simp: hget_discover_entry split: option.splits)

lemma hget_fold_dirs:
  "hget (fold (\<lambda>d found. case d of None \<Rightarrow> found | Some entries \<Rightarrow> fold discover_entry entries found)
      ds found) xid =
   hget (fold discover_entry (concat (map (\<lambda>d. case d of None \<Rightarrow> [] | Some es \<Rightarrow> es) ds)) found) xid"
proof (induction ds arbitrary: found)
  case (Cons d ds)
  then show ?case by (cases d) auto
qed simp

text \<open>
  An extension id resolves to the first executable file of that name along the search path,
  later ones being shadowed and unreadable directories skipped.
\<close>

theorem discover_first_on_path:
  "hget (discover_extensions (Some ds)) xid =
     map_option de_path (List.find (offers xid)
       (concat (map (\<lambda>d. case d of None \<Rightarrow> [] | Some es \<Rightarrow> es) ds)))"
  by (simp add: discover_extensions_def hget_fold_dirs hget_fold_discover hm_simps)

text \<open>
  An extension is admitted to registration only by a first line that arrives in time and is a
  register message of the server's protocol version; its id is the one it names or, failing
  that, the one of its binary.
\<close>

theorem read_registration_accepts_iff:
  "read_registration from_str cand first = Inr m \<longleftrightarrow>
     (\<exists>line r. first = Line line \<and> decode_line from_str line = Inr (Some (ExtRegister r)) \<and>
        reg_protocol r = PROTOCOL_VERSION \<and>
        m = \<lparr>rm_id = (case reg_id r of None \<Rightarrow> cand | Some i \<Rightarrow> i),
             rm_paths = reg_paths r, rm_channels = reg_channels r\<rparr>)"
proof (cases first)
  case (Line line)
  show ?thesis
  proof (cases "decode_line from_str line")
    case (Inr x)
    show ?thesis
    proof (cases x)
      case (Some msg)
      with Line Inr show ?thesis by (cases msg) (auto simp: read_registration_def)
    qed (use Line Inr in \<open>simp add: read_registration_def\<close>)
  qed (use Line in \<open>simp add: read_registration_def\<close>)
qed (simp_all add: read_registration_def)

end
