(* ===== verification/Daemon.thy ===== *)
theory Daemon
  imports Channel_Claims Token_Store Dispatch_Window Extensions
begin

text \<open>
  \<^verbatim>\<open>crates/whdr-server/src/daemon.rs\<close>: the shared state of the server and the life of
  extensions in it: start, claims, unrouting, cleanup, crash loops and respawn, reload and shutdown.
  The tasks of an extension (writer, reader, supervisor) hold clones of its handle whose
  counters and channels are shared; the handle in the table stands for them all.  Instants are
  milliseconds of a monotonic clock.
\<close>

section \<open>The state\<close>

datatype supervisor_command = DrainStop string bool | KillAndRespawn string

record ext_handle =
  eh_candidate_id :: string
  eh_id :: string
  eh_generation :: uuid
  eh_path :: string
  eh_paths :: "string list"
  eh_channels :: "string list"
  eh_sent :: "srv_msg list"
  eh_commands :: "supervisor_command list"
  eh_dispatches :: window
  eh_protocol_errors :: nat
  eh_namespace_violations :: nat
  eh_consecutive_timeouts :: nat
  eh_restarts :: nat
  eh_emitted :: nat
  eh_last_event_at_ms :: u64
  eh_pid :: "u32 option"

record supervisor_state =
  sv_restarts :: nat
  sv_recent_exits :: "nat list"

record inner =
  in_config :: config
  in_token_store :: token_store
  in_routes :: "(string, string) hashmap"
  in_unavailable :: "(string, string) hashmap"
  in_prefixes :: "(string, string) hashmap"
  in_extensions :: "(string, ext_handle) hashmap"
  in_failed :: "(string, string) hashmap"
  in_subscribers :: registry
  in_supervisor :: "(string, supervisor_state) hashmap"
  in_shutting_down :: bool

datatype app_error = AppConfig config_error | AppTokens token_error | AppLog log_error

text \<open>\<open>open_log\<close> is \<^verbatim>\<open>DeliveryLog::open\<close> on the machine's file system.\<close>

definition AppState_new ::
  "(string \<Rightarrow> token_error + token_store) \<Rightarrow> (delivery_config \<Rightarrow> log_error + shared) \<Rightarrow> config \<Rightarrow>
   app_error + inner" where
  "AppState_new load_tokens open_log config =
     (case Config_validate config of
        Inl e \<Rightarrow> Inl (AppConfig e)
      | Inr _ \<Rightarrow>
     (case load_tokens (token_store_path config) of
        Inl e \<Rightarrow> Inl (AppTokens e)
      | Inr tokens \<Rightarrow>
     (case (if dc_enabled (cfg_delivery config)
            then (case open_log (cfg_delivery config) of
                    Inl e \<Rightarrow> Inl (AppLog e) | Inr log \<Rightarrow> Inr (with_delivery log))
            else Inr SubscriberRegistry_new) of
        Inl e \<Rightarrow> Inl e
      | Inr subs \<Rightarrow>
          Inr \<lparr>in_config = config, in_token_store = tokens, in_routes = [], in_unavailable = [],
               in_prefixes = [], in_extensions = [], in_failed = [], in_subscribers = subs,
               in_supervisor = [], in_shutting_down = False\<rparr>)))"

definition authenticate_subscriber :: "(string \<Rightarrow> string) \<Rightarrow> string \<Rightarrow> inner \<Rightarrow> string option" where
  "authenticate_subscriber digest token st = authenticate digest (in_token_store st) token"

section \<open>Starting an extension\<close>

datatype start_error =
    SpawnFailed
  | RegistrationFailed registration_error
  | ExtensionCollision string
  | ClaimsRejected claims_error

definition extension_is_active :: "string \<Rightarrow> uuid \<Rightarrow> inner \<Rightarrow> bool" where
  "extension_is_active xid generation st =
     (case hget (in_extensions st) xid of None \<Rightarrow> False | Some h \<Rightarrow> eh_generation h = generation)"

definition extension_handle :: "string \<Rightarrow> uuid \<Rightarrow> inner \<Rightarrow> ext_handle option" where
  "extension_handle xid generation st =
     (case hget (in_extensions st) xid of
        None \<Rightarrow> None | Some h \<Rightarrow> if eh_generation h = generation then Some h else None)"

definition candidate_is_active :: "string \<Rightarrow> inner \<Rightarrow> bool" where
  "candidate_is_active candidate_id st =
     list_ex (\<lambda>(_, h). eh_candidate_id h = candidate_id) (in_extensions st)"

definition restart_count :: "string \<Rightarrow> inner \<Rightarrow> nat" where
  "restart_count xid st =
     (case hget (in_supervisor st) xid of None \<Rightarrow> 0 | Some s \<Rightarrow> sv_restarts s)"

definition new_handle ::
  "string \<Rightarrow> string \<Rightarrow> registration_msg \<Rightarrow> uuid \<Rightarrow> u32 option \<Rightarrow> inner \<Rightarrow> ext_handle" where
  "new_handle candidate_id path reg generation pid st =
     \<lparr>eh_candidate_id = candidate_id, eh_id = rm_id reg, eh_generation = generation, eh_path = path,
      eh_paths = rm_id reg # rm_paths reg, eh_channels = rm_channels reg, eh_sent = [],
      eh_commands = [], eh_dispatches = DispatchWindow_new, eh_protocol_errors = 0,
      eh_namespace_violations = 0, eh_consecutive_timeouts = 0,
      eh_restarts = restart_count candidate_id st, eh_emitted = 0, eh_last_event_at_ms = 0,
      eh_pid = pid\<rparr>"

text \<open>
  The block under the three write locks: the checks, then the insertions.  A check that fails
  returns from \<^verbatim>\<open>start_extension\<close> itself.
\<close>

definition register_handle :: "ext_handle \<Rightarrow> inner \<Rightarrow> start_error + inner" where
  "register_handle h st =
     (if hget (in_extensions st) (eh_id h) \<noteq> None then Inl (ExtensionCollision (eh_id h))
      else if candidate_is_active (eh_candidate_id h) st
      then Inl (ExtensionCollision (eh_candidate_id h))
      else (case validate_registration_claims (eh_id h) (eh_paths h) (eh_channels h)
                   (in_routes st) (in_prefixes st) of
              Inl e \<Rightarrow> Inl (ClaimsRejected e)
            | Inr _ \<Rightarrow>
                Inr (st\<lparr>in_extensions := hinsert (eh_id h) h (in_extensions st),
                       in_routes := hinsert_all (eh_paths h) (eh_id h) (in_routes st),
                       in_prefixes := hinsert_all (eh_channels h) (eh_id h) (in_prefixes st)\<rparr>)))"

definition clear_marks :: "ext_handle \<Rightarrow> inner \<Rightarrow> inner" where
  "clear_marks h st =
     st\<lparr>in_failed := hremove (eh_id h) (hremove (eh_candidate_id h) (in_failed st)),
        in_unavailable := hremove_all (eh_candidate_id h # eh_paths h) (in_unavailable st)\<rparr>"

text \<open>\<open>spawned\<close> is \<open>None\<close> when the process cannot be spawned, else its pid.\<close>

definition start_extension ::
  "(string \<Rightarrow> 'j ext_msg option) \<Rightarrow> u32 option option \<Rightarrow> first_line \<Rightarrow> uuid \<Rightarrow> string \<Rightarrow> string \<Rightarrow>
   inner \<Rightarrow> (start_error + unit) \<times> inner" where
  "start_extension from_str spawned first generation candidate_id path st =
     (case spawned of
        None \<Rightarrow> (Inl SpawnFailed, st)
      | Some pid \<Rightarrow>
     (case read_registration from_str candidate_id first of
        Inl e \<Rightarrow> (Inl (RegistrationFailed e), st)
      | Inr reg \<Rightarrow>
          (let h = new_handle candidate_id path reg generation pid st
           in (case register_handle h st of
                 Inl e \<Rightarrow> (Inl e, st)
               | Inr st' \<Rightarrow> (Inr (), clear_marks h st')))))"

section \<open>Taking an extension out\<close>

definition unroute_extension :: "ext_handle \<Rightarrow> inner \<Rightarrow> inner" where
  "unroute_extension h st =
     st\<lparr>in_routes := hretain (\<lambda>_ owner. owner \<noteq> eh_id h) (in_routes st),
        in_prefixes := hretain (\<lambda>_ owner. owner \<noteq> eh_id h) (in_prefixes st),
        in_unavailable := hremove_all (eh_candidate_id h # eh_paths h) (in_unavailable st)\<rparr>"

text \<open>
  The handle removed is returned with its window cleared, which ends every dispatch that waits
  on it.
\<close>

definition cleanup_extension_generation ::
  "string \<Rightarrow> uuid \<Rightarrow> string \<Rightarrow> bool \<Rightarrow> inner \<Rightarrow> ext_handle option \<times> inner" where
  "cleanup_extension_generation xid generation reason mark_unavailable st =
     (case extension_handle xid generation st of
        None \<Rightarrow> (None, st)
      | Some h \<Rightarrow>
          (let st1 = unroute_extension h (st\<lparr>in_extensions := hremove xid (in_extensions st)\<rparr>);
               keys = eh_candidate_id h # eh_paths h
           in (Some (h\<lparr>eh_dispatches := window_clear (eh_dispatches h)\<rparr>),
               st1\<lparr>in_unavailable :=
                 (if mark_unavailable then hinsert_all keys reason (in_unavailable st1)
                  else hremove_all keys (in_unavailable st1))\<rparr>)))"

text \<open>The command goes on the handle's channel; the handle stays in the table while it drains.\<close>

definition send_command :: "supervisor_command \<Rightarrow> string \<Rightarrow> inner \<Rightarrow> inner" where
  "send_command cmd xid st =
     st\<lparr>in_extensions := hmodify xid (\<lambda>h. h\<lparr>eh_commands := eh_commands h @ [cmd]\<rparr>) (in_extensions st)\<rparr>"

definition stop_removed_extensions :: "(string, string) hashmap \<Rightarrow> inner \<Rightarrow> inner" where
  "stop_removed_extensions desired st =
     fold (\<lambda>(_, h) st.
             if hget desired (eh_candidate_id h) \<noteq> None then st
             else send_command (DrainStop ''removed from config'' False) (eh_id h)
                    (unroute_extension h st))
       (in_extensions st) st"

section \<open>Respawning\<close>

definition INITIAL_RESPAWN_BACKOFF_MS :: u64 where
  "INITIAL_RESPAWN_BACKOFF_MS = 250"

definition MAX_RESPAWN_BACKOFF_MS :: u64 where
  "MAX_RESPAWN_BACKOFF_MS = 30000"

definition should_respawn :: "string \<Rightarrow> inner \<Rightarrow> bool" where
  "should_respawn xid st \<longleftrightarrow> \<not> in_shutting_down st \<and> hget (in_failed st) xid = None \<and>
     (autostart_all (cfg_extensions (in_config st)) \<or>
      xid \<in> set (enabled_exts (cfg_extensions (in_config st))))"

definition crashloop_reason :: "nat \<Rightarrow> u64 \<Rightarrow> string" where
  "crashloop_reason threshold window =
     ''extension entered crashloop: '' @ nat_to_string threshold @ '' exits within '' @
     nat_to_string (unat window) @ ''ms''"

definition respawn_delay_ms :: "nat \<Rightarrow> u64" where
  "respawn_delay_ms restarts =
     min (saturating_mul INITIAL_RESPAWN_BACKOFF_MS (push_bit (min restarts 7) 1)) MAX_RESPAWN_BACKOFF_MS"

text \<open>\<open>now\<close> in milliseconds; the exits are oldest first.\<close>

definition next_respawn_delay :: "nat \<Rightarrow> string \<Rightarrow> inner \<Rightarrow> u64 option \<times> inner" where
  "next_respawn_delay now xid st =
     (let limits = cfg_limits (in_config st);
          threshold = max (crashloop_threshold limits) 1;
          window = max (crashloop_window_ms limits) 1;
          s = (case hget (in_supervisor st) xid of
                 None \<Rightarrow> \<lparr>sv_restarts = 0, sv_recent_exits = []\<rparr> | Some s \<Rightarrow> s);
          exits = dropWhile (\<lambda>exit. now - exit > unat window) (sv_recent_exits s) @ [now]
      in if length exits \<ge> threshold
         then (let reason = crashloop_reason threshold window
               in (None,
                   st\<lparr>in_supervisor := hinsert xid (s\<lparr>sv_recent_exits := exits\<rparr>) (in_supervisor st),
                      in_failed := hinsert xid reason (in_failed st),
                      in_unavailable :=
                        (if hget (in_unavailable st) xid = None
                         then hinsert xid reason (in_unavailable st) else in_unavailable st)\<rparr>))
         else (Some (respawn_delay_ms (sv_restarts s)),
               st\<lparr>in_supervisor := hinsert xid
                    \<lparr>sv_restarts = sv_restarts s + 1, sv_recent_exits = exits\<rparr> (in_supervisor st)\<rparr>))"

text \<open>
  \<^verbatim>\<open>supervise_extension\<close>: what ends the wait, the reason it records, and whether a respawn is
  to be considered.  Draining asks the extension to shut down first.
\<close>

datatype supervisor_event =
    ChildExited string
  | GotDrainStop string
  | GotKill string
  | CommandsClosed

fun supervise_reason :: "supervisor_event \<Rightarrow> string \<times> bool" where
  "supervise_reason (ChildExited reason) = (reason, True)"
| "supervise_reason (GotDrainStop reason) = (reason, False)"
| "supervise_reason (GotKill reason) = (reason, True)"
| "supervise_reason CommandsClosed = (''extension supervisor command channel closed'', False)"

definition drain_shutdown :: "string \<Rightarrow> uuid \<Rightarrow> inner \<Rightarrow> inner" where
  "drain_shutdown xid generation st =
     (case extension_handle xid generation st of
        None \<Rightarrow> st
      | Some h \<Rightarrow>
          st\<lparr>in_extensions := hmodify xid (\<lambda>h. h\<lparr>eh_sent := eh_sent h @ [SrvShutdown]\<rparr>) (in_extensions st)\<rparr>)"

text \<open>\<^verbatim>\<open>wait_for_extension_drain\<close> is over at once when this holds.\<close>

definition extension_drained :: "string \<Rightarrow> uuid \<Rightarrow> inner \<Rightarrow> bool" where
  "extension_drained xid generation st =
     (case extension_handle xid generation st of None \<Rightarrow> True | Some h \<Rightarrow> is_idle (eh_dispatches h))"

text \<open>From the end of the wait to the sleep before a respawn, if there is to be one.\<close>

definition supervise_end ::
  "supervisor_event \<Rightarrow> nat \<Rightarrow> string \<Rightarrow> string \<Rightarrow> uuid \<Rightarrow> inner \<Rightarrow> u64 option \<times> inner" where
  "supervise_end ev now candidate_id xid generation st =
     (case supervise_reason ev of (reason, consider) \<Rightarrow>
        (case cleanup_extension_generation xid generation reason consider
                (case ev of GotDrainStop _ \<Rightarrow> drain_shutdown xid generation st | _ \<Rightarrow> st) of
           (removed, st') \<Rightarrow>
             if removed = None \<or> \<not> consider \<or> \<not> should_respawn candidate_id st' then (None, st')
             else next_respawn_delay now candidate_id st'))"

definition mark_start_failure :: "string \<Rightarrow> string \<Rightarrow> inner \<Rightarrow> inner" where
  "mark_start_failure candidate_id reason st =
     st\<lparr>in_failed := hinsert candidate_id reason (in_failed st),
        in_unavailable := hinsert candidate_id reason (in_unavailable st)\<rparr>"

definition record_start ::
  "(start_error \<Rightarrow> string) \<Rightarrow> string \<Rightarrow> (start_error + unit) \<times> inner \<Rightarrow> inner" where
  "record_start show_error candidate_id res =
     (case res of
        (Inr _, st') \<Rightarrow> st'\<lparr>in_failed := hremove candidate_id (in_failed st')\<rparr>
      | (Inl e, st') \<Rightarrow> mark_start_failure candidate_id (show_error e) st')"

text \<open>After the sleep.\<close>

definition supervise_respawn ::
  "(start_error \<Rightarrow> string) \<Rightarrow> (string \<Rightarrow> 'j ext_msg option) \<Rightarrow> u32 option option \<Rightarrow> first_line \<Rightarrow> uuid \<Rightarrow>
   string \<Rightarrow> string \<Rightarrow> inner \<Rightarrow> inner" where
  "supervise_respawn show_error from_str spawned first generation candidate_id path st =
     (if \<not> should_respawn candidate_id st \<or> candidate_is_active candidate_id st then st
      else record_start show_error candidate_id
             (start_extension from_str spawned first generation candidate_id path st))"

section \<open>The set of extensions, reload and shutdown\<close>

fun take_candidates :: "string list \<Rightarrow> (string, string) hashmap \<Rightarrow> (string, string) hashmap" where
  "take_candidates [] candidates = []"
| "take_candidates (xid # xids) candidates =
     (case hget candidates xid of
        None \<Rightarrow> take_candidates xids candidates
      | Some path \<Rightarrow> (xid, path) # take_candidates xids (hremove xid candidates))"

definition desired_extensions :: "config \<Rightarrow> (string, string) hashmap \<Rightarrow> (string, string) hashmap" where
  "desired_extensions config candidates =
     (if autostart_all (cfg_extensions config) then candidates
      else take_candidates (enabled_exts (cfg_extensions config)) candidates)"

definition NOT_FOUND_ON_PATH :: string where
  "NOT_FOUND_ON_PATH = ''extension binary not found on PATH''"

text \<open>How starting each candidate goes: the spawn, its first line, its generation.\<close>

record 'j start_env =
  se_from_str :: "string \<Rightarrow> 'j ext_msg option"
  se_spawn :: "string \<Rightarrow> u32 option option"
  se_first :: "string \<Rightarrow> first_line"
  se_generation :: "string \<Rightarrow> uuid"
  se_show_error :: "start_error \<Rightarrow> string"

definition mark_missing :: "(string, string) hashmap \<Rightarrow> string \<Rightarrow> inner \<Rightarrow> inner" where
  "mark_missing desired wanted_id st =
     (if candidate_is_active wanted_id st then st
      else if hget desired wanted_id = None then mark_start_failure wanted_id NOT_FOUND_ON_PATH st else st)"

definition start_desired :: "'j start_env \<Rightarrow> string \<times> string \<Rightarrow> inner \<Rightarrow> inner" where
  "start_desired env cand st =
     (case cand of (candidate_id, path) \<Rightarrow>
        if candidate_is_active candidate_id st then st
        else record_start (se_show_error env) candidate_id
               (start_extension (se_from_str env) (se_spawn env candidate_id) (se_first env candidate_id)
                  (se_generation env candidate_id) candidate_id path st))"

definition start_extensions ::
  "'j start_env \<Rightarrow> (string, string) hashmap \<Rightarrow> inner \<Rightarrow> inner" where
  "start_extensions env candidates st =
     (let desired = desired_extensions (in_config st) candidates
      in fold (start_desired env) desired
           (fold (mark_missing desired) (enabled_exts (cfg_extensions (in_config st)))
             (stop_removed_extensions desired st)))"

text \<open>\<open>loaded\<close> is \<^verbatim>\<open>Config::load\<close> on the path, \<open>load_tokens\<close> the token store's loader.\<close>

definition reload_from_path ::
  "config_error + config \<Rightarrow> (string \<Rightarrow> token_error + token_store) \<Rightarrow> 'j start_env \<Rightarrow>
   (string, string) hashmap \<Rightarrow> inner \<Rightarrow> (app_error + unit) \<times> inner" where
  "reload_from_path loaded load_tokens env candidates st =
     (case loaded of
        Inl e \<Rightarrow> (Inl (AppConfig e), st)
      | Inr config \<Rightarrow>
     (case load_tokens (token_store_path config) of
        Inl e \<Rightarrow> (Inl (AppTokens e), st)
      | Inr tokens \<Rightarrow>
          (let invalidated = invalidated_names tokens (in_token_store st);
               st1 = st\<lparr>in_config := config, in_token_store := tokens,
                        in_subscribers :=
                          fold (\<lambda>nm. close_named nm CloseRevoked) invalidated (in_subscribers st)\<rparr>
           in (Inr (), start_extensions env candidates st1))))"

definition shutdown_wait_ms :: "timeouts_config \<Rightarrow> u64" where
  "shutdown_wait_ms t =
     max (saturating_add (saturating_add (drain_ms t) (saturating_mul (term_grace_ms t) 2)) 100) 1"

definition send_shutdown_to_extensions :: "inner \<Rightarrow> inner" where
  "send_shutdown_to_extensions st =
     fold (\<lambda>(_, h). send_command (DrainStop ''server shutdown'' True) (eh_id h)) (in_extensions st) st"

definition shutdown_state :: "inner \<Rightarrow> inner" where
  "shutdown_state st =
     send_shutdown_to_extensions
       (st\<lparr>in_shutting_down := True, in_subscribers := close_all CloseShutdown (in_subscribers st)\<rparr>)"

section \<open>The invariant of the tables\<close>

text \<open>
  Extensions are filed under their id, which they claim, one per candidate; every route and
  prefix belongs to a running extension that claimed it; the tables never give one namespace
  to two extensions; and an extension that is routed at all has all it claimed.
\<close>

definition ext_table_ok :: "(string, ext_handle) hashmap \<Rightarrow> bool" where
  "ext_table_ok exts \<longleftrightarrow> hm_ok exts \<and>
     (\<forall>xid h. hget exts xid = Some h \<longrightarrow> eh_id h = xid \<and> xid \<in> set (eh_paths h)) \<and>
     (\<forall>i j h h'. hget exts i = Some h \<longrightarrow> hget exts j = Some h' \<longrightarrow>
        eh_candidate_id h = eh_candidate_id h' \<longrightarrow> i = j)"

definition owners_ok ::
  "(string, ext_handle) hashmap \<Rightarrow> (string, string) hashmap \<Rightarrow> (string, string) hashmap \<Rightarrow> bool" where
  "owners_ok exts routes ptab \<longleftrightarrow>
     (\<forall>k x. hget routes k = Some x \<longrightarrow> (\<exists>h. hget exts x = Some h \<and> k \<in> set (eh_paths h))) \<and>
     (\<forall>k x. hget ptab k = Some x \<longrightarrow> (\<exists>h. hget exts x = Some h \<and> k \<in> set (eh_channels h))) \<and>
     (\<forall>x h. hget exts x = Some h \<longrightarrow> hget routes x = Some x \<longrightarrow>
        (\<forall>k \<in> set (eh_paths h). hget routes k = Some x) \<and>
        (\<forall>k \<in> set (eh_channels h). hget ptab k = Some x))"

definition daemon_inv :: "inner \<Rightarrow> bool" where
  "daemon_inv st \<longleftrightarrow> ext_table_ok (in_extensions st) \<and> tables_inv (in_routes st, in_prefixes st) \<and>
     owners_ok (in_extensions st) (in_routes st) (in_prefixes st)"

lemma tables_inv_hm_ok: "tables_inv (r, p) \<Longrightarrow> hm_ok r \<and> hm_ok p"
  by simp

declare tables_inv.simps [simp del]

lemma owners_okI:
  assumes "\<And>k x. hget routes k = Some x \<Longrightarrow> \<exists>h. hget exts x = Some h \<and> k \<in> set (eh_paths h)"
    and "\<And>k x. hget ptab k = Some x \<Longrightarrow> \<exists>h. hget exts x = Some h \<and> k \<in> set (eh_channels h)"
    and "\<And>x h k. hget exts x = Some h \<Longrightarrow> hget routes x = Some x \<Longrightarrow> k \<in> set (eh_paths h) \<Longrightarrow>
      hget routes k = Some x"
    and "\<And>x h k. hget exts x = Some h \<Longrightarrow> hget routes x = Some x \<Longrightarrow> k \<in> set (eh_channels h) \<Longrightarrow>
      hget ptab k = Some x"
  shows "owners_ok exts routes ptab"
  unfolding owners_ok_def using assms by blast

lemma owners_okD:
  assumes "owners_ok exts routes ptab"
  shows "hget routes k = Some x \<Longrightarrow> \<exists>h. hget exts x = Some h \<and> k \<in> set (eh_paths h)"
    and "hget ptab k = Some x \<Longrightarrow> \<exists>h. hget exts x = Some h \<and> k \<in> set (eh_channels h)"
    and "hget exts x = Some h \<Longrightarrow> hget routes x = Some x \<Longrightarrow> k \<in> set (eh_paths h) \<Longrightarrow>
      hget routes k = Some x"
    and "hget exts x = Some h \<Longrightarrow> hget routes x = Some x \<Longrightarrow> k \<in> set (eh_channels h) \<Longrightarrow>
      hget ptab k = Some x"
  using assms unfolding owners_ok_def by blast+

lemma ext_table_okI:
  assumes "hm_ok exts" and "\<And>x h. hget exts x = Some h \<Longrightarrow> eh_id h = x \<and> x \<in> set (eh_paths h)"
    and "\<And>i j h h'. hget exts i = Some h \<Longrightarrow> hget exts j = Some h' \<Longrightarrow>
        eh_candidate_id h = eh_candidate_id h' \<Longrightarrow> i = j"
  shows "ext_table_ok exts"
  unfolding ext_table_ok_def using assms by blast

lemma ext_table_okD:
  assumes "ext_table_ok exts"
  shows "hm_ok exts" and "hget exts x = Some h \<Longrightarrow> eh_id h = x \<and> x \<in> set (eh_paths h)"
    and "hget exts i = Some h \<Longrightarrow> hget exts j = Some h' \<Longrightarrow>
        eh_candidate_id h = eh_candidate_id h' \<Longrightarrow> i = j"
  using assms unfolding ext_table_ok_def by blast+

lemma daemon_inv_cong:
  "in_extensions st' = in_extensions st \<Longrightarrow> in_routes st' = in_routes st \<Longrightarrow>
   in_prefixes st' = in_prefixes st \<Longrightarrow> daemon_inv st \<Longrightarrow> daemon_inv st'"
  by (simp add: daemon_inv_def)

lemma candidate_is_active_hget:
  "hm_ok (in_extensions st) \<Longrightarrow>
   candidate_is_active c st \<longleftrightarrow> (\<exists>x h. hget (in_extensions st) x = Some h \<and> eh_candidate_id h = c)"
  by (auto simp: candidate_is_active_def list_ex_iff hget_set [symmetric])

lemma insert_all_eq: "hinsert_all ks v m = insert_all v ks m"
  by (simp add: hinsert_all_def insert_all_def)

lemma overlap_refl: "channel_prefixes_overlap p p"
  by (simp add: channel_prefixes_overlap_def channel_is_in_prefix_def)

lemma register_handleD:
  assumes "register_handle h st = Inr st'"
  shows "hget (in_extensions st) (eh_id h) = None" and "\<not> candidate_is_active (eh_candidate_id h) st"
    and "tables_admit (in_routes st, in_prefixes st) (eh_id h) (eh_paths h) (eh_channels h)"
    and "st' = st\<lparr>in_extensions := hinsert (eh_id h) h (in_extensions st),
      in_routes := insert_all (eh_id h) (eh_paths h) (in_routes st),
      in_prefixes := insert_all (eh_id h) (eh_channels h) (in_prefixes st)\<rparr>"
  using assms by (auto simp: register_handle_def insert_all_eq split: if_splits sum.splits)

lemma ext_table_ok_insert:
  assumes ext: "ext_table_ok exts" and own: "eh_id h \<in> set (eh_paths h)" and new: "hget exts (eh_id h) = None"
    and cand: "\<And>y g. hget exts y = Some g \<Longrightarrow> eh_candidate_id g \<noteq> eh_candidate_id h"
  shows "ext_table_ok (hinsert (eh_id h) h exts)"
proof (rule ext_table_okI)
  show "hm_ok (hinsert (eh_id h) h exts)" using ext_table_okD(1) [OF ext] by simp
  show "eh_id g = y \<and> y \<in> set (eh_paths g)" if "hget (hinsert (eh_id h) h exts) y = Some g" for y g
    using that own ext_table_okD(2) [OF ext] by (auto simp: hm_simps split: if_splits)
  show "i = j" if "hget (hinsert (eh_id h) h exts) i = Some g" "hget (hinsert (eh_id h) h exts) j = Some g'"
    "eh_candidate_id g = eh_candidate_id g'" for i j g g'
    using that ext_table_okD(3) [OF ext] cand [of i g] cand [of j g'] by (auto simp: hm_simps split: if_splits)
qed

text \<open>An admitted claim is held by nobody, not even by an earlier process of the same extension.\<close>

lemma admitted_claims_free:
  assumes adm: "tables_admit (routes, prefs) x paths channels" and tab: "tables_inv (routes, prefs)"
    and own: "owners_ok exts routes prefs" and new: "hget exts x = None"
  shows "k \<in> set paths \<Longrightarrow> hget routes k = None" and "k \<in> set channels \<Longrightarrow> hget prefs k = None"
proof -
  have adm': "claims_admissible x paths channels routes prefs"
    using adm by (simp add: registration_iff_admissible)
  then show "k \<in> set paths \<Longrightarrow> hget routes k = None" by (auto simp: claims_admissible_def)
  assume k: "k \<in> set channels"
  show "hget prefs k = None"
  proof (rule ccontr)
    assume "hget prefs k \<noteq> None"
    then obtain y where y: "hget prefs k = Some y" by auto
    then have "(k, y) \<in> set prefs" using tables_inv_hm_ok [OF tab] by (simp add: hget_set)
    with adm' k overlap_refl have "y = x" by (fastforce simp: claims_admissible_def)
    with y owners_okD(2) [OF own, of k x] new show False by simp
  qed
qed

lemma owners_ok_insert:
  assumes own: "owners_ok exts routes prefs" and new: "hget exts x = None"
    and free: "\<And>k. k \<in> set (eh_paths h) \<Longrightarrow> hget routes k = None"
      "\<And>k. k \<in> set (eh_channels h) \<Longrightarrow> hget prefs k = None"
  shows "owners_ok (hinsert x h exts) (insert_all x (eh_paths h) routes) (insert_all x (eh_channels h) prefs)"
proof (rule owners_okI)
  fix k y
  show "\<exists>g. hget (hinsert x h exts) y = Some g \<and> k \<in> set (eh_paths g)"
    if "hget (insert_all x (eh_paths h) routes) k = Some y"
    using that owners_okD(1) [OF own, of k y] new by (auto simp: hm_simps hget_insert_all split: if_splits)
  show "\<exists>g. hget (hinsert x h exts) y = Some g \<and> k \<in> set (eh_channels g)"
    if "hget (insert_all x (eh_channels h) prefs) k = Some y"
    using that owners_okD(2) [OF own, of k y] new by (auto simp: hm_simps hget_insert_all split: if_splits)
next
  fix y g k
  assume y: "hget (hinsert x h exts) y = Some g" "hget (insert_all x (eh_paths h) routes) y = Some y"
  have old: "hget exts y = Some g \<and> hget routes y = Some y" if "y \<noteq> x"
    using y that by (auto simp: hm_simps hget_insert_all split: if_splits)
  show "hget (insert_all x (eh_paths h) routes) k = Some y" if "k \<in> set (eh_paths g)"
    using y that old owners_okD(3) [OF own, of y g k] free(1) [of k]
    by (cases "y = x") (auto simp: hm_simps hget_insert_all)
  show "hget (insert_all x (eh_channels h) prefs) k = Some y" if "k \<in> set (eh_channels g)"
    using y that old owners_okD(4) [OF own, of y g k] free(2) [of k]
    by (cases "y = x") (auto simp: hm_simps hget_insert_all)
qed

lemma register_handle_inv:
  assumes inv: "daemon_inv st" and reg: "register_handle h st = Inr st'"
    and own: "eh_id h \<in> set (eh_paths h)"
  shows "daemon_inv st'"
proof -
  note new = register_handleD [OF reg]
  have ext: "ext_table_ok (in_extensions st)" and own_ok: "owners_ok (in_extensions st) (in_routes st) (in_prefixes st)"
    and tab: "tables_inv (in_routes st, in_prefixes st)"
    using inv by (simp_all add: daemon_inv_def)
  have "eh_candidate_id g \<noteq> eh_candidate_id h" if "hget (in_extensions st) y = Some g" for y g
    using new(2) candidate_is_active_hget [OF ext_table_okD(1) [OF ext]] that by blast
  from ext_table_ok_insert [OF ext own new(1) this] ns.inv_register [OF tab new(3)]
    owners_ok_insert [OF own_ok new(1) admitted_claims_free [OF new(3) tab own_ok new(1)]]
  show ?thesis by (simp add: daemon_inv_def new(4))
qed

lemma hget_hretain_Some:
  "hm_ok m \<Longrightarrow> hget (hretain P m) k = Some v \<longleftrightarrow> hget m k = Some v \<and> P k v"
  by (auto simp: hget_hretain split: option.splits)

lemma unroute_inv:
  assumes "daemon_inv st"
  shows "daemon_inv (unroute_extension h st)"
proof -
  have ok: "hm_ok (in_routes st)" "hm_ok (in_prefixes st)"
    using assms tables_inv_hm_ok unfolding daemon_inv_def by blast+
  have "tables_inv (tables_release (eh_id h) (in_routes st, in_prefixes st))"
    using assms tables_inv_release unfolding daemon_inv_def by blast
  moreover have "tables_release (eh_id h) (in_routes st, in_prefixes st) =
      (in_routes (unroute_extension h st), in_prefixes (unroute_extension h st))"
    by (simp add: unroute_extension_def retain_others_def)
  ultimately have 2: "tables_inv (in_routes (unroute_extension h st), in_prefixes (unroute_extension h st))"
    by (simp only:)
  have "owners_ok (in_extensions st) (hretain (\<lambda>_ owner. owner \<noteq> eh_id h) (in_routes st))
      (hretain (\<lambda>_ owner. owner \<noteq> eh_id h) (in_prefixes st))"
  proof -
    have o: "owners_ok (in_extensions st) (in_routes st) (in_prefixes st)"
      using assms by (simp add: daemon_inv_def)
    show ?thesis
    proof (rule owners_okI; unfold hget_hretain_Some [OF ok(1)] hget_hretain_Some [OF ok(2)])
      fix k x g
      show "\<exists>g. hget (in_extensions st) x = Some g \<and> k \<in> set (eh_paths g)"
        if "hget (in_routes st) k = Some x \<and> x \<noteq> eh_id h"
        using owners_okD(1) [OF o] that by blast
      show "\<exists>g. hget (in_extensions st) x = Some g \<and> k \<in> set (eh_channels g)"
        if "hget (in_prefixes st) k = Some x \<and> x \<noteq> eh_id h"
        using owners_okD(2) [OF o] that by blast
      assume x: "hget (in_extensions st) x = Some g" "hget (in_routes st) x = Some x \<and> x \<noteq> eh_id h"
      show "hget (in_routes st) k = Some x \<and> x \<noteq> eh_id h" if "k \<in> set (eh_paths g)"
        using owners_okD(3) [OF o] x that by blast
      show "hget (in_prefixes st) k = Some x \<and> x \<noteq> eh_id h" if "k \<in> set (eh_channels g)"
        using owners_okD(4) [OF o] x that by blast
    qed
  qed
  with assms 2 show ?thesis by (simp add: daemon_inv_def unroute_extension_def)
qed

text \<open>Updates of a handle that leave its identity and claims alone.\<close>

definition same_claims :: "(ext_handle \<Rightarrow> ext_handle) \<Rightarrow> bool" where
  "same_claims f \<longleftrightarrow> (\<forall>h. eh_id (f h) = eh_id h \<and> eh_candidate_id (f h) = eh_candidate_id h \<and>
     eh_paths (f h) = eh_paths h \<and> eh_channels (f h) = eh_channels h)"

lemma modify_handle_inv:
  assumes "daemon_inv st" and "same_claims f"
  shows "daemon_inv (st\<lparr>in_extensions := hmodify x f (in_extensions st)\<rparr>)"
proof -
  have e: "ext_table_ok (in_extensions st)"
    and o: "owners_ok (in_extensions st) (in_routes st) (in_prefixes st)"
    using assms(1) by (simp_all add: daemon_inv_def)
  have get: "\<exists>g. hget (in_extensions st) y = Some g \<and> eh_id h = eh_id g \<and>
      eh_candidate_id h = eh_candidate_id g \<and> eh_paths h = eh_paths g \<and> eh_channels h = eh_channels g"
    if "hget (hmodify x f (in_extensions st)) y = Some h" for y h
    using that assms(2) by (auto simp: hm_simps same_claims_def split: if_splits)
  have put: "\<exists>h. hget (hmodify x f (in_extensions st)) y = Some h \<and> eh_paths h = eh_paths g \<and>
      eh_channels h = eh_channels g" if "hget (in_extensions st) y = Some g" for y g
    using that assms(2) by (auto simp: hm_simps same_claims_def)
  have "ext_table_ok (hmodify x f (in_extensions st))"
  proof (rule ext_table_okI)
    show "hm_ok (hmodify x f (in_extensions st))" using ext_table_okD(1) [OF e] by simp
    show "eh_id h = y \<and> y \<in> set (eh_paths h)" if "hget (hmodify x f (in_extensions st)) y = Some h" for y h
      using get [OF that] ext_table_okD(2) [OF e] by metis
    show "i = j" if "hget (hmodify x f (in_extensions st)) i = Some h"
      "hget (hmodify x f (in_extensions st)) j = Some h'" "eh_candidate_id h = eh_candidate_id h'" for i j h h'
      using get [OF that(1)] get [OF that(2)] that(3) ext_table_okD(3) [OF e] by metis
  qed
  moreover have "owners_ok (hmodify x f (in_extensions st)) (in_routes st) (in_prefixes st)"
  proof (rule owners_okI)
    fix k y
    show "\<exists>h. hget (hmodify x f (in_extensions st)) y = Some h \<and> k \<in> set (eh_paths h)"
      if "hget (in_routes st) k = Some y"
      using owners_okD(1) [OF o that] put by metis
    show "\<exists>h. hget (hmodify x f (in_extensions st)) y = Some h \<and> k \<in> set (eh_channels h)"
      if "hget (in_prefixes st) k = Some y"
      using owners_okD(2) [OF o that] put by metis
  next
    fix y h k
    assume y: "hget (hmodify x f (in_extensions st)) y = Some h" "hget (in_routes st) y = Some y"
    show "hget (in_routes st) k = Some y" if "k \<in> set (eh_paths h)"
      using get [OF y(1)] y(2) that owners_okD(3) [OF o] by metis
    show "hget (in_prefixes st) k = Some y" if "k \<in> set (eh_channels h)"
      using get [OF y(1)] y(2) that owners_okD(4) [OF o] by metis
  qed
  ultimately show ?thesis using assms by (simp add: daemon_inv_def)
qed

lemma remove_handle_inv:
  assumes "daemon_inv st" and "\<And>k. hget (in_routes st) k \<noteq> Some x" and "\<And>k. hget (in_prefixes st) k \<noteq> Some x"
  shows "daemon_inv (st\<lparr>in_extensions := hremove x (in_extensions st)\<rparr>)"
proof -
  have e: "ext_table_ok (in_extensions st)"
    and o: "owners_ok (in_extensions st) (in_routes st) (in_prefixes st)"
    using assms(1) by (simp_all add: daemon_inv_def)
  have get: "hget (in_extensions st) y = Some h \<and> y \<noteq> x" if "hget (hremove x (in_extensions st)) y = Some h" for y h
    using that by (auto simp: hm_simps split: if_splits)
  have "ext_table_ok (hremove x (in_extensions st))"
  proof (rule ext_table_okI)
    show "hm_ok (hremove x (in_extensions st))" using ext_table_okD(1) [OF e] by simp
  qed (use get ext_table_okD(2,3) [OF e] in blast)+
  moreover have "owners_ok (hremove x (in_extensions st)) (in_routes st) (in_prefixes st)"
  proof (rule owners_okI)
    fix k y
    show "\<exists>h. hget (hremove x (in_extensions st)) y = Some h \<and> k \<in> set (eh_paths h)"
      if "hget (in_routes st) k = Some y"
      using owners_okD(1) [OF o that] assms(2) [of k] that by (auto simp: hm_simps)
    show "\<exists>h. hget (hremove x (in_extensions st)) y = Some h \<and> k \<in> set (eh_channels h)"
      if "hget (in_prefixes st) k = Some y"
      using owners_okD(2) [OF o that] assms(3) [of k] that by (auto simp: hm_simps)
  qed (use get owners_okD(3,4) [OF o] in blast)+
  ultimately show ?thesis using assms(1) by (simp add: daemon_inv_def)
qed

lemma cleanup_inv:
  assumes inv: "daemon_inv st"
  shows "daemon_inv (snd (cleanup_extension_generation x g reason mark st))"
proof (cases "extension_handle x g st")
  case None
  with inv show ?thesis by (simp add: cleanup_extension_generation_def)
next
  case (Some h)
  then have h: "hget (in_extensions st) x = Some h"
    by (auto simp: extension_handle_def split: option.splits if_splits)
  have hid: "eh_id h = x" using ext_table_okD(2) [of "in_extensions st"] inv h by (auto simp: daemon_inv_def)
  have ok: "hm_ok (in_routes st)" "hm_ok (in_prefixes st)"
    using inv tables_inv_hm_ok unfolding daemon_inv_def by blast+
  have un: "daemon_inv (unroute_extension h st)" by (rule unroute_inv [OF inv])
  have "daemon_inv ((unroute_extension h st)\<lparr>in_extensions := hremove x (in_extensions (unroute_extension h st))\<rparr>)"
    by (rule remove_handle_inv [OF un])
      (simp_all add: unroute_extension_def hget_hretain_Some ok hid)
  moreover have "in_extensions (snd (cleanup_extension_generation x g reason mark st)) =
      hremove x (in_extensions st)"
    "in_routes (snd (cleanup_extension_generation x g reason mark st)) = in_routes (unroute_extension h st)"
    "in_prefixes (snd (cleanup_extension_generation x g reason mark st)) = in_prefixes (unroute_extension h st)"
    by (simp_all add: cleanup_extension_generation_def Some Let_def unroute_extension_def)
  ultimately show ?thesis by (simp add: daemon_inv_def unroute_extension_def)
qed

lemma start_extension_inv:
  assumes "daemon_inv st"
  shows "daemon_inv (snd (start_extension from_str spawned first g cand path st))"
proof -
  have "daemon_inv (clear_marks h st')" if "register_handle h st = Inr st'" "eh_id h \<in> set (eh_paths h)" for h st'
    by (rule daemon_inv_cong [OF _ _ _ register_handle_inv [OF assms that]]) (simp_all add: clear_marks_def)
  moreover have "eh_id (new_handle cand path reg g pid st) \<in> set (eh_paths (new_handle cand path reg g pid st))" for reg pid
    by (simp add: new_handle_def)
  ultimately show ?thesis
    using assms by (auto simp: start_extension_def Let_def split: option.splits sum.splits)
qed

lemma record_start_inv: "daemon_inv (snd res) \<Longrightarrow> daemon_inv (record_start show_error cand res)"
  by (rule daemon_inv_cong [of _ "snd res"])
    (auto simp: record_start_def mark_start_failure_def split: prod.splits sum.splits)

lemma send_command_inv: "daemon_inv st \<Longrightarrow> daemon_inv (send_command cmd x st)"
  unfolding send_command_def by (erule modify_handle_inv) (simp add: same_claims_def)

lemma stop_removed_inv:
  assumes "daemon_inv st"
  shows "daemon_inv (stop_removed_extensions desired st)"
  unfolding stop_removed_extensions_def
  using assms by (rule fold_invariant [where Q = "\<lambda>_. True", rotated])
    (auto intro!: send_command_inv unroute_inv)

lemma start_desired_inv: "daemon_inv st \<Longrightarrow> daemon_inv (start_desired env c st)"
  by (cases c) (simp add: start_desired_def record_start_inv start_extension_inv)

lemma mark_missing_inv: "daemon_inv st \<Longrightarrow> daemon_inv (mark_missing desired w st)"
  by (rule daemon_inv_cong [of _ st]) (simp_all add: mark_missing_def mark_start_failure_def)

lemma start_extensions_inv:
  assumes "daemon_inv st"
  shows "daemon_inv (start_extensions env candidates st)"
proof -
  define desired where "desired = desired_extensions (in_config st) candidates"
  have 1: "daemon_inv (stop_removed_extensions desired st)" by (rule stop_removed_inv [OF assms])
  have 2: "daemon_inv (fold (mark_missing desired) xs (stop_removed_extensions desired st))" for xs
    using 1 by (rule fold_invariant [where Q = "\<lambda>_. True", rotated]) (auto intro: mark_missing_inv)
  show ?thesis
    unfolding start_extensions_def Let_def desired_def [symmetric]
    using 2 by (rule fold_invariant [where Q = "\<lambda>_. True", rotated]) (auto intro: start_desired_inv)
qed

lemma next_respawn_inv: "daemon_inv st \<Longrightarrow> daemon_inv (snd (next_respawn_delay now x st))"
  by (rule daemon_inv_cong [of _ st]) (simp_all add: next_respawn_delay_def Let_def)

lemma drain_shutdown_inv: "daemon_inv st \<Longrightarrow> daemon_inv (drain_shutdown x g st)"
  by (auto simp: drain_shutdown_def same_claims_def intro: modify_handle_inv split: option.splits)

lemma supervise_end_inv:
  assumes "daemon_inv st"
  shows "daemon_inv (snd (supervise_end ev now cand x g st))"
proof -
  define st0 where "st0 = (case ev of GotDrainStop _ \<Rightarrow> drain_shutdown x g st | _ \<Rightarrow> st)"
  have "daemon_inv st0" using assms drain_shutdown_inv by (auto simp: st0_def split: supervisor_event.splits)
  then have "daemon_inv (snd (cleanup_extension_generation x g r m st0))" for r m by (rule cleanup_inv)
  then show ?thesis
    unfolding supervise_end_def st0_def [symmetric]
    by (auto split: prod.splits intro: next_respawn_inv) (metis snd_conv next_respawn_inv)+
qed

lemma supervise_respawn_inv:
  "daemon_inv st \<Longrightarrow> daemon_inv (supervise_respawn show_error from_str spawned first g cand path st)"
  by (simp add: supervise_respawn_def record_start_inv start_extension_inv)

lemma reload_inv: "daemon_inv st \<Longrightarrow> daemon_inv (snd (reload_from_path loaded load_tokens env candidates st))"
  by (auto simp: reload_from_path_def Let_def daemon_inv_def [of "_\<lparr>in_config := _\<rparr>"]
      intro!: start_extensions_inv intro: daemon_inv_cong [of _ st] split: sum.splits)

lemma shutdown_inv: "daemon_inv st \<Longrightarrow> daemon_inv (shutdown_state st)"
  unfolding shutdown_state_def send_shutdown_to_extensions_def
  by (rule fold_invariant [where Q = "\<lambda>_. True"]) (auto intro: send_command_inv daemon_inv_cong [of _ st])

text \<open>What an extension may emit on, by its claims, is what the tables give to it, while it is routed.\<close>

definition routed :: "string \<Rightarrow> inner \<Rightarrow> bool" where
  "routed x st \<longleftrightarrow> hget (in_routes st) x = Some x"

lemma routed_owns:
  assumes "daemon_inv st" and "hget (in_extensions st) x = Some h" and "routed x st"
    and "owns_channel (eh_paths h) (eh_channels h) ch"
  shows "tables_owned (in_routes st, in_prefixes st) x ch"
proof -
  have o: "owners_ok (in_extensions st) (in_routes st) (in_prefixes st)"
    using assms(1) by (simp add: daemon_inv_def)
  show ?thesis
    using assms(2-4) owners_okD(3,4) [OF o assms(2)]
    by (auto simp: owns_channel_def routed_def first_channel_segment_hd in_prefix_tokens)
qed

lemma routed_exclusive:
  assumes "daemon_inv st" and "hget (in_extensions st) x = Some h" and "routed x st"
    and "owns_channel (eh_paths h) (eh_channels h) ch"
    and "hget (in_extensions st) y = Some g" and "routed y st"
    and "owns_channel (eh_paths g) (eh_channels g) ch"
  shows "x = y"
  using tables_exclusive routed_owns [OF assms(1-4)] routed_owns [OF assms(1,5-7)] assms(1)
  unfolding daemon_inv_def by blast

section \<open>Back-off and crash loops\<close>

lemma respawn_delay_exact: "unat (respawn_delay_ms n) = min (250 * 2 ^ min n 7) 30000"
proof -
  define k where "k = min n 7"
  have "k \<le> 7" by (simp add: k_def)
  then have "k \<in> {0, 1, 2, 3, 4, 5, 6, 7}" by auto
  then show ?thesis
    unfolding respawn_delay_ms_def k_def [symmetric]
    by (elim insertE) (simp_all add: saturating_mul_def INITIAL_RESPAWN_BACKOFF_MS_def
        MAX_RESPAWN_BACKOFF_MS_def push_bit_eq_mult min_def word_le_nat_alt)
qed

text \<open>The decisions taken at the exits of one candidate, at the given times, until it is given up.\<close>

fun respawn_run :: "nat list \<Rightarrow> string \<Rightarrow> inner \<Rightarrow> u64 option list \<times> inner" where
  "respawn_run [] x st = ([], st)"
| "respawn_run (t # ts) x st =
     (case next_respawn_delay t x st of
        (None, st') \<Rightarrow> ([None], st')
      | (Some d, st') \<Rightarrow> (case respawn_run ts x st' of (ds, st'') \<Rightarrow> (Some d # ds, st'')))"

definition respawn_threshold :: "inner \<Rightarrow> nat" where
  "respawn_threshold st = max (crashloop_threshold (cfg_limits (in_config st))) 1"

definition respawn_window :: "inner \<Rightarrow> nat" where
  "respawn_window st = unat (max (crashloop_window_ms (cfg_limits (in_config st))) 1)"

lemma next_respawn_in_window:
  assumes "(case hget (in_supervisor st) x of None \<Rightarrow> \<lparr>sv_restarts = 0, sv_recent_exits = []\<rparr> | Some s \<Rightarrow> s) =
      \<lparr>sv_restarts = k, sv_recent_exits = es\<rparr>"
    and "length es = k" and "\<forall>e \<in> set es. t - e \<le> respawn_window st"
  shows "k + 1 \<ge> respawn_threshold st \<Longrightarrow>
      \<exists>st'. next_respawn_delay t x st = (None, st') \<and> hget (in_failed st') x \<noteq> None \<and>
        hget (in_unavailable st') x \<noteq> None"
    and "k + 1 < respawn_threshold st \<Longrightarrow>
      \<exists>st'. next_respawn_delay t x st = (Some (respawn_delay_ms k), st') \<and> in_config st' = in_config st \<and>
        hget (in_supervisor st') x = Some \<lparr>sv_restarts = k + 1, sv_recent_exits = es @ [t]\<rparr>"
proof -
  have keep: "dropWhile (\<lambda>e. t - e > unat (max (crashloop_window_ms (cfg_limits (in_config st))) 1)) es = es"
    using assms(3) by (simp add: dropWhile_eq_self_iff respawn_window_def linorder_not_less)
  show "\<exists>st'. next_respawn_delay t x st = (None, st') \<and> hget (in_failed st') x \<noteq> None \<and>
        hget (in_unavailable st') x \<noteq> None" if "k + 1 \<ge> respawn_threshold st"
    using that assms(1,2) keep
    by (auto simp: next_respawn_delay_def Let_def respawn_threshold_def hm_simps)
  show "\<exists>st'. next_respawn_delay t x st = (Some (respawn_delay_ms k), st') \<and> in_config st' = in_config st \<and>
        hget (in_supervisor st') x = Some \<lparr>sv_restarts = k + 1, sv_recent_exits = es @ [t]\<rparr>"
    if "k + 1 < respawn_threshold st"
    using that assms(1,2) keep
    by (auto simp: next_respawn_delay_def Let_def respawn_threshold_def hm_simps)
qed

lemma respawn_run_in_window:
  assumes "(case hget (in_supervisor st) x of None \<Rightarrow> \<lparr>sv_restarts = 0, sv_recent_exits = []\<rparr> | Some s \<Rightarrow> s) =
      \<lparr>sv_restarts = k, sv_recent_exits = es\<rparr>"
    and "length es = k" and "k < respawn_threshold st"
    and "\<forall>t \<in> set ts. \<forall>e \<in> set (es @ ts). t - e \<le> respawn_window st"
  shows "fst (respawn_run ts x st) = map (\<lambda>i. Some (respawn_delay_ms i)) [k..<min (k + length ts) (respawn_threshold st - 1)] @
      (if k + length ts \<ge> respawn_threshold st then [None] else []) \<and>
    (k + length ts \<ge> respawn_threshold st \<longrightarrow> \<not> should_respawn x (snd (respawn_run ts x st)) \<and>
       hget (in_unavailable (snd (respawn_run ts x st))) x \<noteq> None)"
  using assms
proof (induction ts arbitrary: st k es)
  case (Cons t ts)
  have near: "\<forall>e \<in> set es. t - e \<le> respawn_window st" using Cons.prems(4) by simp
  note step = next_respawn_in_window [OF Cons.prems(1,2) near]
  show ?case
  proof (cases "k + 1 \<ge> respawn_threshold st")
    case True
    then obtain st' where "next_respawn_delay t x st = (None, st')" "hget (in_failed st') x \<noteq> None"
      "hget (in_unavailable st') x \<noteq> None"
      using step(1) by blast
    with True show ?thesis by (simp add: should_respawn_def)
  next
    case False
    then obtain st' where st': "next_respawn_delay t x st = (Some (respawn_delay_ms k), st')"
      "in_config st' = in_config st"
      "hget (in_supervisor st') x = Some \<lparr>sv_restarts = k + 1, sv_recent_exits = es @ [t]\<rparr>"
      using step(2) by auto
    have same: "respawn_threshold st' = respawn_threshold st" "respawn_window st' = respawn_window st"
      by (simp_all add: respawn_threshold_def respawn_window_def st'(2))
    have "k < min (k + length (t # ts)) (respawn_threshold st - 1)" using False by simp
    then have split: "[k..<min (k + length (t # ts)) (respawn_threshold st - 1)] =
        k # [k + 1..<min (k + 1 + length ts) (respawn_threshold st - 1)]"
      by (simp add: upt_conv_Cons)
    have IH: "fst (respawn_run ts x st') =
        map (\<lambda>i. Some (respawn_delay_ms i)) [k + 1..<min (k + 1 + length ts) (respawn_threshold st - 1)] @
        (if k + 1 + length ts \<ge> respawn_threshold st then [None] else []) \<and>
      (k + 1 + length ts \<ge> respawn_threshold st \<longrightarrow> \<not> should_respawn x (snd (respawn_run ts x st')) \<and>
         hget (in_unavailable (snd (respawn_run ts x st'))) x \<noteq> None)"
      using Cons.IH [of st' "k + 1" "es @ [t]"] Cons.prems(2,4) False st'(3) same by simp
    have run: "respawn_run (t # ts) x st =
        (Some (respawn_delay_ms k) # fst (respawn_run ts x st'), snd (respawn_run ts x st'))"
      by (simp add: st'(1) split: prod.splits)
    show ?thesis unfolding run split using IH by (simp del: upt_Suc)
  qed
qed simp


text \<open>A server with one extension enabled, before it starts anything.\<close>

definition sample_config :: config where
  "sample_config =
     \<lparr>cfg_server = ServerConfig_default, cfg_subscribers = SubscribersConfig_default,
      cfg_extensions = \<lparr>enabled_exts = [''e''], autostart_all = False\<rparr>,
      cfg_limits = \<lparr>max_body_bytes = 9, max_in_flight = 2, sub_queue_len = 2, sub_queue_bytes = 9,
        dispatch_timeout_ms = 10, max_protocol_errors = 3, hang_kill_threshold = 3,
        crashloop_threshold = 5, crashloop_window_ms = 60\<rparr>, cfg_timeouts = TimeoutsConfig_default,
      cfg_delivery = DeliveryConfig_default, cfg_secrets_file = None, cfg_secrets = []\<rparr>"

definition sample_start :: inner where
  "sample_start =
     \<lparr>in_config = sample_config, in_token_store = \<lparr>ts_path = [], ts_tokens = []\<rparr>, in_routes = [],
      in_unavailable = [], in_prefixes = [], in_extensions = [], in_failed = [],
      in_subscribers = SubscriberRegistry_new, in_supervisor = [], in_shutting_down = False\<rparr>"


section \<open>Reload\<close>

text \<open>What starting and stopping extensions leaves alone.\<close>

definition same_edge :: "inner \<Rightarrow> inner \<Rightarrow> bool" where
  "same_edge st' st \<longleftrightarrow> in_config st' = in_config st \<and> in_token_store st' = in_token_store st \<and>
     in_subscribers st' = in_subscribers st \<and> in_shutting_down st' = in_shutting_down st"

lemma same_edge_refl [simp]: "same_edge st st"
  by (simp add: same_edge_def)

lemma same_edge_trans: "same_edge c b \<Longrightarrow> same_edge b a \<Longrightarrow> same_edge c a"
  by (simp add: same_edge_def)

lemma same_edge_fold:
  assumes "\<And>c st. same_edge (f c st) st"
  shows "same_edge (fold f cs st) st"
  by (induction cs arbitrary: st) (auto intro: same_edge_trans assms)

lemma start_extension_edge: "same_edge (snd (start_extension from_str spawned first g cand path st)) st"
  by (auto simp: same_edge_def start_extension_def register_handle_def clear_marks_def Let_def
      split: option.splits sum.splits if_splits)

lemma start_desired_edge: "same_edge (start_desired env c st) st"
proof -
  have "same_edge (record_start show_error cand res) st" if "same_edge (snd res) st" for show_error cand res
    using that by (auto simp: record_start_def mark_start_failure_def same_edge_def split: prod.splits sum.splits)
  then show ?thesis by (auto simp: start_desired_def start_extension_edge split: prod.splits)
qed

lemma start_extensions_edge: "same_edge (start_extensions env candidates st) st"
proof -
  have stop: "same_edge (stop_removed_extensions d st) st" for d st
    unfolding stop_removed_extensions_def
    by (rule same_edge_fold) (auto simp: same_edge_def send_command_def unroute_extension_def split: prod.splits)
  have "same_edge (fold (mark_missing d) ws st) st" for d ws st
    by (rule same_edge_fold) (simp add: same_edge_def mark_missing_def mark_start_failure_def)
  with stop show ?thesis
    unfolding start_extensions_def Let_def
    by (meson same_edge_fold same_edge_trans start_desired_edge)
qed

lemma close_names:
  "rg_subscribers (fold (\<lambda>nm. close_named nm reason) names reg) =
     map (\<lambda>(sid, s). (sid, if sub_name s \<in> set names then s\<lparr>sub_close := Some reason\<rparr> else s)) (rg_subscribers reg)"
proof (induction names arbitrary: reg)
  case (Cons nm names)
  have "rg_subscribers (close_named nm reason reg) =
      map (\<lambda>(sid, s). (sid, if sub_name s = nm then s\<lparr>sub_close := Some reason\<rparr> else s)) (rg_subscribers reg)"
    by (simp add: close_named_def)
  then show ?case using Cons [of "close_named nm reason reg"] by (simp add: comp_def case_prod_unfold)
qed simp

text \<open>
  C32: a reload that cannot read its configuration or its token file changes nothing.  One that can
  puts both in force and closes, as revoked, exactly the connections whose token name was removed
  or re-keyed.
\<close>

theorem reload_swaps_or_keeps:
  "case loaded of
     Inl e \<Rightarrow> reload_from_path loaded load_tokens env candidates st = (Inl (AppConfig e), st)
   | Inr c \<Rightarrow>
       (case load_tokens (token_store_path c) of
          Inl e \<Rightarrow> reload_from_path loaded load_tokens env candidates st = (Inl (AppTokens e), st)
        | Inr tokens \<Rightarrow>
            (let (out, st') = reload_from_path loaded load_tokens env candidates st
             in out = Inr () \<and> in_config st' = c \<and> in_token_store st' = tokens \<and>
                rg_subscribers (in_subscribers st') =
                  map (\<lambda>(sid, s). (sid, if \<exists>rec. (sub_name s, rec) \<in> set (ts_tokens (in_token_store st)) \<and>
                           hget (ts_tokens tokens) (sub_name s) \<noteq> Some rec
                         then s\<lparr>sub_close := Some CloseRevoked\<rparr> else s))
                    (rg_subscribers (in_subscribers st))))"
proof (cases loaded)
  case (Inr c)
  show ?thesis
  proof (cases "load_tokens (token_store_path c)")
    case tok: (Inr tokens)
    define names where "names = invalidated_names tokens (in_token_store st)"
    define st1 where "st1 = st\<lparr>in_config := c, in_token_store := tokens,
      in_subscribers := fold (\<lambda>nm. close_named nm CloseRevoked) names (in_subscribers st)\<rparr>"
    have re: "reload_from_path loaded load_tokens env candidates st = (Inr (), start_extensions env candidates st1)"
      by (simp add: reload_from_path_def Inr tok st1_def names_def Let_def)
    have names: "nm \<in> set names \<longleftrightarrow> (\<exists>rec. (nm, rec) \<in> set (ts_tokens (in_token_store st)) \<and>
        hget (ts_tokens tokens) nm \<noteq> Some rec)" for nm
      by (force simp: names_def invalidated_names_def)
    show ?thesis
      using start_extensions_edge [of env candidates st1]
      unfolding Inr tok sum.case re [unfolded Inr] Let_def same_edge_def
      by (simp add: st1_def close_names names)
  qed (simp add: reload_from_path_def Inr)
qed (simp add: reload_from_path_def)

end
