(* ===== verification/Dispatch.thy ===== *)
theory Dispatch
  imports Daemon
begin

text \<open>
  \<^verbatim>\<open>crates/whdr-server/src/daemon.rs\<close>, the dispatch path: routing a request, handing it to the
  extension, the reader that takes the extension's lines, and the end of the wait.  A dispatch is
  two steps around its wait, since other tasks run while it waits; a handle's clones share their
  counters, window and channels, so each step acts on the entry of its generation in the table.
  The last part composes the steps of all tasks into one transition system.
\<close>

section \<open>Shared parts of a handle\<close>

definition with_handle :: "string \<Rightarrow> uuid \<Rightarrow> (ext_handle \<Rightarrow> ext_handle) \<Rightarrow> inner \<Rightarrow> inner" where
  "with_handle xid generation f st =
     st\<lparr>in_extensions :=
       hmodify xid (\<lambda>h. if eh_generation h = generation then f h else h) (in_extensions st)\<rparr>"

text \<open>\<^verbatim>\<open>EventStats::record\<close>; \<open>now_ms\<close> is the wall clock.\<close>

definition EventStats_record :: "u64 \<Rightarrow> nat \<Rightarrow> ext_handle \<Rightarrow> ext_handle" where
  "EventStats_record now_ms count h =
     (if count = 0 then h
      else h\<lparr>eh_emitted := eh_emitted h + count, eh_last_event_at_ms := now_ms\<rparr>)"

definition EventStats_last_event_at_ms :: "ext_handle \<Rightarrow> u64 option" where
  "EventStats_last_event_at_ms h =
     (if eh_last_event_at_ms h = 0 then None else Some (eh_last_event_at_ms h))"

text \<open>The surroundings of a fan-out: the encoders, fresh identities, the database, the clocks.\<close>

record fan_env =
  fe_enc :: "stored_event \<Rightarrow> string option"
  fe_to_string :: "sub_server_msg \<Rightarrow> string option"
  fe_mint :: "nat \<Rightarrow> uuid"
  fe_db_ok :: bool
  fe_now_ms :: u64
  fe_now_ms2 :: u64

definition app_fanout :: "fan_env \<Rightarrow> event list \<Rightarrow> inner \<Rightarrow> inner" where
  "app_fanout fe events st =
     st\<lparr>in_subscribers := fanout (fe_enc fe) (fe_to_string fe) (fe_mint fe) (fe_db_ok fe)
          (fe_now_ms fe) (fe_now_ms2 fe) events (in_subscribers st)\<rparr>"

text \<open>
  \<^verbatim>\<open>filter_owned_events\<close> with the handle's claims, which never change, and its shared violation
  counter.
\<close>

definition filter_events :: "ext_handle \<Rightarrow> event list \<Rightarrow> inner \<Rightarrow> event list \<times> inner" where
  "filter_events h events st =
     (case filter_owned_events (eh_id h) (eh_paths h) (eh_channels h) 0 events of
        (kept, violations) \<Rightarrow>
          (kept, with_handle (eh_id h) (eh_generation h)
                   (\<lambda>h. h\<lparr>eh_namespace_violations := eh_namespace_violations h + violations\<rparr>) st))"

section \<open>Dispatch\<close>

datatype dispatch_error = Busy | Starting | Timeout | Dead | NotFound

record ext_result =
  xr_http :: http_reply
  xr_events :: "event list"

record request =
  rq_method :: string
  rq_path :: string
  rq_query :: "string option"
  rq_headers :: "(string, string) hashmap"
  rq_body :: string

text \<open>A dispatch that waits: the handle's clone, the reservation and the configuration it read.\<close>

record flight =
  fl_handle :: ext_handle
  fl_reservation :: reservation
  fl_config :: config

definition dispatch_route :: "string \<Rightarrow> inner \<Rightarrow> dispatch_error + ext_handle" where
  "dispatch_route route_key st =
     (case hget (in_routes st) route_key of
        None \<Rightarrow>
          if route_key \<in> set (enabled_exts (cfg_extensions (in_config st))) \<or>
             hget (in_unavailable st) route_key \<noteq> None \<or> hget (in_failed st) route_key \<noteq> None
          then Inl Starting else Inl NotFound
      | Some ext_id \<Rightarrow>
          (case hget (in_extensions st) ext_id of None \<Rightarrow> Inl Starting | Some h \<Rightarrow> Inr h))"

text \<open>
  \<^verbatim>\<open>ExtHandle::dispatch\<close> up to its wait.  \<open>base64\<close> is the body's encoder, \<open>req_id\<close> the fresh
  request id, \<open>tx\<close> names the waiting task, and \<open>tx_open\<close> says that the writer still takes messages.
\<close>

definition ext_dispatch_start ::
  "(string \<Rightarrow> string) \<Rightarrow> uuid \<Rightarrow> nat \<Rightarrow> bool \<Rightarrow> request \<Rightarrow> ext_handle \<Rightarrow> inner \<Rightarrow>
   (dispatch_error + flight) \<times> inner" where
  "ext_dispatch_start base64 req_id tx tx_open rq h st =
     (let config = in_config st;
          set_window = (\<lambda>w. with_handle (eh_id h) (eh_generation h) (\<lambda>h. h\<lparr>eh_dispatches := w\<rparr>))
      in (case reserve (max_in_flight (cfg_limits config)) req_id tx (eh_dispatches h) of
            None \<Rightarrow> (Inl Busy, st)
          | Some w \<Rightarrow>
              (let rv = \<lparr>rv_req_id = req_id, rv_armed = True\<rparr>;
                   msg = Dispatch \<lparr>d_req_id = req_id, d_method = rq_method rq, d_path = rq_path rq,
                           d_query = rq_query rq, d_headers = rq_headers rq,
                           d_body_b64 = base64 (rq_body rq),
                           d_secret = hget (cfg_secrets config) (eh_id h)\<rparr>
               in if \<not> tx_open
                  then (case remove_pending rv w of (_, _, w') \<Rightarrow> (Inl Dead, set_window w' st))
                  else (Inr \<lparr>fl_handle = h, fl_reservation = rv, fl_config = config\<rparr>,
                        with_handle (eh_id h) (eh_generation h)
                          (\<lambda>h. h\<lparr>eh_dispatches := w, eh_sent := eh_sent h @ [msg]\<rparr>) st))))"

definition dispatch_start ::
  "(string \<Rightarrow> string) \<Rightarrow> uuid \<Rightarrow> nat \<Rightarrow> bool \<Rightarrow> string \<Rightarrow> request \<Rightarrow> inner \<Rightarrow>
   (dispatch_error + flight) \<times> inner" where
  "dispatch_start base64 req_id tx tx_open route_key rq st =
     (case dispatch_route route_key st of
        Inl e \<Rightarrow> (Inl e, st)
      | Inr h \<Rightarrow> ext_dispatch_start base64 req_id tx tx_open rq h st)"

definition SUPERVISOR_CHANNEL :: nat where
  "SUPERVISOR_CHANNEL = 4"

text \<open>\<^verbatim>\<open>try_send\<close> on the supervisor's channel, which drops the command when it is full.\<close>

definition try_send_command :: "supervisor_command \<Rightarrow> ext_handle \<Rightarrow> ext_handle" where
  "try_send_command cmd h =
     (if length (eh_commands h) < SUPERVISOR_CHANNEL then h\<lparr>eh_commands := eh_commands h @ [cmd]\<rparr> else h)"

definition count_timeout :: "config \<Rightarrow> ext_handle \<Rightarrow> ext_handle" where
  "count_timeout config h =
     (let timeouts = eh_consecutive_timeouts h + 1;
          h' = h\<lparr>eh_consecutive_timeouts := timeouts\<rparr>
      in if timeouts = max (hang_kill_threshold (cfg_limits config)) 1
         then try_send_command
                (KillAndRespawn (nat_to_string timeouts @ '' consecutive dispatch timeouts'')) h'
         else h')"

text \<open>The wait of a dispatch and what follows it; \<open>outcome\<close> as in \<^const>\<open>reservation_wait\<close>.\<close>

definition ext_dispatch_finish ::
  "fan_env \<Rightarrow> ext_result option option \<Rightarrow> flight \<Rightarrow> inner \<Rightarrow> (dispatch_error + ext_result) \<times> inner" where
  "ext_dispatch_finish fe outcome fl st =
     (let h = fl_handle fl; on = with_handle (eh_id h) (eh_generation h)
      in (case outcome of
            Some (Some result) \<Rightarrow>
              (case filter_events h (xr_events result) st of
                 (events, st1) \<Rightarrow>
                   (Inr (result\<lparr>xr_events := events\<rparr>),
                    app_fanout fe events (on (EventStats_record (fe_now_ms fe) (length events)) st1)))
          | Some None \<Rightarrow> (Inl Dead, st)
          | None \<Rightarrow>
              (Inl Timeout,
               on (\<lambda>h. count_timeout (fl_config fl)
                         (h\<lparr>eh_dispatches := snd (snd
                            (reservation_wait (None :: unit option option) (fl_reservation fl)
                              (eh_dispatches h)))\<rparr>)) st)))"

section \<open>The reader\<close>

datatype reader_step = ReadOn | ReadEnd

text \<open>\<^verbatim>\<open>handle_protocol_error\<close>; the threshold is that of the configuration in force.\<close>

definition handle_protocol_error :: "string \<Rightarrow> uuid \<Rightarrow> inner \<Rightarrow> reader_step \<times> inner" where
  "handle_protocol_error xid generation st =
     (case extension_handle xid generation st of
        None \<Rightarrow> (ReadEnd, st)
      | Some h \<Rightarrow>
          (let count = eh_protocol_errors h + 1;
               threshold = max (max_protocol_errors (cfg_limits (in_config st))) 1;
               kill = count \<ge> threshold
           in (if kill then ReadEnd else ReadOn,
               with_handle xid generation
                 (\<lambda>h. let h' = h\<lparr>eh_protocol_errors := count\<rparr>
                      in if kill
                         then h'\<lparr>eh_commands := eh_commands h' @
                                [KillAndRespawn (nat_to_string count @ '' protocol errors'')]\<rparr>
                         else h') st)))"

text \<open>
  One turn of the reader's loop on a line.  The answer, if any, is the result handed to the waiting
  task; the list is what is fanned out.
\<close>

definition reader_result ::
  "ext_handle \<Rightarrow> uuid \<Rightarrow> http_reply \<Rightarrow> event list \<Rightarrow> inner \<Rightarrow> (nat \<times> ext_result) option \<times> inner" where
  "reader_result h req_id http events st =
     (case window_remove req_id (eh_dispatches h) of
        (None, _) \<Rightarrow> (None, st)
      | (Some tx, w) \<Rightarrow>
          (let st1 = with_handle (eh_id h) (eh_generation h)
                 (\<lambda>h. h\<lparr>eh_dispatches := w, eh_consecutive_timeouts := 0\<rparr>) st
           in (case filter_events h events st1 of
                 (kept, st2) \<Rightarrow> (Some (tx, \<lparr>xr_http = http, xr_events = kept\<rparr>), st2))))"

definition reader_event :: "fan_env \<Rightarrow> ext_handle \<Rightarrow> event \<Rightarrow> inner \<Rightarrow> event list \<times> inner" where
  "reader_event fe h ev st =
     (case filter_events h [ev] st of
        (kept, st1) \<Rightarrow>
          (kept, app_fanout fe kept
             (with_handle (eh_id h) (eh_generation h)
                (EventStats_record (fe_now_ms fe) (length kept)) st1)))"

definition reader_line ::
  "fan_env \<Rightarrow> (string \<Rightarrow> 'j ext_msg option) \<Rightarrow> string \<Rightarrow> uuid \<Rightarrow> string \<Rightarrow> inner \<Rightarrow>
   reader_step \<times> (nat \<times> ext_result) option \<times> event list \<times> inner" where
  "reader_line fe from_str xid generation line st =
     (case extension_handle xid generation st of
        None \<Rightarrow> (ReadEnd, None, [], st)
      | Some h \<Rightarrow>
          (case decode_line from_str line of
             Inr (Some (ExtResult req_id http events)) \<Rightarrow>
               (case reader_result h req_id http events st of
                  (answer, st') \<Rightarrow> (ReadOn, answer, [], st'))
           | Inr (Some (ExtEvent ev)) \<Rightarrow>
               (case reader_event fe h ev st of (kept, st') \<Rightarrow> (ReadOn, None, kept, st'))
           | Inr (Some (ExtLog level msg)) \<Rightarrow> (ReadOn, None, [], st)
           | Inr (Some (ExtRegister r)) \<Rightarrow> (ReadOn, None, [], st)
           | Inr None \<Rightarrow> (ReadOn, None, [], st)
           | Inl err \<Rightarrow>
               (case handle_protocol_error xid generation st of
                  (next, st') \<Rightarrow> (next, None, [], st'))))"

section \<open>All tasks together\<close>

text \<open>
  The life of extensions, one operation per step.  Connection tasks and admin requests change only
  the registry and the token store (\<open>Elsewhere\<close>).
\<close>

inductive lifecycle_step :: "(string \<Rightarrow> 'j ext_msg option) \<Rightarrow> inner \<Rightarrow> inner \<Rightarrow> bool" for from_str where
  StartAll: "se_from_str env = from_str \<Longrightarrow> lifecycle_step from_str st (start_extensions env candidates st)"
| Reload: "se_from_str env = from_str \<Longrightarrow>
     lifecycle_step from_str st (snd (reload_from_path loaded load_tokens env candidates st))"
| Supervise: "lifecycle_step from_str st (snd (supervise_end ev now candidate_id xid generation st))"
| Respawn: "lifecycle_step from_str st
     (supervise_respawn show_error from_str spawned first generation candidate_id path st)"
| ShutDown: "lifecycle_step from_str st (shutdown_state st)"
| Elsewhere: "lifecycle_step from_str st (st\<lparr>in_subscribers := reg, in_token_store := tokens\<rparr>)"

text \<open>
  The waiting dispatches by task, the one-shot channels that hold a result, and what an observer
  sees: the messages read, the results dispatches returned, the events fanned out.
\<close>

record 'j daemon_sys =
  ds_inner :: inner
  ds_flights :: "(nat, flight) hashmap"
  ds_answers :: "(nat, ext_result) hashmap"
  ds_next :: nat
  ds_lines :: "(string \<times> uuid \<times> 'j ext_msg) list"
  ds_replies :: "(flight \<times> ext_result) list"
  ds_emitted :: "(ext_handle \<times> event list) list"

definition daemon_sys_new :: "inner \<Rightarrow> 'j daemon_sys" where
  "daemon_sys_new st =
     \<lparr>ds_inner = st, ds_flights = [], ds_answers = [], ds_next = 0, ds_lines = [], ds_replies = [],
      ds_emitted = []\<rparr>"

definition end_flight :: "nat \<Rightarrow> inner \<Rightarrow> 'j daemon_sys \<Rightarrow> 'j daemon_sys" where
  "end_flight tx st s =
     s\<lparr>ds_inner := st, ds_flights := hremove tx (ds_flights s), ds_answers := hremove tx (ds_answers s)\<rparr>"

definition still_pending :: "flight \<Rightarrow> nat \<Rightarrow> inner \<Rightarrow> bool" where
  "still_pending fl tx st =
     (case extension_handle (eh_id (fl_handle fl)) (eh_generation (fl_handle fl)) st of
        None \<Rightarrow> False
      | Some h \<Rightarrow> hget (dw_pending (eh_dispatches h)) (rv_req_id (fl_reservation fl)) = Some tx)"

definition drop_flight :: "flight \<Rightarrow> inner \<Rightarrow> inner" where
  "drop_flight fl =
     with_handle (eh_id (fl_handle fl)) (eh_generation (fl_handle fl))
       (\<lambda>h. h\<lparr>eh_dispatches := reservation_drop (fl_reservation fl) (eh_dispatches h)\<rparr>)"

inductive daemon_step :: "(string \<Rightarrow> 'j ext_msg option) \<Rightarrow> 'j daemon_sys \<Rightarrow> 'j daemon_sys \<Rightarrow> bool"
  for from_str where
  Life: "lifecycle_step from_str (ds_inner s) st \<Longrightarrow> daemon_step from_str s (s\<lparr>ds_inner := st\<rparr>)"
| Begun: "dispatch_start base64 req_id (ds_next s) tx_open route_key rq (ds_inner s) = (Inr fl, st) \<Longrightarrow>
     daemon_step from_str s (s\<lparr>ds_inner := st, ds_next := ds_next s + 1,
       ds_flights := hinsert (ds_next s) fl (ds_flights s)\<rparr>)"
| Refused: "dispatch_start base64 req_id (ds_next s) tx_open route_key rq (ds_inner s) = (Inl e, st) \<Longrightarrow>
     daemon_step from_str s (s\<lparr>ds_inner := st, ds_next := ds_next s + 1\<rparr>)"
| ReadLine: "extension_handle xid generation (ds_inner s) = Some h \<Longrightarrow>
     reader_line fe from_str xid generation line (ds_inner s) = (nxt, answer, kept, st) \<Longrightarrow>
     daemon_step from_str s (s\<lparr>ds_inner := st,
       ds_lines := ds_lines s @
         (case decode_line from_str line of Inr (Some msg) \<Rightarrow> [(xid, generation, msg)] | _ \<Rightarrow> []),
       ds_answers := (case answer of None \<Rightarrow> ds_answers s | Some (tx, r) \<Rightarrow> hinsert tx r (ds_answers s)),
       ds_emitted := ds_emitted s @ [(h, kept)]\<rparr>)"
| Answered: "hget (ds_flights s) tx = Some fl \<Longrightarrow> hget (ds_answers s) tx = Some result \<Longrightarrow>
     ext_dispatch_finish fe (Some (Some result)) fl (ds_inner s) = (Inr r, st) \<Longrightarrow>
     daemon_step from_str s ((end_flight tx st s)\<lparr>ds_replies := ds_replies s @ [(fl, r)],
       ds_emitted := ds_emitted s @ [(fl_handle fl, xr_events r)]\<rparr>)"
| TimedOut: "hget (ds_flights s) tx = Some fl \<Longrightarrow> hget (ds_answers s) tx = None \<Longrightarrow>
     ext_dispatch_finish fe None fl (ds_inner s) = (Inl e, st) \<Longrightarrow>
     daemon_step from_str s (end_flight tx st s)"
| Died: "hget (ds_flights s) tx = Some fl \<Longrightarrow> hget (ds_answers s) tx = None \<Longrightarrow>
     \<not> still_pending fl tx (ds_inner s) \<Longrightarrow>
     ext_dispatch_finish fe (Some None) fl (ds_inner s) = (Inl e, st) \<Longrightarrow>
     daemon_step from_str s (end_flight tx st s)"
| Cancelled: "hget (ds_flights s) tx = Some fl \<Longrightarrow>
     daemon_step from_str s (end_flight tx (drop_flight fl (ds_inner s)) s)"

inductive daemon_reach :: "(string \<Rightarrow> 'j ext_msg option) \<Rightarrow> inner \<Rightarrow> 'j daemon_sys \<Rightarrow> bool"
  for from_str st0 where
  Init: "daemon_reach from_str st0 (daemon_sys_new st0)"
| Step: "daemon_reach from_str st0 s \<Longrightarrow> daemon_step from_str s s' \<Longrightarrow> daemon_reach from_str st0 s'"

section \<open>Where the dispatches of a handle come from\<close>

text \<open>
  Two versions of a handle: same extension, same process, same claims.  A table comes \<open>from\<close> another
  when every dispatch pending in it was pending in the same process before.
\<close>

definition same_process :: "ext_handle \<Rightarrow> ext_handle \<Rightarrow> bool" where
  "same_process h h' \<longleftrightarrow> eh_id h = eh_id h' \<and> eh_generation h = eh_generation h' \<and>
     eh_paths h = eh_paths h' \<and> eh_channels h = eh_channels h'"

definition handles_from ::
  "(string, ext_handle) hashmap \<Rightarrow> (string, ext_handle) hashmap \<Rightarrow> bool" where
  "handles_from exts' exts \<longleftrightarrow> (\<forall>x h' r tx. hget exts' x = Some h' \<longrightarrow>
     hget (dw_pending (eh_dispatches h')) r = Some tx \<longrightarrow>
     (\<exists>h. hget exts x = Some h \<and> same_process h h' \<and> hget (dw_pending (eh_dispatches h)) r = Some tx))"

lemma same_process_refl [simp]: "same_process h h"
  by (simp add: same_process_def)

lemma same_process_trans: "same_process a b \<Longrightarrow> same_process b c \<Longrightarrow> same_process a c"
  by (simp add: same_process_def)

lemma handles_fromI:
  assumes "\<And>x h' r tx. hget exts' x = Some h' \<Longrightarrow> hget (dw_pending (eh_dispatches h')) r = Some tx \<Longrightarrow>
     \<exists>h. hget exts x = Some h \<and> same_process h h' \<and> hget (dw_pending (eh_dispatches h)) r = Some tx"
  shows "handles_from exts' exts"
  unfolding handles_from_def using assms by blast

lemma handles_fromD:
  assumes "handles_from exts' exts" and "hget exts' x = Some h'"
    and "hget (dw_pending (eh_dispatches h')) r = Some tx"
  obtains h where "hget exts x = Some h" "same_process h h'" "hget (dw_pending (eh_dispatches h)) r = Some tx"
  using assms unfolding handles_from_def by blast

lemma handles_from_refl [simp]: "handles_from e e"
  by (rule handles_fromI) auto

lemma handles_from_trans:
  assumes "handles_from c b" and "handles_from b a"
  shows "handles_from c a"
  by (rule handles_fromI) (blast elim: handles_fromD [OF assms(1)] handles_fromD [OF assms(2)]
      intro: same_process_trans)

lemma handles_from_modify:
  assumes "\<And>h r tx. hget e x = Some h \<Longrightarrow> same_process h (f h) \<and>
    (hget (dw_pending (eh_dispatches (f h))) r = Some tx \<longrightarrow> hget (dw_pending (eh_dispatches h)) r = Some tx)"
  shows "handles_from (hmodify x f e) e"
proof (rule handles_fromI)
  fix y h' r tx
  assume h': "hget (hmodify x f e) y = Some h'" "hget (dw_pending (eh_dispatches h')) r = Some tx"
  then obtain h where "hget e y = Some h" "h' = (if y = x then f h else h)"
    by (auto simp: hm_simps split: if_splits)
  with h'(2) assms [of h r tx] show "\<exists>h. hget e y = Some h \<and> same_process h h' \<and>
      hget (dw_pending (eh_dispatches h)) r = Some tx"
    by (intro exI [of _ h]) (cases "y = x"; simp)
qed

lemma handles_from_fold:
  assumes "\<And>c st. handles_from (in_extensions (f c st)) (in_extensions st)"
  shows "handles_from (in_extensions (fold f cs st)) (in_extensions st)"
  by (induction cs arbitrary: st) (auto intro: handles_from_trans assms)

lemma send_command_from: "handles_from (in_extensions (send_command cmd x st)) (in_extensions st)"
  by (simp add: send_command_def handles_from_modify same_process_def)

lemma unroute_from [simp]: "in_extensions (unroute_extension h st) = in_extensions st"
  by (simp add: unroute_extension_def)

lemma stop_removed_from: "handles_from (in_extensions (stop_removed_extensions desired st)) (in_extensions st)"
  unfolding stop_removed_extensions_def
proof (rule handles_from_fold)
  fix c :: "string \<times> ext_handle" and st
  show "handles_from (in_extensions ((case c of (_, h) \<Rightarrow> \<lambda>st.
      if hget desired (eh_candidate_id h) \<noteq> None then st
      else send_command (DrainStop ''removed from config'' False) (eh_id h) (unroute_extension h st)) st))
    (in_extensions st)"
    using send_command_from [of _ _ "unroute_extension (snd c) st"] by (auto split: prod.splits)
qed

lemma start_extension_from:
  "handles_from (in_extensions (snd (start_extension from_str spawned first g cand path st)))
     (in_extensions st)"
proof -
  have "handles_from (hinsert x (new_handle cand path reg g pid st) e) e" for x reg pid e
    by (rule handles_fromI)
      (auto simp: hm_simps new_handle_def DispatchWindow_new_def split: if_splits)
  then show ?thesis
    by (auto simp: start_extension_def register_handle_def clear_marks_def Let_def
        split: option.splits sum.splits if_splits)
qed

lemma record_start_exts [simp]: "in_extensions (record_start show_error cand res) = in_extensions (snd res)"
  by (auto simp: record_start_def mark_start_failure_def split: prod.splits sum.splits)

lemma mark_missing_exts [simp]: "in_extensions (mark_missing desired w st) = in_extensions st"
  by (simp add: mark_missing_def mark_start_failure_def)

lemma start_extensions_from:
  "handles_from (in_extensions (start_extensions env candidates st)) (in_extensions st)"
proof -
  have "handles_from (in_extensions (start_desired env c st)) (in_extensions st)" for c st
    using start_extension_from by (auto simp: start_desired_def split: prod.splits)
  then have "handles_from (in_extensions (fold (start_desired env) cs st)) (in_extensions st)" for cs st
    by (rule handles_from_fold)
  moreover have "handles_from (in_extensions (fold (mark_missing d) ws st)) (in_extensions st)" for d ws st
    by (rule handles_from_fold) simp
  ultimately show ?thesis
    unfolding start_extensions_def Let_def
    using handles_from_trans stop_removed_from by blast
qed

lemma cleanup_from:
  "handles_from (in_extensions (snd (cleanup_extension_generation x g reason mark st))) (in_extensions st)"
  by (rule handles_fromI)
    (auto simp: cleanup_extension_generation_def Let_def hm_simps split: option.splits if_splits)

lemma supervise_end_from:
  "handles_from (in_extensions (snd (supervise_end ev now cand x g st))) (in_extensions st)"
proof -
  define st1 where "st1 = (case ev of GotDrainStop _ \<Rightarrow> drain_shutdown x g st | _ \<Rightarrow> st)"
  have "handles_from (in_extensions (drain_shutdown x g st)) (in_extensions st)"
    by (auto simp: drain_shutdown_def same_process_def intro!: handles_from_modify split: option.splits)
  then have start: "handles_from (in_extensions st1) (in_extensions st)"
    by (cases ev) (simp_all add: st1_def)
  have next_exts: "in_extensions (snd (next_respawn_delay now y st')) = in_extensions st'" for y st'
    by (simp add: next_respawn_delay_def Let_def)
  obtain reason cons where r: "supervise_reason ev = (reason, cons)" by fastforce
  obtain removed st2 where c: "cleanup_extension_generation x g reason cons st1 = (removed, st2)"
    by fastforce
  have "in_extensions (snd (supervise_end ev now cand x g st)) = in_extensions st2"
    using c by (simp add: supervise_end_def r next_exts flip: st1_def)
  moreover have "handles_from (in_extensions st2) (in_extensions st1)"
    using cleanup_from [of x g reason cons st1] by (simp add: c)
  ultimately show ?thesis using handles_from_trans [OF _ start] by simp
qed

lemma lifecycle_from:
  assumes "lifecycle_step from_str st st'"
  shows "handles_from (in_extensions st') (in_extensions st)"
  using assms
proof cases
  case (Reload env loaded load_tokens candidates)
  have "handles_from (in_extensions (start_extensions env candidates
      (st\<lparr>in_config := c, in_token_store := t, in_subscribers := r\<rparr>))) (in_extensions st)" for c t r
    using start_extensions_from [of env candidates "st\<lparr>in_config := c, in_token_store := t, in_subscribers := r\<rparr>"]
    by simp
  then show ?thesis
    unfolding Reload by (auto simp: reload_from_path_def Let_def split: sum.splits)
next
  case Respawn
  then show ?thesis using start_extension_from by (auto simp: supervise_respawn_def)
next
  case ShutDown
  have "handles_from (in_extensions ((case c of (_, h) \<Rightarrow> send_command (DrainStop ''server shutdown'' True) (eh_id h)) st1))
    (in_extensions st1)" for c :: "string \<times> ext_handle" and st1
    using send_command_from by (auto split: prod.splits)
  then show ?thesis
    unfolding ShutDown shutdown_state_def send_shutdown_to_extensions_def
    by (rule handles_from_trans [OF handles_from_fold]) simp
qed (simp_all add: start_extensions_from supervise_end_from)

lemma lifecycle_inv: "lifecycle_step from_str st st' \<Longrightarrow> daemon_inv st \<Longrightarrow> daemon_inv st'"
  by (induction rule: lifecycle_step.induct)
    (auto intro: start_extensions_inv reload_inv supervise_end_inv supervise_respawn_inv shutdown_inv
      daemon_inv_cong)

section \<open>Every answer is the extension's own\<close>

abbreviation flight_id :: "flight \<Rightarrow> string" where
  "flight_id fl \<equiv> eh_id (fl_handle fl)"

abbreviation flight_generation :: "flight \<Rightarrow> uuid" where
  "flight_generation fl \<equiv> eh_generation (fl_handle fl)"

abbreviation flight_req_id :: "flight \<Rightarrow> uuid" where
  "flight_req_id fl \<equiv> rv_req_id (fl_reservation fl)"

definition owned_events :: "ext_handle \<Rightarrow> event list \<Rightarrow> event list" where
  "owned_events h es = filter (\<lambda>e. owns_channel (eh_paths h) (eh_channels h) (ev_channel e)) es"

definition answer_ok :: "(string \<times> uuid \<times> 'j ext_msg) list \<Rightarrow> flight \<Rightarrow> ext_result \<Rightarrow> bool" where
  "answer_ok lines fl res \<longleftrightarrow> (\<exists>http es.
     (flight_id fl, flight_generation fl, ExtResult (flight_req_id fl) http es) \<in> set lines \<and>
     res = \<lparr>xr_http = http, xr_events = owned_events (fl_handle fl) es\<rparr>)"

definition emission_ok :: "(string \<times> uuid \<times> 'j ext_msg) list \<Rightarrow> ext_handle \<Rightarrow> event list \<Rightarrow> bool" where
  "emission_ok lines h es \<longleftrightarrow> es = [] \<or>
     (\<exists>ev. (eh_id h, eh_generation h, ExtEvent ev) \<in> set lines \<and> es = owned_events h [ev]) \<or>
     (\<exists>r http sent. (eh_id h, eh_generation h, ExtResult r http sent) \<in> set lines \<and>
        es = owned_events h sent)"

definition pending_ok ::
  "(nat, flight) hashmap \<Rightarrow> (nat, ext_result) hashmap \<Rightarrow> (string, ext_handle) hashmap \<Rightarrow> bool" where
  "pending_ok flights answers exts \<longleftrightarrow> (\<forall>x h r tx. hget exts x = Some h \<longrightarrow>
     hget (dw_pending (eh_dispatches h)) r = Some tx \<longrightarrow>
     (\<exists>fl. hget flights tx = Some fl \<and> hget answers tx = None \<and> flight_req_id fl = r \<and>
        same_process (fl_handle fl) h))"

definition sys_inv :: "'j daemon_sys \<Rightarrow> bool" where
  "sys_inv s \<longleftrightarrow> daemon_inv (ds_inner s) \<and>
     pending_ok (ds_flights s) (ds_answers s) (in_extensions (ds_inner s)) \<and>
     (\<forall>tx fl. hget (ds_flights s) tx = Some fl \<longrightarrow> tx < ds_next s \<and> rv_armed (fl_reservation fl)) \<and>
     (\<forall>tx res. hget (ds_answers s) tx = Some res \<longrightarrow>
        (\<exists>fl. hget (ds_flights s) tx = Some fl \<and> answer_ok (ds_lines s) fl res)) \<and>
     (\<forall>(fl, res) \<in> set (ds_replies s). answer_ok (ds_lines s) fl res) \<and>
     (\<forall>(h, es) \<in> set (ds_emitted s). emission_ok (ds_lines s) h es)"

lemma owned_events_idem [simp]: "owned_events h (owned_events h es) = owned_events h es"
  by (simp add: owned_events_def)

lemma filter_events_eq:
  "filter_events h es st =
     (owned_events h es, with_handle (eh_id h) (eh_generation h) (\<lambda>g. g\<lparr>eh_namespace_violations :=
        eh_namespace_violations g + (length es - length (owned_events h es))\<rparr>) st)"
proof -
  have "length (filter (\<lambda>e. \<not> P e) es) = length es - length (filter P es)" for P
    using sum_length_filter_compl [of P es] by simp
  then show ?thesis by (simp add: filter_events_def filter_owned_events_eq owned_events_def)
qed

lemma answer_ok_mono: "answer_ok lines fl res \<Longrightarrow> set lines \<subseteq> set lines' \<Longrightarrow> answer_ok lines' fl res"
  unfolding answer_ok_def by blast

lemma emission_ok_mono: "emission_ok lines h es \<Longrightarrow> set lines \<subseteq> set lines' \<Longrightarrow> emission_ok lines' h es"
  unfolding emission_ok_def by blast

lemma with_handle_inv:
  assumes "daemon_inv st" and "same_claims f"
  shows "daemon_inv (with_handle x g f st)"
  unfolding with_handle_def
  by (rule modify_handle_inv [OF assms(1)]) (use assms(2) in \<open>simp add: same_claims_def\<close>)

lemma extension_handle_with [simp]:
  "extension_handle x g (with_handle x g f st) =
     (case extension_handle x g st of None \<Rightarrow> None
      | Some h \<Rightarrow> if eh_generation (f h) = g then Some (f h) else None)"
  by (auto simp: extension_handle_def with_handle_def hm_simps split: option.splits)

lemma with_handle_from:
  assumes "\<And>h r tx. extension_handle x g st = Some h \<Longrightarrow> same_process h (f h) \<and>
    (hget (dw_pending (eh_dispatches (f h))) r = Some tx \<longrightarrow> hget (dw_pending (eh_dispatches h)) r = Some tx)"
  shows "handles_from (in_extensions (with_handle x g f st)) (in_extensions st)"
proof -
  have "handles_from (hmodify x (\<lambda>h. if eh_generation h = g then f h else h) (in_extensions st))
      (in_extensions st)"
  proof (rule handles_from_modify)
    fix h r tx
    assume "hget (in_extensions st) x = Some h"
    then show "same_process h (if eh_generation h = g then f h else h) \<and>
      (hget (dw_pending (eh_dispatches (if eh_generation h = g then f h else h))) r = Some tx \<longrightarrow>
       hget (dw_pending (eh_dispatches h)) r = Some tx)"
      using assms [of h r tx] by (simp add: extension_handle_def)
  qed
  then show ?thesis by (simp add: with_handle_def)
qed

lemma app_fanout_simps [simp]:
  "in_extensions (app_fanout fe es st) = in_extensions st" "in_routes (app_fanout fe es st) = in_routes st"
  "in_prefixes (app_fanout fe es st) = in_prefixes st"
  by (simp_all add: app_fanout_def)

lemma app_fanout_inv [simp]: "daemon_inv (app_fanout fe es st) = daemon_inv st"
  by (simp add: daemon_inv_def)

lemma pending_okI:
  assumes "\<And>x h r tx. hget exts x = Some h \<Longrightarrow> hget (dw_pending (eh_dispatches h)) r = Some tx \<Longrightarrow>
     \<exists>fl. hget flights tx = Some fl \<and> hget answers tx = None \<and> flight_req_id fl = r \<and>
       same_process (fl_handle fl) h"
  shows "pending_ok flights answers exts"
  unfolding pending_ok_def using assms by blast

lemma pending_okD:
  assumes "pending_ok flights answers exts" and "hget exts x = Some h"
    and "hget (dw_pending (eh_dispatches h)) r = Some tx"
  obtains fl where "hget flights tx = Some fl" "hget answers tx = None" "flight_req_id fl = r"
    "same_process (fl_handle fl) h"
  using assms unfolding pending_ok_def by blast

lemma pending_ok_from:
  assumes "pending_ok flights answers exts" and "handles_from exts' exts"
  shows "pending_ok flights answers exts'"
  by (rule pending_okI)
    (blast elim: handles_fromD [OF assms(2)] pending_okD [OF assms(1)] intro: same_process_trans)

lemma pending_still:
  assumes "pending_ok flights answers (in_extensions st)" and "daemon_inv st"
    and h: "hget (in_extensions st) x = Some h" and p: "hget (dw_pending (eh_dispatches h)) r = Some tx"
    and "hget flights tx = Some fl"
  shows "still_pending fl tx st"
proof -
  from assms obtain "flight_req_id fl = r" "same_process (fl_handle fl) h"
    by (auto elim: pending_okD)
  moreover have "eh_id h = x" using ext_table_okD(2) [OF _ h] assms(2) by (simp add: daemon_inv_def)
  ultimately show ?thesis
    using h p by (auto simp: still_pending_def extension_handle_def same_process_def)
qed

lemma pending_ok_drop:
  assumes "pending_ok flights answers (in_extensions st)" and "daemon_inv st"
    and "hget flights tx = Some fl" and "\<not> still_pending fl tx st"
  shows "pending_ok (hremove tx flights) (hremove tx answers) (in_extensions st)"
    and "pending_ok flights (hinsert tx res answers) (in_extensions st)"
proof -
  have "tx' \<noteq> tx" if "hget (in_extensions st) x = Some h" "hget (dw_pending (eh_dispatches h)) r = Some tx'"
    for x h r tx'
    using pending_still [OF assms(1,2) that(1)] that(2) assms(3,4) by blast
  then show "pending_ok (hremove tx flights) (hremove tx answers) (in_extensions st)"
    "pending_ok flights (hinsert tx res answers) (in_extensions st)"
    using assms(1) by (auto simp: hm_simps intro!: pending_okI elim: pending_okD)
qed

lemma answered_not_pending:
  assumes "pending_ok flights answers (in_extensions st)" and "hget answers tx = Some res"
  shows "\<not> still_pending fl tx st"
proof
  assume "still_pending fl tx st"
  then obtain h where "hget (in_extensions st) (flight_id fl) = Some h"
    "hget (dw_pending (eh_dispatches h)) (flight_req_id fl) = Some tx"
    by (auto simp: still_pending_def extension_handle_def split: option.splits if_splits)
  with assms show False by (auto elim: pending_okD)
qed

lemma window_remove_pending:
  "hget (dw_pending (snd (window_remove r w))) r' = (if r' = r then None else hget (dw_pending w) r')"
  by (auto simp: window_remove_def hm_simps split: option.splits)

lemma reservation_wait_timeout:
  "snd (snd (reservation_wait None rv w)) = (if rv_armed rv then snd (window_remove (rv_req_id rv) w) else w)"
  by (auto simp: reservation_wait_def remove_pending_def split: prod.splits)

lemma count_timeout_same [simp]:
  "eh_id (count_timeout c h) = eh_id h" "eh_paths (count_timeout c h) = eh_paths h"
  "eh_channels (count_timeout c h) = eh_channels h"
  "eh_dispatches (count_timeout c h) = eh_dispatches h" "eh_generation (count_timeout c h) = eh_generation h"
  by (simp_all add: count_timeout_def try_send_command_def Let_def)

lemma EventStats_same [simp]:
  "same_process h (EventStats_record n c h') \<longleftrightarrow> same_process h h'"
  "eh_dispatches (EventStats_record n c h) = eh_dispatches h"
  by (simp_all add: EventStats_record_def same_process_def)

lemma same_claims_shared:
  "same_claims (EventStats_record n c)"
  "same_claims (\<lambda>h. h\<lparr>eh_namespace_violations := v h\<rparr>)"
  "same_claims (\<lambda>h. count_timeout cfg (h\<lparr>eh_dispatches := W h\<rparr>))"
  "same_claims (\<lambda>h. h\<lparr>eh_dispatches := W h\<rparr>)"
  "same_claims (\<lambda>h. h\<lparr>eh_dispatches := W h, eh_consecutive_timeouts := t\<rparr>)"
  "same_claims (\<lambda>h. h\<lparr>eh_dispatches := W h, eh_sent := sent h\<rparr>)"
  by (simp_all add: same_claims_def EventStats_record_def count_timeout_def try_send_command_def Let_def)

lemma finish_result:
  assumes "ext_dispatch_finish fe (Some (Some res)) fl st = (out, st')"
  shows "out = Inr (res\<lparr>xr_events := owned_events (fl_handle fl) (xr_events res)\<rparr>)"
    and "daemon_inv st \<Longrightarrow> daemon_inv st'"
    and "handles_from (in_extensions st') (in_extensions st)"
proof -
  define f where "f = (\<lambda>g :: ext_handle. g\<lparr>eh_namespace_violations := eh_namespace_violations g +
      (length (xr_events res) - length (owned_events (fl_handle fl) (xr_events res)))\<rparr>)"
  define st1 where "st1 = with_handle (flight_id fl) (flight_generation fl) f st"
  define st2 where "st2 = with_handle (flight_id fl) (flight_generation fl)
      (EventStats_record (fe_now_ms fe) (length (owned_events (fl_handle fl) (xr_events res)))) st1"
  have st': "st' = app_fanout fe (owned_events (fl_handle fl) (xr_events res)) st2"
    and "out = Inr (res\<lparr>xr_events := owned_events (fl_handle fl) (xr_events res)\<rparr>)"
    using assms by (auto simp: ext_dispatch_finish_def filter_events_eq Let_def st2_def st1_def f_def)
  then show "out = Inr (res\<lparr>xr_events := owned_events (fl_handle fl) (xr_events res)\<rparr>)" by blast
  have "handles_from (in_extensions st1) (in_extensions st)"
    unfolding st1_def by (rule with_handle_from) (simp add: f_def same_process_def)
  moreover have "handles_from (in_extensions st2) (in_extensions st1)"
    unfolding st2_def by (rule with_handle_from) simp
  ultimately show "handles_from (in_extensions st') (in_extensions st)"
    using handles_from_trans by (simp add: st')
  show "daemon_inv st'" if "daemon_inv st"
    unfolding st' st2_def st1_def
    by (simp add: with_handle_inv that same_claims_shared f_def)
qed

lemma finish_timeout:
  assumes "ext_dispatch_finish fe None fl st = (out, st')"
  shows "daemon_inv st \<Longrightarrow> daemon_inv st'"
    and "handles_from (in_extensions st') (in_extensions st)"
    and "rv_armed (fl_reservation fl) \<Longrightarrow> \<not> still_pending fl tx st'"
proof -
  define W where "W = (\<lambda>h :: ext_handle. if rv_armed (fl_reservation fl)
      then snd (window_remove (flight_req_id fl) (eh_dispatches h)) else eh_dispatches h)"
  have st': "st' = with_handle (flight_id fl) (flight_generation fl)
      (\<lambda>h. count_timeout (fl_config fl) (h\<lparr>eh_dispatches := W h\<rparr>)) st"
    using assms by (auto simp: ext_dispatch_finish_def Let_def reservation_wait_timeout W_def)
  show "daemon_inv st'" if "daemon_inv st" unfolding st' by (simp add: with_handle_inv that same_claims_shared)
  show "handles_from (in_extensions st') (in_extensions st)"
    unfolding st' by (rule with_handle_from) (simp add: W_def window_remove_pending same_process_def)
  show "\<not> still_pending fl tx st'" if "rv_armed (fl_reservation fl)"
    using that by (simp add: st' still_pending_def W_def window_remove_pending split: option.splits)
qed

lemma drop_flight_facts:
  shows "daemon_inv st \<Longrightarrow> daemon_inv (drop_flight fl st)"
    and "handles_from (in_extensions (drop_flight fl st)) (in_extensions st)"
    and "rv_armed (fl_reservation fl) \<Longrightarrow> \<not> still_pending fl tx (drop_flight fl st)"
proof -
  show "daemon_inv (drop_flight fl st)" if "daemon_inv st"
    unfolding drop_flight_def by (simp add: with_handle_inv that same_claims_shared)
  show "handles_from (in_extensions (drop_flight fl st)) (in_extensions st)"
    unfolding drop_flight_def
    by (rule with_handle_from) (simp add: reservation_drop_def window_remove_pending same_process_def)
  show "\<not> still_pending fl tx (drop_flight fl st)" if "rv_armed (fl_reservation fl)"
    using that by (simp add: drop_flight_def still_pending_def reservation_drop_def window_remove_pending
        split: option.splits)
qed

lemma reserve_pending:
  assumes "reserve limit req_id tx w = Some w'"
  shows "dw_pending w' = hinsert req_id tx (dw_pending w)"
  using assms
  by (auto simp: reserve_def reserve_round_def pending_insert_def split: cas_round.splits if_splits)

lemma dispatch_route_handle:
  assumes "dispatch_route key st = Inr h" and "daemon_inv st"
  shows "extension_handle (eh_id h) (eh_generation h) st = Some h"
proof -
  obtain x where "hget (in_extensions st) x = Some h"
    using assms(1) by (auto simp: dispatch_route_def split: option.splits if_splits)
  then show ?thesis
    using ext_table_okD(2) assms(2) by (fastforce simp: extension_handle_def daemon_inv_def)
qed

lemma dispatch_started:
  assumes "dispatch_start base64 req_id tx tx_open key rq st = (Inr fl, st')" and "daemon_inv st"
  obtains h w msg where "extension_handle (eh_id h) (eh_generation h) st = Some h"
    "fl_handle fl = h" "fl_reservation fl = \<lparr>rv_req_id = req_id, rv_armed = True\<rparr>"
    "dw_pending w = hinsert req_id tx (dw_pending (eh_dispatches h))"
    "st' = with_handle (eh_id h) (eh_generation h) (\<lambda>h. h\<lparr>eh_dispatches := w, eh_sent := eh_sent h @ [msg]\<rparr>) st"
proof -
  obtain h where h: "dispatch_route key st = Inr h"
    and e: "ext_dispatch_start base64 req_id tx tx_open rq h st = (Inr fl, st')"
    using assms(1) by (auto simp: dispatch_start_def split: sum.splits)
  obtain w where w: "reserve (max_in_flight (cfg_limits (in_config st))) req_id tx (eh_dispatches h) = Some w"
    using e by (auto simp: ext_dispatch_start_def Let_def split: option.splits)
  with e have "fl_handle fl = h \<and> fl_reservation fl = \<lparr>rv_req_id = req_id, rv_armed = True\<rparr> \<and>
      (\<exists>msg. st' = with_handle (eh_id h) (eh_generation h)
         (\<lambda>h. h\<lparr>eh_dispatches := w, eh_sent := eh_sent h @ [msg]\<rparr>) st)"
    by (auto simp: ext_dispatch_start_def Let_def split: if_splits prod.splits)
  then show ?thesis
    using that [OF dispatch_route_handle [OF h assms(2)]] reserve_pending [OF w] by blast
qed

lemma dispatch_refused:
  assumes "dispatch_start base64 req_id tx tx_open key rq st = (Inl e, st')" and "daemon_inv st"
  shows "daemon_inv st' \<and> handles_from (in_extensions st') (in_extensions st)"
proof (cases "st' = st")
  case False
  then obtain h where h: "dispatch_route key st = Inr h"
    and e: "ext_dispatch_start base64 req_id tx tx_open rq h st = (Inl e, st')"
    using assms(1) by (auto simp: dispatch_start_def split: sum.splits)
  note hx = dispatch_route_handle [OF h assms(2)]
  obtain w where w: "reserve (max_in_flight (cfg_limits (in_config st))) req_id tx (eh_dispatches h) = Some w"
    using e False by (auto simp: ext_dispatch_start_def Let_def split: option.splits)
  define w' where "w' = snd (window_remove req_id w)"
  have st': "st' = with_handle (eh_id h) (eh_generation h) (\<lambda>h. h\<lparr>eh_dispatches := w'\<rparr>) st"
    using e w by (auto simp: ext_dispatch_start_def Let_def remove_pending_def w'_def split: if_splits prod.splits)
  have sub: "hget (dw_pending (eh_dispatches h)) r = Some t" if "hget (dw_pending w') r = Some t" for r t
    using that by (auto simp: w'_def window_remove_pending reserve_pending [OF w] hm_simps split: if_splits)
  have "daemon_inv st'" unfolding st' by (simp add: with_handle_inv assms(2) same_claims_shared)
  moreover have "handles_from (in_extensions st') (in_extensions st)"
    unfolding st' by (rule with_handle_from) (use hx sub in \<open>auto simp: same_process_def\<close>)
  ultimately show ?thesis by blast
qed (simp add: assms(2))

lemma extension_handleD:
  assumes "extension_handle x g st = Some h" and "daemon_inv st"
  shows "hget (in_extensions st) x = Some h \<and> eh_id h = x \<and> eh_generation h = g"
  using assms ext_table_okD(2)
  by (fastforce simp: extension_handle_def daemon_inv_def split: option.splits if_splits)

lemma reader_result_facts:
  assumes "extension_handle x g st = Some h" and "daemon_inv st"
    and "reader_result h req_id http es st = (answer, st')"
  shows "daemon_inv st' \<and> handles_from (in_extensions st') (in_extensions st) \<and>
    (case answer of None \<Rightarrow> True
     | Some (tx, res) \<Rightarrow> hget (dw_pending (eh_dispatches h)) req_id = Some tx \<and>
         res = \<lparr>xr_http = http, xr_events = owned_events h es\<rparr> \<and>
         (\<forall>h'. extension_handle x g st' = Some h' \<longrightarrow> hget (dw_pending (eh_dispatches h')) req_id = None))"
proof (cases "hget (dw_pending (eh_dispatches h)) req_id")
  case None
  with assms show ?thesis by (auto simp: reader_result_def window_remove_def)
next
  case (Some tx)
  note hx = extension_handleD [OF assms(1,2)]
  define w where "w = snd (window_remove req_id (eh_dispatches h))"
  define st1 where "st1 = with_handle x g (\<lambda>h. h\<lparr>eh_dispatches := w, eh_consecutive_timeouts := 0\<rparr>) st"
  define f where "f = (\<lambda>g :: ext_handle. g\<lparr>eh_namespace_violations := eh_namespace_violations g +
      (length es - length (owned_events h es))\<rparr>)"
  have rem: "window_remove req_id (eh_dispatches h) = (Some tx, w)"
    using Some by (simp add: w_def window_remove_def)
  have out: "answer = Some (tx, \<lparr>xr_http = http, xr_events = owned_events h es\<rparr>)" "st' = with_handle x g f st1"
    using assms(3) hx by (simp_all add: reader_result_def rem filter_events_eq Let_def st1_def f_def)
  have inv: "daemon_inv st1"
    unfolding st1_def by (simp add: with_handle_inv assms(2) same_claims_shared)
  have "handles_from (in_extensions st1) (in_extensions st)"
    unfolding st1_def
    by (rule with_handle_from) (use assms(1) in \<open>auto simp: w_def window_remove_pending same_process_def\<close>)
  moreover have "handles_from (in_extensions st') (in_extensions st1)"
    unfolding out by (rule with_handle_from) (simp add: f_def same_process_def)
  moreover have "hget (dw_pending (eh_dispatches h')) req_id = None" if "extension_handle x g st' = Some h'" for h'
    using that assms(1)
    by (auto simp: out st1_def f_def w_def window_remove_pending split: option.splits if_splits)
  ultimately show ?thesis
    using Some inv handles_from_trans by (auto simp: out f_def intro: with_handle_inv same_claims_shared)
qed

lemma reader_event_facts:
  assumes "extension_handle x g st = Some h" and "daemon_inv st" and "reader_event fe h ev st = (kept, st')"
  shows "daemon_inv st' \<and> handles_from (in_extensions st') (in_extensions st) \<and> kept = owned_events h [ev]"
proof -
  define f where "f = (\<lambda>g :: ext_handle. g\<lparr>eh_namespace_violations := eh_namespace_violations g +
      (length [ev] - length (owned_events h [ev]))\<rparr>)"
  define st1 where "st1 = with_handle (eh_id h) (eh_generation h) f st"
  define st2 where "st2 = with_handle (eh_id h) (eh_generation h)
    (EventStats_record (fe_now_ms fe) (length (owned_events h [ev]))) st1"
  have out: "kept = owned_events h [ev]" "st' = app_fanout fe kept st2"
    using assms(3) by (auto simp: reader_event_def filter_events_eq st2_def st1_def f_def)
  have "handles_from (in_extensions st1) (in_extensions st)"
    unfolding st1_def by (rule with_handle_from) (simp add: f_def same_process_def)
  moreover have "handles_from (in_extensions st2) (in_extensions st1)"
    unfolding st2_def by (rule with_handle_from) simp
  moreover have "daemon_inv st2"
    unfolding st2_def st1_def by (simp add: with_handle_inv assms(2) same_claims_shared f_def)
  ultimately show ?thesis using handles_from_trans by (simp add: out)
qed

lemma protocol_error_facts:
  assumes "handle_protocol_error x g st = (nxt, st')" and "daemon_inv st"
  shows "daemon_inv st' \<and> handles_from (in_extensions st') (in_extensions st)"
proof (cases "extension_handle x g st")
  case None
  with assms show ?thesis by (simp add: handle_protocol_error_def)
next
  case (Some h)
  define f where "f = (\<lambda>h' :: ext_handle. let h' = h'\<lparr>eh_protocol_errors := eh_protocol_errors h + 1\<rparr>
      in if eh_protocol_errors h + 1 \<ge> max (max_protocol_errors (cfg_limits (in_config st))) 1
         then h'\<lparr>eh_commands := eh_commands h' @
                [KillAndRespawn (nat_to_string (eh_protocol_errors h + 1) @ '' protocol errors'')]\<rparr>
         else h')"
  have st': "st' = with_handle x g f st"
    using assms(1) Some by (simp add: handle_protocol_error_def Let_def f_def split: if_splits)
  have "same_claims f" by (simp add: same_claims_def f_def Let_def)
  moreover have "handles_from (in_extensions st') (in_extensions st)"
    unfolding st' by (rule with_handle_from) (simp add: f_def same_process_def Let_def)
  ultimately show ?thesis by (simp add: st' with_handle_inv assms(2))
qed

text \<open>What one turn of the reader leaves, with \<open>new\<close> the message it read.\<close>

lemma reader_line_facts:
  assumes "extension_handle x g st = Some h" and "daemon_inv st"
    and "reader_line fe from_str x g line st = (nxt, answer, kept, st')"
    and new: "new = (case decode_line from_str line of Inr (Some msg) \<Rightarrow> [(x, g, msg)] | _ \<Rightarrow> [])"
  shows "daemon_inv st' \<and> handles_from (in_extensions st') (in_extensions st) \<and> emission_ok new h kept"
    and "answer = Some (tx, res) \<Longrightarrow> \<exists>r http es. new = [(x, g, ExtResult r http es)] \<and>
      hget (dw_pending (eh_dispatches h)) r = Some tx \<and>
      res = \<lparr>xr_http = http, xr_events = owned_events h es\<rparr> \<and>
      (\<forall>h'. extension_handle x g st' = Some h' \<longrightarrow> hget (dw_pending (eh_dispatches h')) r = None)"
proof -
  note hx = extension_handleD [OF assms(1,2)]
  have "(daemon_inv st' \<and> handles_from (in_extensions st') (in_extensions st) \<and> emission_ok new h kept) \<and>
    (\<forall>tx res. answer = Some (tx, res) \<longrightarrow> (\<exists>r http es. new = [(x, g, ExtResult r http es)] \<and>
      hget (dw_pending (eh_dispatches h)) r = Some tx \<and>
      res = \<lparr>xr_http = http, xr_events = owned_events h es\<rparr> \<and>
      (\<forall>h'. extension_handle x g st' = Some h' \<longrightarrow> hget (dw_pending (eh_dispatches h')) r = None)))"
  proof (cases "decode_line from_str line")
    case (Inl e)
    then show ?thesis
      using assms(1,3) protocol_error_facts [OF _ assms(2), of x g]
      by (auto simp: reader_line_def emission_ok_def split: prod.splits)
  next
    case (Inr m)
    show ?thesis
    proof (cases "\<exists>r http es. m = Some (ExtResult r http es)")
      case True
      then obtain r http es where m: "m = Some (ExtResult r http es)" by blast
      obtain a s1 where rr: "reader_result h r http es st = (a, s1)" by fastforce
      then have "nxt = ReadOn" "answer = a" "kept = []" "st' = s1"
        using assms(1,3) by (simp_all add: reader_line_def Inr m)
      with reader_result_facts [OF assms(1,2) rr] show ?thesis
        by (auto simp: new Inr m emission_ok_def split: option.splits)
    next
      case False
      show ?thesis
      proof (cases "\<exists>ev. m = Some (ExtEvent ev)")
        case True
        then obtain ev where m: "m = Some (ExtEvent ev)" by blast
        obtain k s1 where re: "reader_event fe h ev st = (k, s1)" by fastforce
        then have "answer = None" "kept = k" "st' = s1"
          using assms(1,3) by (simp_all add: reader_line_def Inr m)
        with reader_event_facts [OF assms(1,2) re] show ?thesis
          using hx by (auto simp: new Inr m emission_ok_def)
      next
        case other: False
        have "answer = None \<and> kept = [] \<and> st' = st"
          using assms(1,3) False other by (auto simp: reader_line_def Inr split: option.splits ext_msg.splits)
        then show ?thesis using assms(2) by (simp add: emission_ok_def)
      qed
    qed
  qed
  then show "daemon_inv st' \<and> handles_from (in_extensions st') (in_extensions st) \<and> emission_ok new h kept"
    and "answer = Some (tx, res) \<Longrightarrow> \<exists>r http es. new = [(x, g, ExtResult r http es)] \<and>
      hget (dw_pending (eh_dispatches h)) r = Some tx \<and>
      res = \<lparr>xr_http = http, xr_events = owned_events h es\<rparr> \<and>
      (\<forall>h'. extension_handle x g st' = Some h' \<longrightarrow> hget (dw_pending (eh_dispatches h')) r = None)"
    by blast+
qed

lemma sys_invI:
  assumes "daemon_inv (ds_inner s)"
    and "pending_ok (ds_flights s) (ds_answers s) (in_extensions (ds_inner s))"
    and "\<And>tx fl. hget (ds_flights s) tx = Some fl \<Longrightarrow> tx < ds_next s \<and> rv_armed (fl_reservation fl)"
    and "\<And>tx res. hget (ds_answers s) tx = Some res \<Longrightarrow>
        \<exists>fl. hget (ds_flights s) tx = Some fl \<and> answer_ok (ds_lines s) fl res"
    and "\<And>fl res. (fl, res) \<in> set (ds_replies s) \<Longrightarrow> answer_ok (ds_lines s) fl res"
    and "\<And>h es. (h, es) \<in> set (ds_emitted s) \<Longrightarrow> emission_ok (ds_lines s) h es"
  shows "sys_inv s"
  unfolding sys_inv_def using assms by blast

lemma sys_invD:
  assumes "sys_inv s"
  shows "daemon_inv (ds_inner s)"
    and "pending_ok (ds_flights s) (ds_answers s) (in_extensions (ds_inner s))"
    and "hget (ds_flights s) tx = Some fl \<Longrightarrow> tx < ds_next s \<and> rv_armed (fl_reservation fl)"
    and "hget (ds_answers s) tx = Some res \<Longrightarrow>
        \<exists>fl. hget (ds_flights s) tx = Some fl \<and> answer_ok (ds_lines s) fl res"
    and "(fl, res) \<in> set (ds_replies s) \<Longrightarrow> answer_ok (ds_lines s) fl res"
    and "(h, es) \<in> set (ds_emitted s) \<Longrightarrow> emission_ok (ds_lines s) h es"
  using assms unfolding sys_inv_def by blast+

lemma sys_inv_inner:
  assumes "sys_inv s" and "daemon_inv st" and "handles_from (in_extensions st) (in_extensions (ds_inner s))"
    and "ds_next s \<le> n"
  shows "sys_inv (s\<lparr>ds_inner := st, ds_next := n\<rparr>)"
  using assms(2,4) sys_invD [OF assms(1)] pending_ok_from [OF sys_invD(2) [OF assms(1)] assms(3)]
  by (intro sys_invI) (auto intro: less_le_trans)

lemma end_flight_inv:
  assumes "sys_inv s" and "daemon_inv st" and "handles_from (in_extensions st) (in_extensions (ds_inner s))"
    and "hget (ds_flights s) tx = Some fl" and "\<not> still_pending fl tx st"
  shows "sys_inv (end_flight tx st s)"
  unfolding end_flight_def
  using assms(2) sys_invD [OF assms(1)]
    pending_ok_drop(1) [OF pending_ok_from [OF sys_invD(2) [OF assms(1)] assms(3)] assms(2,4,5)]
  by (intro sys_invI) (auto simp: hm_simps split: if_splits)

lemma begun_inv:
  assumes "sys_inv s" and "dispatch_start base64 req_id (ds_next s) tx_open key rq (ds_inner s) = (Inr fl, st)"
  shows "sys_inv (s\<lparr>ds_inner := st, ds_next := ds_next s + 1, ds_flights := hinsert (ds_next s) fl (ds_flights s)\<rparr>)"
proof -
  let ?n = "ds_next s" and ?s = "s\<lparr>ds_inner := st, ds_next := ds_next s + 1, ds_flights := hinsert (ds_next s) fl (ds_flights s)\<rparr>"
  note inv = sys_invD [OF assms(1)]
  obtain h w msg where h: "extension_handle (eh_id h) (eh_generation h) (ds_inner s) = Some h" "fl_handle fl = h"
    and rv: "fl_reservation fl = \<lparr>rv_req_id = req_id, rv_armed = True\<rparr>"
    and w: "dw_pending w = hinsert req_id ?n (dw_pending (eh_dispatches h))"
    and st: "st = with_handle (eh_id h) (eh_generation h)
      (\<lambda>h. h\<lparr>eh_dispatches := w, eh_sent := eh_sent h @ [msg]\<rparr>) (ds_inner s)"
    by (rule dispatch_started [OF assms(2) inv(1)])
  have fresh: "hget (ds_answers s) ?n = None"
    using inv(3,4) by (metis less_irrefl option.exhaust)
  have "pending_ok (hinsert ?n fl (ds_flights s)) (ds_answers s) (in_extensions st)"
  proof (rule pending_okI)
    fix x h' r tx
    assume h': "hget (in_extensions st) x = Some h'" and p: "hget (dw_pending (eh_dispatches h')) r = Some tx"
    note hx = extension_handleD [OF h(1) inv(1)]
    obtain h0 where h0: "hget (in_extensions (ds_inner s)) x = Some h0"
      "h' = (if x = eh_id h then h\<lparr>eh_dispatches := w, eh_sent := eh_sent h @ [msg]\<rparr> else h0)"
      "x = eh_id h \<Longrightarrow> h0 = h"
      using h' hx by (auto simp: st with_handle_def hm_simps split: if_splits)
    show "\<exists>f. hget (hinsert ?n fl (ds_flights s)) tx = Some f \<and> hget (ds_answers s) tx = None \<and>
        flight_req_id f = r \<and> same_process (fl_handle f) h'"
    proof (cases "x = eh_id h \<and> r = req_id")
      case True
      then have "tx = ?n" using p by (simp add: h0(2) w hm_simps)
      with True h0(2) show ?thesis using h(2) rv fresh by (auto simp: hm_simps same_process_def)
    next
      case False
      then have "hget (dw_pending (eh_dispatches h0)) r = Some tx"
        using p h0(3) by (auto simp: h0(2) w hm_simps split: if_splits)
      then obtain f where f: "hget (ds_flights s) tx = Some f" "hget (ds_answers s) tx = None"
        "flight_req_id f = r" "same_process (fl_handle f) h0"
        using pending_okD [OF inv(2) h0(1)] by blast
      moreover have "tx \<noteq> ?n" using inv(3) [OF f(1)] by simp
      moreover have "same_process h0 h'" using h0(2,3) by (simp add: same_process_def)
      ultimately show ?thesis using same_process_trans by (auto simp: hm_simps)
    qed
  qed
  moreover have "daemon_inv st"
    unfolding st by (rule with_handle_inv [OF inv(1)]) (simp add: same_claims_shared)
  ultimately show ?thesis
    using inv(3-6) rv fresh by (intro sys_invI) (auto simp: hm_simps less_SucI split: if_splits)
qed

lemma read_line_inv:
  assumes "sys_inv s" and h: "extension_handle x g (ds_inner s) = Some h"
    and rl: "reader_line fe from_str x g line (ds_inner s) = (nxt, answer, kept, st)"
    and new: "new = (case decode_line from_str line of Inr (Some msg) \<Rightarrow> [(x, g, msg)] | _ \<Rightarrow> [])"
  shows "sys_inv (s\<lparr>ds_inner := st, ds_lines := ds_lines s @ new,
    ds_answers := (case answer of None \<Rightarrow> ds_answers s | Some (tx, r) \<Rightarrow> hinsert tx r (ds_answers s)),
    ds_emitted := ds_emitted s @ [(h, kept)]\<rparr>)"
proof -
  note inv = sys_invD [OF assms(1)]
  note facts = reader_line_facts [OF h inv(1) rl new]
  note hx = extension_handleD [OF h inv(1)]
  let ?A = "case answer of None \<Rightarrow> ds_answers s | Some (tx, r) \<Rightarrow> hinsert tx r (ds_answers s)"
  have old: "pending_ok (ds_flights s) (ds_answers s) (in_extensions st)"
    using pending_ok_from [OF inv(2)] facts(1) by blast
  have lines: "set (ds_lines s) \<subseteq> set (ds_lines s @ new)" "set new \<subseteq> set (ds_lines s @ new)" by auto
  have "pending_ok (ds_flights s) ?A (in_extensions st) \<and>
    (\<forall>tx res. hget ?A tx = Some res \<longrightarrow>
      (\<exists>fl. hget (ds_flights s) tx = Some fl \<and> answer_ok (ds_lines s @ new) fl res))"
  proof (cases answer)
    case None
    then show ?thesis using old inv(4) answer_ok_mono [OF _ lines(1)] by fastforce
  next
    case (Some a)
    obtain tx res where a: "answer = Some (tx, res)" using Some by (cases a) simp
    obtain r http es where r: "new = [(x, g, ExtResult r http es)]"
      "hget (dw_pending (eh_dispatches h)) r = Some tx" "res = \<lparr>xr_http = http, xr_events = owned_events h es\<rparr>"
      "\<And>h'. extension_handle x g st = Some h' \<Longrightarrow> hget (dw_pending (eh_dispatches h')) r = None"
      using facts(2) [OF a] by blast
    obtain fl where fl: "hget (ds_flights s) tx = Some fl" "flight_req_id fl = r" "same_process (fl_handle fl) h"
      using pending_okD [OF inv(2) conjunct1 [OF hx] r(2)] by blast
    have "\<not> still_pending fl tx st"
      using r(4) fl hx by (auto simp: still_pending_def same_process_def split: option.splits)
    then have "pending_ok (ds_flights s) ?A (in_extensions st)"
      using pending_ok_drop(2) [OF old _ fl(1)] facts(1) by (simp add: a)
    moreover have "answer_ok (ds_lines s @ new) fl res"
      using fl hx by (auto simp: answer_ok_def r same_process_def owned_events_def)
    moreover have "\<exists>fl'. hget (ds_flights s) t = Some fl' \<and> answer_ok (ds_lines s @ new) fl' res'"
      if "hget (ds_answers s) t = Some res'" for t res'
      using inv(4) [OF that] answer_ok_mono [OF _ lines(1)] by blast
    ultimately show ?thesis
      using fl(1) by (auto simp: a hm_simps)
  qed
  then show ?thesis
    using facts(1) inv(3,5,6) answer_ok_mono [OF _ lines(1)] emission_ok_mono [OF _ lines(1)]
      emission_ok_mono [OF _ lines(2)]
    by (intro sys_invI) auto
qed

lemma answered_inv:
  assumes "sys_inv s" and fl: "hget (ds_flights s) tx = Some fl" and a: "hget (ds_answers s) tx = Some result"
    and "ext_dispatch_finish fe (Some (Some result)) fl (ds_inner s) = (Inr r, st)"
  shows "sys_inv ((end_flight tx st s)\<lparr>ds_replies := ds_replies s @ [(fl, r)],
      ds_emitted := ds_emitted s @ [(fl_handle fl, xr_events r)]\<rparr>)"
proof -
  note inv = sys_invD [OF assms(1)]
  note fin = finish_result [OF assms(4)]
  have ok: "answer_ok (ds_lines s) fl result" using inv(4) [OF a] fl by auto
  then have r: "r = result" using fin(1) by (auto simp: answer_ok_def)
  have em: "emission_ok (ds_lines s) (fl_handle fl) (xr_events r)"
    using ok unfolding r answer_ok_def emission_ok_def by force
  have "\<not> still_pending fl tx st"
    by (rule answered_not_pending [OF pending_ok_from [OF inv(2) fin(3)] a])
  then have "sys_inv (end_flight tx st s)"
    by (rule end_flight_inv [OF assms(1) fin(2) [OF inv(1)] fin(3) fl])
  from sys_invD [OF this] ok em show ?thesis
    by (intro sys_invI) (auto simp: r end_flight_def)
qed

lemma sys_inv_step: "daemon_step from_str s s' \<Longrightarrow> sys_inv s \<Longrightarrow> sys_inv s'"
proof (induction rule: daemon_step.induct)
  case (Life s st)
  then show ?case
    using sys_inv_inner [OF Life(2) lifecycle_inv [OF Life(1) sys_invD(1) [OF Life(2)]]
        lifecycle_from [OF Life(1)] order_refl] by simp
next
  case (Begun base64 req_id s tx_open route_key rq fl st)
  then show ?case using begun_inv by blast
next
  case (Refused base64 req_id s tx_open route_key rq e st)
  then show ?case
    using dispatch_refused [OF Refused(1) sys_invD(1) [OF Refused(2)]] sys_inv_inner [OF Refused(2)] by simp
next
  case (ReadLine xid generation s h fe line nxt answer kept st)
  then show ?case using read_line_inv [OF _ ReadLine(1,2) refl] by blast
next
  case (Answered s tx fl result fe r st)
  then show ?case using answered_inv by blast
next
  case (TimedOut s tx fl fe e st)
  note inv = sys_invD [OF TimedOut(4)] and fin = finish_timeout [OF TimedOut(3)]
  show ?case
    using end_flight_inv [OF TimedOut(4) fin(1) [OF inv(1)] fin(2) TimedOut(1)] fin(3) inv(3) [OF TimedOut(1)]
    by blast
next
  case (Died s tx fl fe e st)
  then have "st = ds_inner s" by (simp add: ext_dispatch_finish_def Let_def)
  then show ?case using Died end_flight_inv [OF Died(5) sys_invD(1) [OF Died(5)]] by simp
next
  case (Cancelled s tx fl)
  note inv = sys_invD [OF Cancelled(2)]
  show ?case
    using end_flight_inv [OF Cancelled(2) drop_flight_facts(1) [OF inv(1)] drop_flight_facts(2) Cancelled(1)]
      drop_flight_facts(3) inv(3) [OF Cancelled(1)] by blast
qed

lemma sys_inv_reach:
  assumes "daemon_reach from_str st0 s" and "AppState_new load_tokens open_log config = Inr st0"
  shows "sys_inv s"
  using assms(1)
proof induction
  case Init
  have "in_extensions st0 = []" "in_routes st0 = []" "in_prefixes st0 = []"
    using assms(2) by (auto simp: AppState_new_def split: sum.splits if_splits)
  then have "daemon_inv st0"
    by (simp add: daemon_inv_def ext_table_ok_def owners_ok_def hm_simps tables_inv.simps)
  then show ?case
    using \<open>in_extensions st0 = []\<close> by (intro sys_invI pending_okI) (auto simp: daemon_sys_new_def hm_simps)
qed (rule sys_inv_step)

section \<open>Properties\<close>

text \<open>
  C28: whatever the interleaving of dispatches, reader lines, timeouts, disconnects, restarts, reloads
  and shutdown, a dispatch that returns a result returns the reply its own extension process wrote
  for its own request id, with exactly those of the events written there that the extension owns;
  and whatever is fanned out was written by the extension it is credited to, on channels it owns.
\<close>

theorem dispatch_replies_correlated:
  assumes "AppState_new load_tokens open_log config = Inr st0" and "daemon_reach from_str st0 s"
  shows "(\<forall>(fl, res) \<in> set (ds_replies s). \<exists>es.
      (eh_id (fl_handle fl), eh_generation (fl_handle fl),
       ExtResult (rv_req_id (fl_reservation fl)) (xr_http res) es) \<in> set (ds_lines s) \<and>
      xr_events res = filter (\<lambda>e. owns_channel (eh_paths (fl_handle fl)) (eh_channels (fl_handle fl))
        (ev_channel e)) es) \<and>
    (\<forall>(h, es) \<in> set (ds_emitted s). \<forall>e \<in> set es.
      owns_channel (eh_paths h) (eh_channels h) (ev_channel e) \<and>
      (\<exists>msg. (eh_id h, eh_generation h, msg) \<in> set (ds_lines s) \<and>
        (msg = ExtEvent e \<or> (\<exists>r http sent. msg = ExtResult r http sent \<and> e \<in> set sent))))"
proof -
  note inv = sys_invD [OF sys_inv_reach [OF assms(2,1)]]
  have "\<exists>es. (flight_id fl, flight_generation fl, ExtResult (flight_req_id fl) (xr_http res) es) \<in> set (ds_lines s) \<and>
      xr_events res = filter (\<lambda>e. owns_channel (eh_paths (fl_handle fl)) (eh_channels (fl_handle fl))
        (ev_channel e)) es" if "(fl, res) \<in> set (ds_replies s)" for fl res
    using inv(5) [OF that] by (force simp: answer_ok_def owned_events_def)
  moreover have "owns_channel (eh_paths h) (eh_channels h) (ev_channel e) \<and>
      (\<exists>msg. (eh_id h, eh_generation h, msg) \<in> set (ds_lines s) \<and>
        (msg = ExtEvent e \<or> (\<exists>r http sent. msg = ExtResult r http sent \<and> e \<in> set sent)))"
    if "(h, es) \<in> set (ds_emitted s)" "e \<in> set es" for h es e
    using inv(6) [OF that(1)] that(2) by (auto simp: emission_ok_def owned_events_def split: if_splits)
  ultimately show ?thesis by blast
qed

text \<open>A run of one extension that answers one request, publishing one event of its own.\<close>

definition sample_decode :: "string \<Rightarrow> unit ext_msg option" where
  "sample_decode s =
     (if s = ''R'' then Some (ExtRegister \<lparr>reg_protocol = 1, reg_id = None, reg_paths = [], reg_channels = [],
                                          reg_meta = ()\<rparr>)
      else if s = ''A'' then Some (ExtResult 7 \<lparr>reply_status = 200, reply_headers = [], reply_body = ''ok''\<rparr>
        [\<lparr>ev_channel = ''e.x'', ev_payload_b64 = []\<rparr>, \<lparr>ev_channel = ''f.x'', ev_payload_b64 = []\<rparr>])
      else None)"

definition sample_env :: "unit start_env" where
  "sample_env = \<lparr>se_from_str = sample_decode, se_spawn = \<lambda>_. Some (Some 1), se_first = \<lambda>_. Line ''R'',
     se_generation = \<lambda>_. 5, se_show_error = \<lambda>_. []\<rparr>"

definition sample_fan :: fan_env where
  "sample_fan = \<lparr>fe_enc = \<lambda>_. None, fe_to_string = \<lambda>_. None, fe_mint = \<lambda>_. 0, fe_db_ok = True,
     fe_now_ms = 1, fe_now_ms2 = 1\<rparr>"

definition sample_request :: request where
  "sample_request = \<lparr>rq_method = ''POST'', rq_path = ''/e'', rq_query = None, rq_headers = [], rq_body = []\<rparr>"

definition sample_running :: inner where
  "sample_running = start_extensions sample_env [(''e'', ''/bin/e'')] sample_start"

definition sample_dispatch :: "(dispatch_error + flight) \<times> inner" where
  "sample_dispatch = dispatch_start (\<lambda>b. b) 7 0 True ''e'' sample_request sample_running"

definition sample_read :: "reader_step \<times> (nat \<times> ext_result) option \<times> event list \<times> inner" where
  "sample_read = reader_line sample_fan sample_decode ''e'' 5 ''A'' (snd sample_dispatch)"

lemma sample_AppState: "AppState_new (\<lambda>_. Inr \<lparr>ts_path = [], ts_tokens = []\<rparr>) (\<lambda>_. Inl undefined) sample_config = Inr sample_start"
  by (simp add: AppState_new_def sample_config_def sample_start_def Config_validate_def
      ServerConfig_default_def SubscribersConfig_default_def DeliveryConfig_default_def LOCALHOST_def)

lemma sample_dispatch_ok: "\<not> isl (fst sample_dispatch)"
  by code_simp

lemma sample_read_ok:
  "map_option fst (fst (snd sample_read)) = Some 0 \<and>
   map_option (\<lambda>(_, r). map ev_channel (xr_events r)) (fst (snd sample_read)) = Some [''e.x'']"
  by code_simp

text \<open>The run reaches a state in which the request has been answered.\<close>

lemma sample_run:
  "\<exists>s fl. daemon_reach sample_decode sample_start s \<and> map fst (ds_replies s) = [fl] \<and>
     map (map ev_channel \<circ> xr_events \<circ> snd) (ds_replies s) = [[''e.x'']]"
proof -
  let ?s0 = "daemon_sys_new sample_start :: unit daemon_sys"
  define s1 where "s1 = ?s0\<lparr>ds_inner := sample_running\<rparr>"
  have "lifecycle_step sample_decode (ds_inner ?s0) sample_running"
    unfolding sample_running_def
    by (simp add: daemon_sys_new_def) (rule StartAll, simp add: sample_env_def)
  then have r1: "daemon_reach sample_decode sample_start s1"
    unfolding s1_def by (rule daemon_reach.Step [OF daemon_reach.Init daemon_step.Life])
  obtain fl where fl: "fst sample_dispatch = Inr fl" using sample_dispatch_ok by (cases "fst sample_dispatch") auto
  define s2 where "s2 = s1\<lparr>ds_inner := snd sample_dispatch, ds_next := ds_next s1 + 1,
    ds_flights := hinsert (ds_next s1) fl (ds_flights s1)\<rparr>"
  have "dispatch_start (\<lambda>b. b) 7 (ds_next s1) True ''e'' sample_request (ds_inner s1) = (Inr fl, snd sample_dispatch)"
    using fl by (simp add: s1_def daemon_sys_new_def flip: sample_dispatch_def)
      (metis prod.collapse)
  then have r2: "daemon_reach sample_decode sample_start s2"
    unfolding s2_def by (rule daemon_reach.Step [OF r1 daemon_step.Begun])
  obtain nxt a kept st where read': "sample_read = (nxt, a, kept, st)" by (cases sample_read)
  then obtain res where read: "sample_read = (nxt, Some (0, res), kept, st)"
    and res: "map ev_channel (xr_events res) = [''e.x'']"
    using sample_read_ok unfolding read' by auto
  have rl: "reader_line sample_fan sample_decode ''e'' 5 ''A'' (ds_inner s2) = (nxt, Some (0, res), kept, st)"
    using read by (simp add: s2_def sample_read_def)
  then obtain h where h: "extension_handle ''e'' 5 (ds_inner s2) = Some h"
    by (cases "extension_handle ''e'' 5 (ds_inner s2)") (auto simp: reader_line_def)
  define s3 where "s3 = s2\<lparr>ds_inner := st,
     ds_lines := ds_lines s2 @ (case decode_line sample_decode ''A'' of
       Inr (Some msg) \<Rightarrow> [(''e'', 5, msg)] | _ \<Rightarrow> []),
     ds_answers := (case Some (0, res) of None \<Rightarrow> ds_answers s2 | Some (tx, r) \<Rightarrow> hinsert tx r (ds_answers s2)),
     ds_emitted := ds_emitted s2 @ [(h, kept)]\<rparr>"
  have r3: "daemon_reach sample_decode sample_start s3"
    unfolding s3_def by (rule daemon_reach.Step [OF r2 daemon_step.ReadLine [OF h rl]])
  have f3: "hget (ds_flights s3) 0 = Some fl" and a3: "hget (ds_answers s3) 0 = Some res"
    by (simp_all add: s3_def s2_def s1_def daemon_sys_new_def hm_simps)
  obtain r st' where fin: "ext_dispatch_finish sample_fan (Some (Some res)) fl (ds_inner s3) = (Inr r, st')"
    using finish_result(1) by (metis surj_pair)
  have "answer_ok (ds_lines s3) fl res"
    using sys_invD(4) [OF sys_inv_reach [OF r3 sample_AppState] a3] f3 by simp
  then have "r = res" using finish_result(1) [OF fin] by (auto simp: answer_ok_def)
  moreover have "daemon_reach sample_decode sample_start ((end_flight 0 st' s3)\<lparr>ds_replies := ds_replies s3 @ [(fl, r)],
       ds_emitted := ds_emitted s3 @ [(fl_handle fl, xr_events r)]\<rparr>)"
    by (rule daemon_reach.Step [OF r3 daemon_step.Answered [OF f3 a3 fin]])
  moreover have "ds_replies s3 = []" by (simp add: s3_def s2_def s1_def daemon_sys_new_def)
  ultimately show ?thesis using res by (intro exI conjI) (assumption, auto)
qed

theorem dispatch_replies_correlated_witness:
  "\<exists>s fl res es. daemon_reach sample_decode sample_start s \<and> (fl, res) \<in> set (ds_replies s) \<and>
     (eh_id (fl_handle fl), eh_generation (fl_handle fl),
       ExtResult (rv_req_id (fl_reservation fl)) (xr_http res) es) \<in> set (ds_lines s) \<and>
     map ev_channel (xr_events res) = [''e.x'']"
proof -
  obtain s fl where r: "daemon_reach sample_decode sample_start s" "map fst (ds_replies s) = [fl]"
    "map (map ev_channel \<circ> xr_events \<circ> snd) (ds_replies s) = [[''e.x'']]"
    using sample_run by (elim exE conjE) (rule that)
  then obtain res where res: "ds_replies s = [(fl, res)]" "map ev_channel (xr_events res) = [''e.x'']" by auto
  then have "(fl, res) \<in> set (ds_replies s)" by simp
  moreover obtain es where "(eh_id (fl_handle fl), eh_generation (fl_handle fl),
      ExtResult (rv_req_id (fl_reservation fl)) (xr_http res) es) \<in> set (ds_lines s)"
    using dispatch_replies_correlated [OF sample_AppState r(1)] calculation by fast
  ultimately show ?thesis
    by (intro exI [of _ s] exI [of _ fl] exI [of _ res] exI [of _ es] conjI r(1) res(2))
qed



text \<open>
  A hung extension is killed once.  After \<open>n\<close> timeouts in a row with no result in between the
  kill command has been sent exactly if the threshold of the configuration (at least one) was
  reached, and only then.
\<close>

theorem timeouts_kill_once:
  assumes "eh_consecutive_timeouts h = 0" and "eh_commands h = []"
  shows "let h' = (count_timeout cfg ^^ n) h; threshold = max (hang_kill_threshold (cfg_limits cfg)) 1
    in eh_consecutive_timeouts h' = n \<and>
       eh_commands h' = (if n \<ge> threshold
         then [KillAndRespawn (nat_to_string threshold @ '' consecutive dispatch timeouts'')] else [])"
proof (induction n)
  case (Suc n)
  then show ?case
    by (auto simp: count_timeout_def [of cfg "(count_timeout cfg ^^ n) h"] try_send_command_def
        SUPERVISOR_CHANNEL_def Let_def le_Suc_eq simp del: nat_to_string.simps)
qed (use assms in \<open>simp add: Let_def\<close>)

theorem timeouts_kill_once_witness:
  "\<exists>h h'. h' = (count_timeout sample_config ^^ 4) h \<and> eh_consecutive_timeouts h = 0 \<and>
     eh_consecutive_timeouts h' = 4 \<and> length (eh_commands h') = 1"
proof -
  define h where "h = new_handle ''e'' [] \<lparr>rm_id = ''e'', rm_paths = [], rm_channels = []\<rparr> 5 None sample_start"
  have "eh_consecutive_timeouts h = 0" "eh_commands h = []" by (simp_all add: h_def new_handle_def)
  with timeouts_kill_once [OF this, where cfg = sample_config and n = 4] show ?thesis
    by (intro exI [of _ h] exI [of _ "(count_timeout sample_config ^^ 4) h"])
      (simp add: sample_config_def Let_def del: nat_to_string.simps funpow.simps)
qed

end
