(* ===== verification/Ingest.thy ===== *)
theory Ingest
  imports Dispatch
begin

text \<open>
  \<^verbatim>\<open>crates/whdr-server/src/ingest.rs\<close>: the HTTP plane.  A request is handled in two steps around the
  wait of its dispatch.  What the \<^verbatim>\<open>http\<close> crate decides comes as arguments: whether a header value is
  text (\<open>to_str\<close>), whether a name or value the extension gave is a valid header (\<open>header_name\<close>,
  \<open>header_value\<close>), and the headers a text body brings along (\<open>text_headers\<close>).
\<close>

section \<open>The code\<close>

definition route_key_from_path :: "string \<Rightarrow> string option" where
  "route_key_from_path path =
     find (\<lambda>segment. segment \<noteq> []) (split_on (CHR ''/'') (dropWhile (\<lambda>c. c = CHR ''/'') path))"

record response =
  rs_status :: u16
  rs_headers :: "(string, string) hashmap"
  rs_body :: string

definition status_response :: "u16 \<Rightarrow> response" where
  "status_response code = \<lparr>rs_status = code, rs_headers = [], rs_body = []\<rparr>"

text \<open>The \<^verbatim>\<open>BTreeMap\<close> collects in order, so a later value of a repeated name replaces an earlier one.\<close>

definition header_map_to_btree ::
  "(string \<Rightarrow> string option) \<Rightarrow> (string \<times> string) list \<Rightarrow> (string, string) hashmap" where
  "header_map_to_btree to_str headers =
     fold (\<lambda>(name, value) m.
             case to_str value of None \<Rightarrow> m | Some v \<Rightarrow> hinsert (to_ascii_lowercase name) v m)
       headers []"

text \<open>A status code is valid from 100 to 999.\<close>

definition http_reply_to_response ::
  "(string \<Rightarrow> string option) \<Rightarrow> (string \<Rightarrow> string option) \<Rightarrow> (string, string) hashmap \<Rightarrow> http_reply \<Rightarrow> response" where
  "http_reply_to_response header_name header_value text_headers reply =
     \<lparr>rs_status = (if 100 \<le> reply_status reply \<and> reply_status reply \<le> 999 then reply_status reply else 500),
      rs_headers =
        fold (\<lambda>(name, value) m.
                case (header_name name, header_value value) of
                  (Some n, Some v) \<Rightarrow> hinsert n v m
                | _ \<Rightarrow> m)
          (reply_headers reply) text_headers,
      rs_body = reply_body reply\<rparr>"

definition dispatch_error_response :: "dispatch_error \<Rightarrow> response" where
  "dispatch_error_response err =
     (case err of
        Busy \<Rightarrow> status_response 429
      | Starting \<Rightarrow> (status_response 503)\<lparr>rs_headers := [(''retry-after'', ''1'')]\<rparr>
      | Timeout \<Rightarrow> status_response 504
      | Dead \<Rightarrow> status_response 503
      | NotFound \<Rightarrow> status_response 404)"

record http_request =
  hr_method :: string
  hr_path :: string
  hr_query :: "string option"
  hr_headers :: "(string \<times> string) list"
  hr_body :: string

definition ingest_start ::
  "(string \<Rightarrow> string option) \<Rightarrow> (string \<Rightarrow> string) \<Rightarrow> uuid \<Rightarrow> nat \<Rightarrow> bool \<Rightarrow> http_request \<Rightarrow> inner \<Rightarrow>
   (response + flight) \<times> inner" where
  "ingest_start to_str base64 req_id tx tx_open rq st =
     (if length (hr_body rq) > max_body_bytes (cfg_limits (in_config st)) then (Inl (status_response 413), st)
      else (case route_key_from_path (hr_path rq) of
              None \<Rightarrow> (Inl (status_response 404), st)
            | Some route_key \<Rightarrow>
                (case dispatch_start base64 req_id tx tx_open route_key
                        \<lparr>rq_method = hr_method rq, rq_path = hr_path rq, rq_query = hr_query rq,
                         rq_headers = header_map_to_btree to_str (hr_headers rq), rq_body = hr_body rq\<rparr> st of
                   (Inl e, st') \<Rightarrow> (Inl (dispatch_error_response e), st')
                 | (Inr fl, st') \<Rightarrow> (Inr fl, st'))))"

definition ingest_finish ::
  "(http_reply \<Rightarrow> response) \<Rightarrow> fan_env \<Rightarrow> ext_result option option \<Rightarrow> flight \<Rightarrow> inner \<Rightarrow> response \<times> inner" where
  "ingest_finish to_response fe outcome fl st =
     (case ext_dispatch_finish fe outcome fl st of
        (Inr result, st') \<Rightarrow> (to_response (xr_http result), st')
      | (Inl e, st') \<Rightarrow> (dispatch_error_response e, st'))"

section \<open>Routing keys\<close>

lemma find_split_key:
  assumes "path \<noteq> []" and "hd path \<noteq> d"
  shows "find (\<lambda>s. s \<noteq> []) (split_on d path) = Some k \<longleftrightarrow>
    (\<exists>rest. path = k @ rest \<and> k \<noteq> [] \<and> d \<notin> set k \<and> (rest = [] \<or> hd rest = d))"
proof -
  obtain t ts where s: "split_on d path = t # ts" using split_on_not_Nil list.exhaust by metis
  have t: "d \<notin> set t" using split_on_no_sep [of t d path] s by simp
  have path: "path = (if ts = [] then t else t @ d # join_with d ts)"
    using join_split [of d path] s by (cases ts) (simp_all add: join_with_Cons)
  have "t \<noteq> []" using path assms by (auto split: if_splits)
  then have "find (\<lambda>s. s \<noteq> []) (split_on d path) = Some k \<longleftrightarrow> k = t" by (auto simp: s)
  also have "\<dots> \<longleftrightarrow> (\<exists>rest. path = k @ rest \<and> k \<noteq> [] \<and> d \<notin> set k \<and> (rest = [] \<or> hd rest = d))"
  proof
    assume "k = t"
    with path t \<open>t \<noteq> []\<close> show "\<exists>rest. path = k @ rest \<and> k \<noteq> [] \<and> d \<notin> set k \<and> (rest = [] \<or> hd rest = d)"
      by (cases "ts = []") auto
  next
    assume "\<exists>rest. path = k @ rest \<and> k \<noteq> [] \<and> d \<notin> set k \<and> (rest = [] \<or> hd rest = d)"
    then obtain rest where r: "path = k @ rest" "d \<notin> set k" "rest = [] \<or> hd rest = d" by blast
    have "takeWhile (\<lambda>c. c \<noteq> d) k = k" using r(2) by (auto simp: takeWhile_eq_all_conv)
    then have "takeWhile (\<lambda>c. c \<noteq> d) path = k"
      using r by (cases rest) (auto simp: takeWhile_append)
    moreover have "takeWhile (\<lambda>c. c \<noteq> d) path = t"
      using path t by (auto simp: takeWhile_append takeWhile_eq_all_conv split: if_splits)
    ultimately show "k = t" by simp
  qed
  finally show ?thesis .
qed

lemma dropWhile_slashes:
  "k \<noteq> [] \<Longrightarrow> CHR ''/'' \<notin> set k \<Longrightarrow>
   dropWhile (\<lambda>c. c = CHR ''/'') (replicate n (CHR ''/'') @ k @ rest) = k @ rest"
  by (induction n) (auto simp: neq_Nil_conv)

lemma route_key_iff:
  "route_key_from_path path = Some k \<longleftrightarrow>
     (\<exists>n rest. path = replicate n (CHR ''/'') @ k @ rest \<and> k \<noteq> [] \<and> CHR ''/'' \<notin> set k \<and>
        (rest = [] \<or> hd rest = CHR ''/''))"
proof -
  define p where "p = dropWhile (\<lambda>c. c = CHR ''/'') path"
  have path: "path = replicate (length (takeWhile (\<lambda>c. c = CHR ''/'') path)) (CHR ''/'') @ p"
    unfolding p_def by (induction path) auto
  have key: "route_key_from_path path = Some k \<longleftrightarrow>
      (\<exists>rest. p = k @ rest \<and> k \<noteq> [] \<and> CHR ''/'' \<notin> set k \<and> (rest = [] \<or> hd rest = CHR ''/''))"
  proof (cases "p = []")
    case False
    then have "hd p \<noteq> CHR ''/''" using hd_dropWhile [of "\<lambda>c. c = CHR ''/''" path] by (simp add: p_def)
    then show ?thesis using find_split_key [OF False] by (simp add: route_key_from_path_def flip: p_def)
  qed (simp add: route_key_from_path_def flip: p_def)
  have "p = k @ rest" if "path = replicate n (CHR ''/'') @ k @ rest" "k \<noteq> []" "CHR ''/'' \<notin> set k" for n rest
    unfolding p_def that(1) by (rule dropWhile_slashes [OF that(2,3)])
  with path key show ?thesis by blast
qed

section \<open>What a request is answered\<close>

lemma reserve_eq:
  assumes "hget (dw_pending w) req_id = None"
  shows "reserve limit req_id tx w = (if dw_in_flight w < limit
    then Some (w\<lparr>dw_in_flight := dw_in_flight w + 1, dw_pending := hinsert req_id tx (dw_pending w)\<rparr>) else None)"
  using assms by (simp add: reserve_def reserve_round_def pending_insert_def drop_permits_def)

lemma dropped_reservation:
  assumes "hget (dw_pending w) req_id = None"
  shows "snd (snd (remove_pending \<lparr>rv_req_id = req_id, rv_armed = True\<rparr>
      (w\<lparr>dw_in_flight := dw_in_flight w + 1, dw_pending := hinsert req_id tx (dw_pending w)\<rparr>))) =
    w\<lparr>dw_pending := hremove req_id (hinsert req_id tx (dw_pending w))\<rparr>"
  by (simp add: remove_pending_def window_remove_def hm_simps drop_permits_def release_in_flight_def)



text \<open>
  The routing key of a path is its first non-empty segment, whatever slashes come before it, and
  a path of slashes has none.
\<close>

theorem route_key_first_segment:
  "route_key_from_path path = Some k \<longleftrightarrow>
     (\<exists>n rest. path = replicate n (CHR ''/'') @ k @ rest \<and> k \<noteq> [] \<and> CHR ''/'' \<notin> set k \<and>
        (rest = [] \<or> hd rest = CHR ''/''))"
  by (rule route_key_iff)

end
