(* ===== verification/Ext_Kit.thy ===== *)
theory Ext_Kit
  imports Channel_Claims
begin

text \<open>
  \<^verbatim>\<open>crates/whdr-ext-kit/src/lib.rs\<close>: the library extensions are built on, and the contract an extension
  owes the server.  Base64, HMAC and JSON come as arguments.  Standard input is the list of its
  lines and standard output the messages written to it; a handler's error, a line that is no
  message and an answer that cannot be encoded all end the process.
\<close>

section \<open>The code\<close>

datatype kit_error = BadServerLine ndjson_error | EncodeFailed | BodyNotBase64 | BodyNotJson | HandlerPanic

type_synonym dispatch_result = "kit_error + http_reply \<times> event list"

text \<open>The loop of \<^verbatim>\<open>run_extension\<close>: what it writes and how it ends.\<close>

fun extension_loop ::
  "(string \<Rightarrow> srv_msg option) \<Rightarrow> ('j ext_msg \<Rightarrow> string option) \<Rightarrow> (srv_msg \<Rightarrow> dispatch_result) \<Rightarrow> string list \<Rightarrow>
   'j ext_msg list \<times> (kit_error + unit)" where
  "extension_loop from_str to_string handle [] = ([], Inr ())"
| "extension_loop from_str to_string handle (line # rest) =
     (case decode_line from_str line of
        Inl e \<Rightarrow> ([], Inl (BadServerLine e))
      | Inr None \<Rightarrow> extension_loop from_str to_string handle rest
      | Inr (Some SrvShutdown) \<Rightarrow> ([], Inr ())
      | Inr (Some (Dispatch d)) \<Rightarrow>
          (case handle (Dispatch d) of
             Inl e \<Rightarrow> ([], Inl e)
           | Inr (http, events) \<Rightarrow>
               (let response = ExtResult (d_req_id d) http events
                in (case encode_line to_string response of
                      Inl _ \<Rightarrow> ([], Inl EncodeFailed)
                    | Inr _ \<Rightarrow>
                        (case extension_loop from_str to_string handle rest of
                           (out, res) \<Rightarrow> (response # out, res))))))"

definition run_extension ::
  "(string \<Rightarrow> srv_msg option) \<Rightarrow> ('j ext_msg \<Rightarrow> string option) \<Rightarrow> string \<Rightarrow> string list \<Rightarrow> string list \<Rightarrow> 'j \<Rightarrow>
   (srv_msg \<Rightarrow> dispatch_result) \<Rightarrow> string list \<Rightarrow> 'j ext_msg list \<times> (kit_error + unit)" where
  "run_extension from_str to_string xid paths channels meta handle input =
     (let register = ExtRegister \<lparr>reg_protocol = PROTOCOL_VERSION, reg_id = Some xid, reg_paths = paths,
                                  reg_channels = channels, reg_meta = meta\<rparr>
      in (case encode_line to_string register of
            Inl _ \<Rightarrow> ([], Inl EncodeFailed)
          | Inr _ \<Rightarrow>
              (case extension_loop from_str to_string handle input of (out, res) \<Rightarrow> (register # out, res))))"

text \<open>\<open>decode\<close> and \<open>encode\<close> are the standard base64 engine, \<open>mac\<close> is HMAC by digest, key and body.\<close>

record base64 =
  b64_decode :: "string \<Rightarrow> string option"
  b64_encode :: "string \<Rightarrow> string"

definition decode_body_b64 :: "base64 \<Rightarrow> string \<Rightarrow> kit_error + string" where
  "decode_body_b64 b64 body_b64 =
     (case b64_decode b64 body_b64 of None \<Rightarrow> Inl BodyNotBase64 | Some body \<Rightarrow> Inr body)"

definition text_reply :: "u16 \<Rightarrow> string \<Rightarrow> http_reply" where
  "text_reply code body = \<lparr>reply_status = code, reply_headers = [], reply_body = body\<rparr>"

definition header_value :: "(string \<times> string) list \<Rightarrow> string \<Rightarrow> string option" where
  "header_value headers name = map_option snd (find (\<lambda>(key, _). eq_ignore_ascii_case key name) headers)"

section \<open>Tokens of channels\<close>

text \<open>
  The character map both extensions use to make a channel token, on the characters of a string; a
  character of several bytes is none of the ASCII ranges.
\<close>

definition token_char :: "string \<Rightarrow> char" where
  "token_char ch =
     (case ch of
        [c] \<Rightarrow> if plain_byte c then c
               else if is_ascii_uppercase c then char_of (code_of c + 32) else CHR ''-''
      | _ \<Rightarrow> CHR ''-'')"

definition plain_token :: "string \<Rightarrow> string" where
  "plain_token input = trim_matches (CHR ''-'') (map token_char (utf8_chars input))"

lemma plain_byte_token_char: "plain_byte (token_char ch)"
proof -
  have "plain_byte (char_of (code_of c + 32))" if "is_ascii_uppercase c" for c
    using that by (simp add: plain_byte_def is_ascii_uppercase_def is_ascii_lowercase_def code_of_def of_char_of)
  moreover have "plain_byte (CHR ''-'')" by (simp add: plain_byte_def)
  ultimately show ?thesis by (auto simp: token_char_def split: list.splits)
qed

lemma set_trim_matches: "set (trim_matches c s) \<subseteq> set s"
  unfolding trim_matches_def by (auto dest!: set_dropWhileD)

lemma plain_token_valid: "plain_token s \<noteq> [] \<Longrightarrow> valid_plain_token (plain_token s)"
  using set_trim_matches [of "CHR ''-''" "map token_char (utf8_chars s)"] plain_byte_token_char
  by (fastforce simp: valid_plain_token_def plain_token_def list_all_iff)

section \<open>What an extension owes the server\<close>

text \<open>
  An extension that keeps to its namespace: every event it returns is on a channel its claims own.
  The server's filter then drops nothing of what it returns, and counts no violation.
\<close>

locale provider =
  fixes handle :: "srv_msg \<Rightarrow> dispatch_result"
    and claims :: "string list"
    and pres :: "string list"
  assumes owned: "handle msg = Inr (http, events) \<Longrightarrow> e \<in> set events \<Longrightarrow>
    owns_channel claims pres (ev_channel e)"
begin

lemma answers_pass_filter:
  assumes "(ExtResult r http events :: 'j ext_msg) \<in> set (fst (extension_loop from_str to_string handle input))"
  shows "filter_owned_events xid claims pres n events = (events, n)"
  using assms
proof (induction input)
  case (Cons line rest)
  have "filter_owned_events xid claims pres n events = (events, n)"
    if "handle msg = Inr (http, events)" for msg
    using owned [OF that] by (simp add: filter_owned_events_eq filter_id_conv filter_empty_conv)
  with Cons show ?case
    by (auto simp: Let_def split: sum.splits option.splits srv_msg.splits prod.splits)
qed simp

end

section \<open>Serving\<close>

definition answer_of :: "(srv_msg \<Rightarrow> dispatch_result) \<Rightarrow> dispatch_msg \<Rightarrow> 'j ext_msg option" where
  "answer_of handle d =
     (case handle (Dispatch d) of
        Inl _ \<Rightarrow> None | Inr (http, events) \<Rightarrow> Some (ExtResult (d_req_id d) http events))"

lemma extension_loop_serves:
  fixes to_string :: "'j ext_msg \<Rightarrow> string option"
  assumes "map (decode_line from_str) input = map (\<lambda>d. Inr (Some (Dispatch d))) ds"
    and "\<And>m. to_string m \<noteq> None"
  shows "extension_loop from_str to_string handle input =
    (map (\<lambda>d. the (answer_of handle d)) (takeWhile (\<lambda>d. answer_of handle d \<noteq> (None :: 'j ext_msg option)) ds),
     case find (\<lambda>d. answer_of handle d = (None :: 'j ext_msg option)) ds of
       None \<Rightarrow> Inr () | Some d \<Rightarrow> Inl (projl (handle (Dispatch d))))"
  using assms(1)
proof (induction ds arbitrary: input)
  case (Cons d ds)
  then obtain line rest where input: "input = line # rest" "decode_line from_str line = Inr (Some (Dispatch d))"
    "map (decode_line from_str) rest = map (\<lambda>d. Inr (Some (Dispatch d))) ds" by (cases input) auto
  define enc where "enc = (\<lambda>m. the (to_string m))"
  have "to_string m = Some (enc m)" for m using assms(2) [of m] by (simp add: enc_def)
  then show ?case
    using Cons.IH [OF input(3)]
    by (auto simp: input(1,2) answer_of_def encode_line_def Let_def split: sum.splits prod.splits option.splits)
qed simp

text \<open>
  C35: an extension built on the kit registers first and then answers each dispatch once, in order, under
  its request id, up to the first one its handler fails on, which ends the process with that error.
\<close>

theorem extension_answers_in_order:
  fixes to_string :: "'j ext_msg \<Rightarrow> string option"
  assumes "map (decode_line from_str) input = map (\<lambda>d. Inr (Some (Dispatch d))) (ds @ later)"
    and "\<And>m. to_string m \<noteq> None"
    and "\<forall>d \<in> set ds. \<exists>out. handle (Dispatch d) = Inr out"
    and "later = [] \<or> (\<exists>e. handle (Dispatch (hd later)) = Inl e)"
  shows "run_extension from_str to_string xid paths channels meta handle input =
    (ExtRegister \<lparr>reg_protocol = PROTOCOL_VERSION, reg_id = Some xid, reg_paths = paths,
                  reg_channels = channels, reg_meta = meta\<rparr> #
     map (\<lambda>d. case projr (handle (Dispatch d)) of (http, events) \<Rightarrow> ExtResult (d_req_id d) http events) ds,
     if later = [] then Inr () else Inl (projl (handle (Dispatch (hd later)))))"
proof -
  define P where "P = (\<lambda>d. answer_of handle d \<noteq> (None :: 'j ext_msg option))"
  have ds: "P d" "(the (answer_of handle d) :: 'j ext_msg) = (case projr (handle (Dispatch d)) of
      (http, events) \<Rightarrow> ExtResult (d_req_id d) http events)" if "d \<in> set ds" for d
    using assms(3) that by (auto simp: P_def answer_of_def split: prod.splits)
  have stop: "later = [] \<or> \<not> P (hd later)" using assms(4) by (auto simp: P_def answer_of_def)
  have find_append: "find Q (xs @ ys) = (case find Q xs of None \<Rightarrow> find Q ys | Some x \<Rightarrow> Some x)" for Q and xs ys :: "dispatch_msg list"
    by (induction xs) auto
  have all: "find (\<lambda>d. \<not> P d) ds = None" using ds(1) by (auto simp: find_None_iff)
  have find: "find (\<lambda>d. \<not> P d) (ds @ later) = (if later = [] then None else Some (hd later))"
    using ds(1) stop by (cases later) (auto simp: all find_append)
  have take: "takeWhile P (ds @ later) = ds"
    using ds(1) stop by (cases later) (auto simp: takeWhile_append takeWhile_eq_all_conv)
  have neg: "(\<lambda>d. answer_of handle d = (None :: 'j ext_msg option)) = (\<lambda>d. \<not> P d)" by (simp add: P_def)
  define enc where "enc = (\<lambda>m. the (to_string m))"
  have "to_string m = Some (enc m)" for m using assms(2) [of m] by (simp add: enc_def)
  then show ?thesis
    unfolding run_extension_def extension_loop_serves [OF assms(1,2)] neg find P_def [symmetric] take
    using ds(2) by (simp add: encode_line_def Let_def)
qed

definition sample_input :: dispatch_msg where
  "sample_input = \<lparr>d_req_id = 3, d_method = [], d_path = [], d_query = None, d_headers = [], d_body_b64 = [],
     d_secret = None\<rparr>"

theorem extension_answers_in_order_witness:
  "run_extension (\<lambda>_. Some (Dispatch sample_input)) (\<lambda>_. Some []) ''e'' [] [] () (\<lambda>_. Inr (text_reply 200 [], []))
     [''x'', ''y''] =
   (ExtRegister \<lparr>reg_protocol = PROTOCOL_VERSION, reg_id = Some ''e'', reg_paths = [], reg_channels = [], reg_meta = ()\<rparr> #
    [ExtResult 3 (text_reply 200 []) [], ExtResult 3 (text_reply 200 []) []], Inr ())"
proof -
  have "decode_line (\<lambda>_. Some (Dispatch sample_input)) ''x'' = Inr (Some (Dispatch sample_input))"
    "decode_line (\<lambda>_. Some (Dispatch sample_input)) ''y'' = Inr (Some (Dispatch sample_input))" by code_simp+
  then have "map (decode_line (\<lambda>_. Some (Dispatch sample_input))) [''x'', ''y''] =
      map (\<lambda>d. Inr (Some (Dispatch d))) ([sample_input, sample_input] @ [])" by simp
  from extension_answers_in_order [OF this, of "\<lambda>_ :: unit ext_msg. Some []" "\<lambda>_. Inr (text_reply 200 [], [])"]
  show ?thesis by (simp add: sample_input_def)
qed

end
