(* ===== verification/Providers.thy ===== *)
theory Providers
  imports Ext_Kit
begin

text \<open>
  The extensions that ship with the server: \<^verbatim>\<open>crates/whdr-ext-dev\<close>, \<^verbatim>\<open>exts/whdr-ext-hmac\<close>,
  \<^verbatim>\<open>exts/whdr-ext-github\<close> and \<^verbatim>\<open>exts/whdr-ext-teams\<close>.  HMAC, hexadecimal and base64 codecs and the JSON
  library are arguments; a comparison in constant time is equality.
\<close>

section \<open>The development extension\<close>

text \<open>\<open>lossy\<close> is \<^verbatim>\<open>String::from_utf8_lossy\<close>.\<close>

fun handle_dev_dispatch :: "base64 \<Rightarrow> (string \<Rightarrow> string) \<Rightarrow> srv_msg \<Rightarrow> dispatch_result" where
  "handle_dev_dispatch b64 lossy SrvShutdown = Inr (text_reply 200 ''shutdown ignored'', [])"
| "handle_dev_dispatch b64 lossy (Dispatch d) =
     (case decode_body_b64 b64 (d_body_b64 d) of
        Inl e \<Rightarrow> Inl e
      | Inr body \<Rightarrow>
          Inr (text_reply 200 (lossy body),
               [\<lparr>ev_channel = ''dev.echo'', ev_payload_b64 = b64_encode b64 body\<rparr>]))"

section \<open>The HMAC extension\<close>

datatype algorithm = Sha1 | Sha256 | Sha512

datatype encoding = Hex | Base64

datatype hmac_config_error = UnsupportedAlgorithm string | UnsupportedEncoding string

definition Algorithm_parse :: "string \<Rightarrow> hmac_config_error + algorithm" where
  "Algorithm_parse input =
     (let s = to_ascii_lowercase (trim input)
      in if s = ''sha1'' then Inr Sha1 else if s = ''sha256'' then Inr Sha256
         else if s = ''sha512'' then Inr Sha512 else Inl (UnsupportedAlgorithm s))"

definition Encoding_parse :: "string \<Rightarrow> hmac_config_error + encoding" where
  "Encoding_parse input =
     (let s = to_ascii_lowercase (trim input)
      in if s = ''hex'' then Inr Hex else if s = ''base64'' \<or> s = ''b64'' then Inr Base64
         else Inl (UnsupportedEncoding s))"

text \<open>The crates the extension calls.\<close>

record crypto =
  cx_mac :: "algorithm \<Rightarrow> string \<Rightarrow> string \<Rightarrow> string"
  cx_hex_encode :: "string \<Rightarrow> string"
  cx_hex_decode :: "string \<Rightarrow> string option"
  cx_base64 :: base64

fun Encoding_encode :: "crypto \<Rightarrow> encoding \<Rightarrow> string \<Rightarrow> string" where
  "Encoding_encode cx Hex bytes = cx_hex_encode cx bytes"
| "Encoding_encode cx Base64 bytes = b64_encode (cx_base64 cx) bytes"

fun Encoding_decode :: "crypto \<Rightarrow> encoding \<Rightarrow> string \<Rightarrow> string option" where
  "Encoding_decode cx Hex value = cx_hex_decode cx value"
| "Encoding_decode cx Base64 value = b64_decode (cx_base64 cx) value"

record hmac_config =
  hc_header :: string
  hc_algorithm :: algorithm
  hc_encoding :: encoding
  hc_prefix :: "string option"
  hc_channel_prefix :: string

definition HmacConfig_default :: hmac_config where
  "HmacConfig_default =
     \<lparr>hc_header = ''X-Signature'', hc_algorithm = Sha256, hc_encoding = Hex, hc_prefix = None,
      hc_channel_prefix = ''hmac''\<rparr>"

definition non_empty_env :: "(string \<Rightarrow> string option) \<Rightarrow> string \<Rightarrow> string option" where
  "non_empty_env env key =
     (case env key of None \<Rightarrow> None | Some value \<Rightarrow> if trim value \<noteq> [] then Some value else None)"

definition HmacConfig_from_env :: "(string \<Rightarrow> string option) \<Rightarrow> hmac_config_error + hmac_config" where
  "HmacConfig_from_env env =
     (case (case non_empty_env env ''WHDR_HMAC_ALGORITHM'' of
              Some value \<Rightarrow> Algorithm_parse value | None \<Rightarrow> Inr (hc_algorithm HmacConfig_default)) of
        Inl e \<Rightarrow> Inl e
      | Inr algorithm \<Rightarrow>
     (case (case non_empty_env env ''WHDR_HMAC_ENCODING'' of
              Some value \<Rightarrow> Encoding_parse value | None \<Rightarrow> Inr (hc_encoding HmacConfig_default)) of
        Inl e \<Rightarrow> Inl e
      | Inr encoding \<Rightarrow>
          Inr \<lparr>hc_header = (case non_empty_env env ''WHDR_HMAC_HEADER'' of
                              None \<Rightarrow> hc_header HmacConfig_default | Some h \<Rightarrow> h),
               hc_algorithm = algorithm, hc_encoding = encoding,
               hc_prefix = non_empty_env env ''WHDR_HMAC_PREFIX'',
               hc_channel_prefix =
                 (case non_empty_env env ''WHDR_HMAC_CHANNEL_PREFIX'' of
                    None \<Rightarrow> hc_channel_prefix HmacConfig_default | Some raw \<Rightarrow> plain_token raw)\<rparr>))"

definition sign :: "crypto \<Rightarrow> hmac_config \<Rightarrow> string \<Rightarrow> string \<Rightarrow> string" where
  "sign cx config secret body =
     (let encoded = Encoding_encode cx (hc_encoding config) (cx_mac cx (hc_algorithm config) secret body)
      in (case hc_prefix config of Some pre \<Rightarrow> pre @ encoded | None \<Rightarrow> encoded))"

definition derive_channel :: "string \<Rightarrow> string \<Rightarrow> string" where
  "derive_channel channel_prefix path =
     fold (\<lambda>segment channel.
             let token = plain_token segment
             in if token \<noteq> [] then channel @ CHR ''.'' # token else channel)
       (drop 2 (split_on (CHR ''/'') path)) channel_prefix"

fun handle_hmac_dispatch :: "crypto \<Rightarrow> hmac_config \<Rightarrow> srv_msg \<Rightarrow> dispatch_result" where
  "handle_hmac_dispatch cx config SrvShutdown = Inr (text_reply 200 ''shutdown ignored'', [])"
| "handle_hmac_dispatch cx config (Dispatch d) =
     (case decode_body_b64 (cx_base64 cx) (d_body_b64 d) of
        Inl e \<Rightarrow> Inl e
      | Inr body \<Rightarrow>
     (case d_secret d of
        None \<Rightarrow> Inr (text_reply 401 ''missing secret'', [])
      | Some secret \<Rightarrow>
     (case header_value (d_headers d) (hc_header config) of
        None \<Rightarrow> Inr (text_reply 401 ''missing signature header'', [])
      | Some header \<Rightarrow>
     (case (case hc_prefix config of Some pre \<Rightarrow> strip_prefix header pre | None \<Rightarrow> Some header) of
        None \<Rightarrow> Inr (text_reply 401 ''malformed signature'', [])
      | Some signature \<Rightarrow>
     (case Encoding_decode cx (hc_encoding config) (trim signature) of
        None \<Rightarrow> Inr (text_reply 401 ''malformed signature'', [])
      | Some provided \<Rightarrow>
          if provided \<noteq> cx_mac cx (hc_algorithm config) secret body
          then Inr (text_reply 401 ''invalid signature'', [])
          else Inr (text_reply 200 ''ok'',
                    [\<lparr>ev_channel = derive_channel (hc_channel_prefix config) (d_path d),
                      ev_payload_b64 = b64_encode (cx_base64 cx) body\<rparr>]))))))"

section \<open>The GitHub extension\<close>

text \<open>The JSON library: parsing, the field of an object, a string, an array.\<close>

record 'v json_lib =
  js_parse :: "string \<Rightarrow> 'v option"
  js_get :: "'v \<Rightarrow> string \<Rightarrow> 'v option"
  js_str :: "'v \<Rightarrow> string option"
  js_array :: "'v \<Rightarrow> 'v list option"

definition get_str :: "'v json_lib \<Rightarrow> string \<Rightarrow> 'v \<Rightarrow> string option" where
  "get_str js field v = (case js_get js v field of None \<Rightarrow> None | Some x \<Rightarrow> js_str js x)"

definition github_token :: "string \<Rightarrow> string" where
  "github_token input = (let trimmed = plain_token input in if trimmed = [] then ''unknown'' else trimmed)"

definition hmac_sha256_hex :: "crypto \<Rightarrow> string \<Rightarrow> string \<Rightarrow> string" where
  "hmac_sha256_hex cx secret body = cx_hex_encode cx (cx_mac cx Sha256 secret body)"

definition github_signature :: "crypto \<Rightarrow> string \<Rightarrow> string \<Rightarrow> string" where
  "github_signature cx secret body = ''sha256='' @ hmac_sha256_hex cx secret body"

definition github_channel :: "string \<Rightarrow> string option \<Rightarrow> string" where
  "github_channel event action =
     (let channel = ''github.'' @ github_token event
      in (case map_option github_token action of
            None \<Rightarrow> channel
          | Some a \<Rightarrow> if a \<noteq> [] then channel @ CHR ''.'' # a else channel))"

fun handle_github_dispatch :: "crypto \<Rightarrow> 'v json_lib \<Rightarrow> srv_msg \<Rightarrow> dispatch_result" where
  "handle_github_dispatch cx js SrvShutdown = Inr (text_reply 200 ''shutdown ignored'', [])"
| "handle_github_dispatch cx js (Dispatch d) =
     (case decode_body_b64 (cx_base64 cx) (d_body_b64 d) of
        Inl e \<Rightarrow> Inl e
      | Inr body \<Rightarrow>
     (case d_secret d of
        None \<Rightarrow> Inr (text_reply 401 ''missing secret'', [])
      | Some secret \<Rightarrow>
          if (case header_value (d_headers d) ''x-hub-signature-256'' of None \<Rightarrow> [] | Some h \<Rightarrow> h) \<noteq>
             github_signature cx secret body
          then Inr (text_reply 401 ''invalid signature'', [])
          else (case js_parse js body of
                  None \<Rightarrow> Inl BodyNotJson
                | Some parsed \<Rightarrow>
                    Inr (text_reply 200 ''ok'',
                         [\<lparr>ev_channel = github_channel
                             (case header_value (d_headers d) ''x-github-event'' of None \<Rightarrow> ''unknown'' | Some e \<Rightarrow> e)
                             (get_str js ''action'' parsed),
                           ev_payload_b64 = b64_encode (cx_base64 cx) body\<rparr>]))))"

section \<open>The Teams extension\<close>

text \<open>\<^verbatim>\<open>byte as char\<close> pushed to a string: a code point below 256 as UTF-8.\<close>

definition latin1 :: "nat \<Rightarrow> string" where
  "latin1 n = (if n < 128 then [char_of n] else [char_of (192 + n div 64), char_of (128 + n mod 64)])"

definition hex_digit :: "char \<Rightarrow> nat option" where
  "hex_digit c =
     (let n = code_of c
      in if is_ascii_digit c then Some (n - 48)
         else if 97 \<le> n \<and> n \<le> 102 then Some (n - 87)
         else if 65 \<le> n \<and> n \<le> 70 then Some (n - 55) else None)"

text \<open>\<^verbatim>\<open>u8::from_str_radix(_, 16)\<close> on two bytes; a leading plus sign is allowed.\<close>

definition from_str_radix16 :: "char \<Rightarrow> char \<Rightarrow> nat option" where
  "from_str_radix16 a b =
     (if a = CHR ''+'' then hex_digit b
      else (case (hex_digit a, hex_digit b) of (Some x, Some y) \<Rightarrow> Some (16 * x + y) | _ \<Rightarrow> None))"

text \<open>
  \<^verbatim>\<open>percent_decode\<close>; \<open>None\<close> is the panic of slicing the string inside a character, which happens when
  the third byte after a percent sign continues a character.
\<close>

fun percent_decode :: "string \<Rightarrow> string option" where
  "percent_decode [] = Some []"
| "percent_decode (c # cs) =
     (if c = CHR ''+'' then map_option (\<lambda>out. CHR '' '' # out) (percent_decode cs)
      else if c = CHR ''%'' \<and> 2 \<le> length cs
      then (if (case drop 2 cs of [] \<Rightarrow> False | x # _ \<Rightarrow> is_continuation x) then None
            else (case from_str_radix16 (cs ! 0) (cs ! 1) of
                    Some n \<Rightarrow> map_option (\<lambda>out. latin1 n @ out) (percent_decode (drop 2 cs))
                  | None \<Rightarrow> map_option (\<lambda>out. CHR ''%'' # out) (percent_decode cs)))
      else map_option (\<lambda>out. latin1 (code_of c) @ out) (percent_decode cs))"

definition split_once :: "char \<Rightarrow> string \<Rightarrow> string \<times> string" where
  "split_once d s =
     (let key = takeWhile (\<lambda>c. c \<noteq> d) s in (key, drop (length key + 1) s))"

fun validation_pairs :: "string list \<Rightarrow> string option" where
  "validation_pairs [] = None"
| "validation_pairs (pair # pairs) =
     (case split_once (CHR ''='') pair of
        (key, value) \<Rightarrow> if key = ''validationToken'' then Some value else validation_pairs pairs)"

text \<open>The undecoded value of the token, if the query has one.\<close>

definition validation_token :: "string option \<Rightarrow> string option" where
  "validation_token query =
     (case query of None \<Rightarrow> None | Some q \<Rightarrow> validation_pairs (split_on (CHR ''&'') q))"

definition resource_char :: "string \<Rightarrow> char" where
  "resource_char ch =
     (case ch of
        [c] \<Rightarrow> if plain_byte c then c
               else if is_ascii_uppercase c then char_of (code_of c + 32)
               else if c = CHR ''/'' \<or> c = CHR ''.'' \<or> c = CHR '':'' then CHR ''.'' else CHR ''-''
      | _ \<Rightarrow> CHR ''-'')"

text \<open>\<^verbatim>\<open>replace("..", ".")\<close>: one pass from the left over disjoint occurrences.\<close>

fun replace_dots :: "string \<Rightarrow> string" where
  "replace_dots (a # b # cs) =
     (if a = CHR ''.'' \<and> b = CHR ''.'' then CHR ''.'' # replace_dots cs else a # replace_dots (b # cs))"
| "replace_dots s = s"

definition resource_to_channel :: "string \<Rightarrow> string" where
  "resource_to_channel resource =
     replace_dots (trim_matches (CHR ''.'') (map resource_char (utf8_chars resource)))"

fun teams_items :: "base64 \<Rightarrow> 'v json_lib \<Rightarrow> string \<Rightarrow> string \<Rightarrow> 'v list \<Rightarrow> event list option" where
  "teams_items b64 js secret body [] = Some []"
| "teams_items b64 js secret body (item # items) =
     (if (case get_str js ''clientState'' item of None \<Rightarrow> [] | Some s \<Rightarrow> s) \<noteq> secret then None
      else map_option
             (\<lambda>events.
                (case get_str js ''resource'' item of
                   None \<Rightarrow> events
                 | Some resource \<Rightarrow>
                     \<lparr>ev_channel = ''teams.'' @ resource_to_channel resource,
                      ev_payload_b64 = b64_encode b64 body\<rparr> # events))
             (teams_items b64 js secret body items))"

fun handle_teams_dispatch :: "base64 \<Rightarrow> 'v json_lib \<Rightarrow> srv_msg \<Rightarrow> dispatch_result" where
  "handle_teams_dispatch b64 js SrvShutdown = Inr (text_reply 200 ''shutdown ignored'', [])"
| "handle_teams_dispatch b64 js (Dispatch d) =
     (case (if eq_ignore_ascii_case (d_method d) ''GET'' \<or> eq_ignore_ascii_case (d_method d) ''POST''
            then validation_token (d_query d) else None) of
        Some value \<Rightarrow>
          (case percent_decode value of
             None \<Rightarrow> Inl HandlerPanic
           | Some token \<Rightarrow>
               Inr (\<lparr>reply_status = 200, reply_headers = [(''content-type'', ''text/plain'')],
                     reply_body = token\<rparr>, []))
      | None \<Rightarrow>
     (case decode_body_b64 b64 (d_body_b64 d) of
        Inl e \<Rightarrow> Inl e
      | Inr body \<Rightarrow>
     (case js_parse js body of
        None \<Rightarrow> Inl BodyNotJson
      | Some parsed \<Rightarrow>
     (case d_secret d of
        None \<Rightarrow> Inr (text_reply 401 ''missing clientState secret'', [])
      | Some secret \<Rightarrow>
     (case (case js_get js parsed ''value'' of None \<Rightarrow> None | Some v \<Rightarrow> js_array js v) of
        None \<Rightarrow> Inr (text_reply 202 ''accepted'', [])
      | Some items \<Rightarrow>
          (case teams_items b64 js secret body items of
             None \<Rightarrow> Inr (text_reply 401 ''invalid clientState'', [])
           | Some events \<Rightarrow> Inr (text_reply 202 ''accepted'', events)))))))"

section \<open>The programs\<close>

text \<open>Each \<^verbatim>\<open>main\<close> registers its id, aliases and channel prefixes and serves with its handler.\<close>

definition dev_main ::
  "(string \<Rightarrow> srv_msg option) \<Rightarrow> ('j ext_msg \<Rightarrow> string option) \<Rightarrow> 'j \<Rightarrow> base64 \<Rightarrow> (string \<Rightarrow> string) \<Rightarrow> string list \<Rightarrow>
   'j ext_msg list \<times> (kit_error + unit)" where
  "dev_main from_str to_string meta b64 lossy input =
     run_extension from_str to_string ''dev'' [] [] meta (handle_dev_dispatch b64 lossy) input"

definition github_main ::
  "(string \<Rightarrow> srv_msg option) \<Rightarrow> ('j ext_msg \<Rightarrow> string option) \<Rightarrow> 'j \<Rightarrow> crypto \<Rightarrow> 'v json_lib \<Rightarrow> string list \<Rightarrow>
   'j ext_msg list \<times> (kit_error + unit)" where
  "github_main from_str to_string meta cx js input =
     run_extension from_str to_string ''github'' [''gh''] [] meta (handle_github_dispatch cx js) input"

definition teams_main ::
  "(string \<Rightarrow> srv_msg option) \<Rightarrow> ('j ext_msg \<Rightarrow> string option) \<Rightarrow> 'j \<Rightarrow> base64 \<Rightarrow> 'v json_lib \<Rightarrow> string list \<Rightarrow>
   'j ext_msg list \<times> (kit_error + unit)" where
  "teams_main from_str to_string meta b64 js input =
     run_extension from_str to_string ''teams'' [] [] meta (handle_teams_dispatch b64 js) input"

definition hmac_main ::
  "(string \<Rightarrow> srv_msg option) \<Rightarrow> ('j ext_msg \<Rightarrow> string option) \<Rightarrow> 'j \<Rightarrow> crypto \<Rightarrow> (string \<Rightarrow> string option) \<Rightarrow> string list \<Rightarrow>
   hmac_config_error + 'j ext_msg list \<times> (kit_error + unit)" where
  "hmac_main from_str to_string meta cx env input =
     (case HmacConfig_from_env env of
        Inl e \<Rightarrow> Inl e
      | Inr config \<Rightarrow>
          Inr (run_extension from_str to_string ''hmac'' [] [hc_channel_prefix config] meta
                 (handle_hmac_dispatch cx config) input))"

section \<open>Channels the extensions emit on\<close>

lemma derive_channel_tokens:
  "split_on (CHR ''.'') (derive_channel pre path) =
     split_on (CHR ''.'') pre @ filter (\<lambda>t. t \<noteq> []) (map plain_token (drop 2 (split_on (CHR ''/'') path)))"
proof -
  define step where "step = (\<lambda>segment channel. let token = plain_token segment
          in if token \<noteq> [] then channel @ CHR ''.'' # token else channel)"
  have "split_on (CHR ''.'') (fold step segs pre) =
      split_on (CHR ''.'') pre @ filter (\<lambda>t. t \<noteq> []) (map plain_token segs)" for segs
  proof (induction segs arbitrary: pre)
    case (Cons seg segs)
    have "split_on (CHR ''.'') (plain_token seg) = [plain_token seg]" if "plain_token seg \<noteq> []"
      using split_on_free valid_plain_no_dot plain_token_valid [OF that] by blast
    then have "split_on (CHR ''.'') (step seg pre) =
        split_on (CHR ''.'') pre @ (if plain_token seg \<noteq> [] then [plain_token seg] else [])"
      by (simp add: step_def Let_def split_on_append)
    then show ?case by (simp add: Cons)
  qed simp
  then show ?thesis unfolding derive_channel_def step_def .
qed

lemma derive_channel_owned:
  assumes "validate_channel pre = Inr ()"
  shows "owns_channel claims [pre] (derive_channel pre path)"
proof -
  have "list_all valid_plain_token (filter (\<lambda>t. t \<noteq> []) (map plain_token segs))" for segs
    using plain_token_valid by (auto simp: list_all_iff)
  with assms show ?thesis
    by (simp add: owns_channel_def validate_channel_ok derive_channel_tokens channel_grammar_def)
qed

lemma github_token_valid: "valid_plain_token (github_token s)"
proof -
  have "valid_plain_token ''unknown''" by code_simp
  then show ?thesis using plain_token_valid by (simp add: github_token_def Let_def)
qed

lemma github_channel_owned: "owns_channel [''github'', ''gh''] [] (github_channel event action)"
proof -
  have g: "valid_plain_token ''github''" "split_on (CHR ''.'') ''github'' = [''github'']" by code_simp+
  have tok: "split_on (CHR ''.'') (github_token s) = [github_token s]" "github_token s \<noteq> []" for s
    using github_token_valid [of s] split_on_free valid_plain_no_dot by (blast, force)
  have "''github.'' @ t = ''github'' @ CHR ''.'' # t" for t by simp
  then have "split_on (CHR ''.'') (''github.'' @ t) = ''github'' # split_on (CHR ''.'') t" for t
    using split_on_append [of "CHR ''.''" "''github''" t] g(2) by simp
  then have "split_on (CHR ''.'') (github_channel event action) =
      ''github'' # github_token event # (case action of None \<Rightarrow> [] | Some a \<Rightarrow> [github_token a])"
    using tok split_on_append [of "CHR ''.''" "''github.'' @ github_token event"]
    by (auto simp: github_channel_def Let_def split: option.splits)
  then show ?thesis
    using g(1) github_token_valid
    by (auto simp: owns_channel_def validate_channel_ok channel_grammar_def split: option.splits)
qed

interpretation dev: provider "handle_dev_dispatch b64 lossy" "[''dev'']" "[]" for b64 lossy
proof
  have "owns_channel [''dev''] [] ''dev.echo''"
    unfolding owns_channel_def by (simp add: validate_channel_def) code_simp
  then show "owns_channel [''dev''] [] (ev_channel e)"
    if "handle_dev_dispatch b64 lossy msg = Inr (http, events)" "e \<in> set events" for msg http events e
    using that by (cases msg) (auto split: sum.splits)
qed

interpretation github: provider "handle_github_dispatch cx js" "[''github'', ''gh'']" "[]" for cx js
proof
  show "owns_channel [''github'', ''gh''] [] (ev_channel e)"
    if "handle_github_dispatch cx js msg = Inr (http, events)" "e \<in> set events" for msg http events e
    using that github_channel_owned
    by (cases msg) (auto split: sum.splits option.splits if_splits)
qed

lemma hmac_provider:
  assumes "validate_channel (hc_channel_prefix config) = Inr ()"
  shows "provider (handle_hmac_dispatch cx config) claims [hc_channel_prefix config]"
proof
  show "owns_channel claims [hc_channel_prefix config] (ev_channel e)"
    if "handle_hmac_dispatch cx config msg = Inr (http, events)" "e \<in> set events" for msg http events e
    using that derive_channel_owned [OF assms]
    by (cases msg) (auto split: sum.splits option.splits if_splits)
qed

section \<open>Properties\<close>

text \<open>What a run of the kit writes after the registration is what its loop writes.\<close>

lemma run_extension_result:
  assumes "(ExtResult r http events :: 'j ext_msg) \<in>
    set (fst (run_extension from_str to_string xid paths channels meta handle input))"
  shows "(ExtResult r http events :: 'j ext_msg) \<in> set (fst (extension_loop from_str to_string handle input))"
  using assms by (auto simp: run_extension_def Let_def split: sum.splits prod.splits)


text \<open>
  The HMAC extension publishes a body exactly when the request carries, in the configured header
  and after the configured prefix, an encoding of the HMAC of that body under the secret; it then
  publishes that body once.  Every other request is answered 401 and publishes nothing.
\<close>

theorem hmac_accepts_exactly:
  assumes "b64_decode (cx_base64 cx) (d_body_b64 d) = Some body"
  shows "case handle_hmac_dispatch cx config (Dispatch d) of Inl _ \<Rightarrow> False | Inr (http, events) \<Rightarrow>
    (if \<exists>secret signature. d_secret d = Some secret \<and>
          header_value (d_headers d) (hc_header config) =
            Some ((case hc_prefix config of None \<Rightarrow> [] | Some pre \<Rightarrow> pre) @ signature) \<and>
          Encoding_decode cx (hc_encoding config) (trim signature) =
            Some (cx_mac cx (hc_algorithm config) secret body)
     then http = text_reply 200 ''ok'' \<and>
       events = [\<lparr>ev_channel = derive_channel (hc_channel_prefix config) (d_path d),
                  ev_payload_b64 = b64_encode (cx_base64 cx) body\<rparr>]
     else reply_status http = 401 \<and> events = [])"
  using assms
  by (auto simp: decode_body_b64_def text_reply_def strip_prefix_eq split: option.splits)

text \<open>
  What \<^verbatim>\<open>sign\<close> produces is accepted: a request whose signature header carries it is published.  The
  codec is one that decodes what it encodes, to text with no space around it.
\<close>

theorem hmac_sign_verifies:
  assumes "b64_decode (cx_base64 cx) (d_body_b64 d) = Some body" and "d_secret d = Some secret"
    and "header_value (d_headers d) (hc_header config) = Some (sign cx config secret body)"
    and "\<And>m. Encoding_decode cx (hc_encoding config) (Encoding_encode cx (hc_encoding config) m) = Some m"
    and "\<And>m. trim (Encoding_encode cx (hc_encoding config) m) = Encoding_encode cx (hc_encoding config) m"
  shows "handle_hmac_dispatch cx config (Dispatch d) =
    Inr (text_reply 200 ''ok'', [\<lparr>ev_channel = derive_channel (hc_channel_prefix config) (d_path d),
                                  ev_payload_b64 = b64_encode (cx_base64 cx) body\<rparr>])"
  using assms by (simp add: decode_body_b64_def sign_def Let_def split: option.splits)

text \<open>A codec that brackets the text, and a signed request.\<close>

definition sample_crypto :: crypto where
  "sample_crypto =
     \<lparr>cx_mac = \<lambda>a secret body. secret @ body, cx_hex_encode = \<lambda>m. ''a'' @ m @ ''a'',
      cx_hex_decode = \<lambda>s. Some (butlast (tl s)),
      cx_base64 = \<lparr>b64_decode = Some, b64_encode = \<lambda>m. m\<rparr>\<rparr>"

definition sample_dispatch_msg :: dispatch_msg where
  "sample_dispatch_msg =
     \<lparr>d_req_id = 3, d_method = ''POST'', d_path = ''/hmac/Stripe'', d_query = None,
      d_headers = [(''x-signature'', ''akba'')], d_body_b64 = ''b'', d_secret = Some ''k''\<rparr>"

lemma sample_crypto_codec:
  "Encoding_decode sample_crypto Hex (Encoding_encode sample_crypto Hex m) = Some m"
  "trim (Encoding_encode sample_crypto Hex m) = Encoding_encode sample_crypto Hex m"
proof -
  show "Encoding_decode sample_crypto Hex (Encoding_encode sample_crypto Hex m) = Some m"
    by (simp add: sample_crypto_def butlast_append)
  have "\<not> prefix w (CHR ''a'' # s)" if "w \<in> set white_space \<union> set (map rev white_space)" for w s
    using that by (auto simp: white_space_def)
  then have "strip_any white_space (CHR ''a'' # s) = None \<and> strip_any (map rev white_space) (CHR ''a'' # s) = None"
    for s unfolding strip_any_None by blast
  then show "trim (Encoding_encode sample_crypto Hex m) = Encoding_encode sample_crypto Hex m"
    by (simp add: sample_crypto_def trim_def trim_start_def trim_end_def)
qed


theorem hmac_accepts_exactly_witness:
  "case handle_hmac_dispatch sample_crypto HmacConfig_default (Dispatch (sample_dispatch_msg\<lparr>d_secret := None\<rparr>)) of
     Inl _ \<Rightarrow> False | Inr (http, events) \<Rightarrow> reply_status http = 401 \<and> events = []"
  using hmac_accepts_exactly [of sample_crypto "sample_dispatch_msg\<lparr>d_secret := None\<rparr>" "''b''" HmacConfig_default]
  by (simp add: sample_crypto_def sample_dispatch_msg_def split: sum.splits prod.splits)

theorem hmac_sign_verifies_witness:
  "handle_hmac_dispatch sample_crypto HmacConfig_default (Dispatch sample_dispatch_msg) =
     Inr (text_reply 200 ''ok'', [\<lparr>ev_channel = ''hmac.stripe'', ev_payload_b64 = ''b''\<rparr>])"
proof -
  have "header_value (d_headers sample_dispatch_msg) (hc_header HmacConfig_default) =
      Some (sign sample_crypto HmacConfig_default ''k'' ''b'')" by code_simp
  moreover have "derive_channel (hc_channel_prefix HmacConfig_default) (d_path sample_dispatch_msg) = ''hmac.stripe''"
    by code_simp
  moreover have "hc_encoding HmacConfig_default = Hex" by (simp add: HmacConfig_default_def)
  ultimately show ?thesis
    using hmac_sign_verifies [of sample_crypto sample_dispatch_msg "''b''" "''k''" HmacConfig_default] sample_crypto_codec
    by (simp add: sample_dispatch_msg_def, simp add: sample_crypto_def)
qed

lemma teams_items_eq:
  "teams_items b64 js secret body items =
     (if \<forall>item \<in> set items. (case get_str js ''clientState'' item of None \<Rightarrow> [] | Some s \<Rightarrow> s) = secret
      then Some (map (\<lambda>r. \<lparr>ev_channel = ''teams.'' @ resource_to_channel r, ev_payload_b64 = b64_encode b64 body\<rparr>)
        (List.map_filter (get_str js ''resource'') items))
      else None)"
  by (induction items) (auto simp: map_filter_simps split: option.splits)

text \<open>
  The Teams extension publishes all or nothing.  A notification is accepted exactly when every
  item in it carries the secret as its client state; then each item that names a resource gives one
  event with the whole body, in order.  Otherwise the answer is 401 and nothing is published.
\<close>

theorem teams_accepts_exactly:
  assumes "validation_token (d_query d) = None" and "b64_decode b64 (d_body_b64 d) = Some body"
    and "js_parse js body = Some parsed" and "js_get js parsed ''value'' = Some v" and "js_array js v = Some items"
  shows "handle_teams_dispatch b64 js (Dispatch d) = Inr
    (case d_secret d of
       None \<Rightarrow> (text_reply 401 ''missing clientState secret'', [])
     | Some secret \<Rightarrow>
         if \<forall>item \<in> set items. (case get_str js ''clientState'' item of None \<Rightarrow> [] | Some s \<Rightarrow> s) = secret
         then (text_reply 202 ''accepted'',
               map (\<lambda>r. \<lparr>ev_channel = ''teams.'' @ resource_to_channel r, ev_payload_b64 = b64_encode b64 body\<rparr>)
                 (List.map_filter (get_str js ''resource'') items))
         else (text_reply 401 ''invalid clientState'', []))"
  using assms by (simp add: decode_body_b64_def teams_items_eq split: option.splits)

text \<open>A toy JSON library: a list of items, each a client state and a resource.\<close>

datatype sample_json = JItems "(string \<times> string) list" | JItem string string | JStr string

definition sample_json_lib :: "sample_json json_lib" where
  "sample_json_lib =
     \<lparr>js_parse = \<lambda>s. if s = ''j'' then Some (JItems [(''k'', ''a/B''), (''k'', ''a///b'')]) else None,
      js_get = \<lambda>v f. case v of JItems _ \<Rightarrow> if f = ''value'' then Some v else None
                     | JItem c r \<Rightarrow> if f = ''clientState'' then Some (JStr c) else if f = ''resource'' then Some (JStr r) else None
                     | JStr _ \<Rightarrow> None,
      js_str = \<lambda>v. case v of JStr s \<Rightarrow> Some s | _ \<Rightarrow> None,
      js_array = \<lambda>v. case v of JItems xs \<Rightarrow> Some (map (\<lambda>(c, r). JItem c r) xs) | _ \<Rightarrow> None\<rparr>"

theorem teams_accepts_exactly_witness:
  "handle_teams_dispatch (cx_base64 sample_crypto) sample_json_lib (Dispatch (sample_dispatch_msg\<lparr>d_body_b64 := ''j''\<rparr>)) =
     Inr (text_reply 202 ''accepted'', [\<lparr>ev_channel = ''teams.a.b'', ev_payload_b64 = ''j''\<rparr>,
       \<lparr>ev_channel = ''teams.a..b'', ev_payload_b64 = ''j''\<rparr>])"
proof -
  have ch: "''teams.'' @ resource_to_channel ''a/B'' = ''teams.a.b''"
    "''teams.'' @ resource_to_channel ''a///b'' = ''teams.a..b''" by code_simp+
  have "validation_token (d_query (sample_dispatch_msg\<lparr>d_body_b64 := ''j''\<rparr>)) = None"
    by (simp add: validation_token_def sample_dispatch_msg_def)
  from teams_accepts_exactly [OF this, of "cx_base64 sample_crypto" "''j''" sample_json_lib
      "JItems [(''k'', ''a/B''), (''k'', ''a///b'')]" "JItems [(''k'', ''a/B''), (''k'', ''a///b'')]"
      "[JItem ''k'' ''a/B'', JItem ''k'' ''a///b'']"] ch
  show ?thesis
    by (simp add: sample_crypto_def sample_json_lib_def sample_dispatch_msg_def get_str_def map_filter_simps)
qed

text \<open>
  A resource with three separators in a row becomes a channel with an empty token: the extension
  answers 202, and the server drops the event as a violation of the namespace.
\<close>

lemma teams_channel_lost:
  "filter_owned_events ''teams'' [''teams''] [] 0
     [\<lparr>ev_channel = ''teams.'' @ resource_to_channel ''a///b'', ev_payload_b64 = ''j''\<rparr>] = ([], 1)"
  by code_simp

text \<open>
  C37: anyone can stop the Teams extension.  A request that is no validation request and whose body is
  no JSON ends the extension's process, before any secret is looked at: the process answers the
  requests before it and nothing after it.
\<close>

theorem teams_stopped_without_secret:
  assumes "map (decode_line from_str) input = map (\<lambda>d. Inr (Some (Dispatch d))) (ds @ [d] @ later)"
    and "\<And>m. to_string m \<noteq> None"
    and "validation_token (d_query d) = None" and "b64_decode b64 (d_body_b64 d) = Some body"
    and "js_parse js body = None"
  shows "snd (extension_loop from_str to_string (handle_teams_dispatch b64 js) input) \<noteq> Inr () \<and>
    length (fst (extension_loop from_str to_string (handle_teams_dispatch b64 js) input) :: 'j ext_msg list) \<le> length ds"
proof -
  let ?h = "handle_teams_dispatch b64 js"
  have none: "answer_of ?h d = (None :: 'j ext_msg option)"
    using assms(3-5) by (simp add: answer_of_def decode_body_b64_def split: option.splits)
  have "find (\<lambda>d. answer_of ?h d = (None :: 'j ext_msg option)) (ds @ [d] @ later) \<noteq> None"
    using none by (auto simp: find_None_iff)
  moreover have "length (takeWhile (\<lambda>d. answer_of ?h d \<noteq> (None :: 'j ext_msg option)) (ds @ [d] @ later)) \<le> length ds"
    using none by (induction ds) auto
  ultimately show ?thesis
    unfolding extension_loop_serves [OF assms(1,2)] by (auto split: option.splits)
qed

theorem teams_stopped_without_secret_witness:
  "snd (extension_loop (\<lambda>_. Some (Dispatch (sample_dispatch_msg\<lparr>d_secret := None\<rparr>))) (\<lambda>_ :: unit ext_msg. Some [])
     (handle_teams_dispatch (cx_base64 sample_crypto) sample_json_lib) [''x'']) \<noteq> Inr ()"
proof -
  let ?d = "sample_dispatch_msg\<lparr>d_secret := None\<rparr>"
  have "decode_line (\<lambda>_. Some (Dispatch ?d)) ''x'' = Inr (Some (Dispatch ?d))" by code_simp
  then have "map (decode_line (\<lambda>_. Some (Dispatch ?d))) [''x''] = map (\<lambda>d. Inr (Some (Dispatch d))) ([] @ [?d] @ [])"
    by simp
  from teams_stopped_without_secret [OF this, of "\<lambda>_ :: unit ext_msg. Some []" "cx_base64 sample_crypto" "''b''"
      sample_json_lib]
  show ?thesis
    by (simp add: validation_token_def sample_dispatch_msg_def sample_crypto_def sample_json_lib_def)
qed

section \<open>Validation tokens\<close>

text \<open>The encoding a query carries: every byte as a percent sign and two hexadecimal digits.\<close>

definition hex_char :: "nat \<Rightarrow> char" where
  "hex_char n = (if n < 10 then char_of (48 + n) else char_of (87 + n))"

definition percent_encode :: "string \<Rightarrow> string" where
  "percent_encode s = concat (map (\<lambda>c. [CHR ''%'', hex_char (code_of c div 16), hex_char (code_of c mod 16)]) s)"

lemma hex_digit_char: "n < 16 \<Longrightarrow> hex_digit (hex_char n) = Some n"
  by (auto simp: hex_digit_def hex_char_def Let_def is_ascii_digit_def code_of_def of_char_of)

lemma hex_char_not_plus: "n < 16 \<Longrightarrow> hex_char n \<noteq> CHR ''+''"
proof
  assume "n < 16" "hex_char n = CHR ''+''"
  then have "(of_char (hex_char n) :: nat) = 43" by simp
  with \<open>n < 16\<close> show False by (auto simp: hex_char_def of_char_of split: if_splits)
qed

lemma from_str_radix16_char:
  "from_str_radix16 (hex_char (code_of c div 16)) (hex_char (code_of c mod 16)) = Some (code_of c)"
proof -
  have "code_of c < 256" by (simp add: code_of_def)
  then have lt: "code_of c div 16 < 16" "code_of c mod 16 < 16" by simp_all
  have "16 * (code_of c div 16) + code_of c mod 16 = code_of c" by simp
  then show ?thesis
    by (simp only: from_str_radix16_def hex_digit_char [OF lt(1)] hex_digit_char [OF lt(2)]
        hex_char_not_plus [OF lt(1)] if_False prod.case option.case)
qed

lemma percent_decode_step:
  "percent_decode (CHR ''%'' # hex_char (code_of c div 16) # hex_char (code_of c mod 16) # percent_encode s) =
     map_option (\<lambda>out. latin1 (code_of c) @ out) (percent_decode (percent_encode s))"
proof -
  have "\<not> is_continuation (CHR ''%'')" by (simp add: is_continuation_def code_of_def)
  then have "(case percent_encode s of [] \<Rightarrow> False | x # _ \<Rightarrow> is_continuation x) = False"
    by (cases s) (simp_all add: percent_encode_def)
  then show ?thesis by (simp add: from_str_radix16_char)
qed

text \<open>
  Decoding a validation token undoes its percent-encoding, for every ASCII token; a byte above 127
  comes back as the two-byte encoding of the character with that number.
\<close>

theorem percent_decode_encode:
  "percent_decode (percent_encode s) = Some (concat (map (\<lambda>c. latin1 (code_of c)) s)) \<and>
   ((\<forall>c \<in> set s. code_of c < 128) \<longrightarrow> percent_decode (percent_encode s) = Some s)"
proof -
  have dec: "percent_decode (percent_encode s) = Some (concat (map (\<lambda>c. latin1 (code_of c)) s))"
  proof (induction s)
    case (Cons c s)
    then show ?case
      using percent_decode_step [of c s] by (simp add: percent_encode_def del: percent_decode.simps)
  qed (simp add: percent_encode_def)
  moreover have "concat (map (\<lambda>c. latin1 (code_of c)) s) = s" if "\<forall>c \<in> set s. code_of c < 128"
    using that by (induction s) (simp_all add: latin1_def code_of_def)
  ultimately show ?thesis by simp
qed

theorem percent_decode_encode_witness: "percent_decode ''%61%2b%2f'' = Some ''a+/''"
proof -
  have "percent_encode ''a+/'' = ''%61%2b%2f''" by code_simp
  moreover have "\<forall>c \<in> set ''a+/''. code_of c < 128" by code_simp
  ultimately show ?thesis using percent_decode_encode [of "''a+/''"] by metis
qed

end
