(* ===== verification/Webhook.thy ===== *)
theory Webhook
  imports Ingest Providers
begin

text \<open>
  The two tasks of \<^verbatim>\<open>crates/whdr-server/src/daemon.rs\<close> on an extension's pipes, and a webhook's way
  through all of it: the HTTP request, the dispatch, the line to the extension, the extension built
  on the kit, its answer line, the reader, the fan-out and the HTTP response.
\<close>

section \<open>The pipe tasks\<close>

text \<open>
  \<^verbatim>\<open>spawn_extension_writer\<close>: the lines written for the messages queued so far.  The write and the
  flush of the \<open>n\<close>-th line succeed as \<open>write_ok n\<close> says; a message that cannot be encoded is skipped.
\<close>

fun writer_loop :: "(srv_msg \<Rightarrow> string option) \<Rightarrow> (nat \<Rightarrow> bool) \<Rightarrow> nat \<Rightarrow> srv_msg list \<Rightarrow> string list" where
  "writer_loop to_string write_ok n [] = []"
| "writer_loop to_string write_ok n (msg # msgs) =
     (case encode_line to_string msg of
        Inr line \<Rightarrow> if write_ok n then line # writer_loop to_string write_ok (Suc n) msgs else []
      | Inl _ \<Rightarrow> writer_loop to_string write_ok n msgs)"

text \<open>
  \<^verbatim>\<open>ExtensionReaderTask::run\<close> on the lines that arrive, each with the surroundings of its fan-out: the
  answers handed to waiting tasks and the events fanned out.
\<close>

fun reader_run ::
  "(string \<Rightarrow> 'j ext_msg option) \<Rightarrow> string \<Rightarrow> uuid \<Rightarrow> (fan_env \<times> string) list \<Rightarrow> inner \<Rightarrow>
   (nat \<times> ext_result) list \<times> event list \<times> inner" where
  "reader_run from_str xid generation [] st = ([], [], st)"
| "reader_run from_str xid generation ((fe, line) # lines) st =
     (case reader_line fe from_str xid generation line st of
        (ReadEnd, answer, events, st') \<Rightarrow> (case answer of None \<Rightarrow> [] | Some a \<Rightarrow> [a], events, st')
      | (ReadOn, answer, events, st') \<Rightarrow>
          (case reader_run from_str xid generation lines st' of
             (answers, later, st'') \<Rightarrow>
               ((case answer of None \<Rightarrow> [] | Some a \<Rightarrow> [a]) @ answers, events @ later, st'')))"

section \<open>One request through the server\<close>

text \<open>
  The JSON of the pipes, the base64 encoder, the header decoder, the reply translation, the
  request's fresh identity and waiting task, and the fan-out's surroundings.
\<close>

record 'j webhook_env =
  we_srv_to :: "srv_msg \<Rightarrow> string option"
  we_srv_from :: "string \<Rightarrow> srv_msg option"
  we_ext_to :: "'j ext_msg \<Rightarrow> string option"
  we_ext_from :: "string \<Rightarrow> 'j ext_msg option"
  we_base64 :: "string \<Rightarrow> string"
  we_to_str :: "string \<Rightarrow> string option"
  we_to_response :: "http_reply \<Rightarrow> response"
  we_req_id :: uuid
  we_tx :: nat
  we_fan :: fan_env

text \<open>The lines a running extension writes for the messages the daemon's writer sends it.\<close>

definition extension_lines :: "'j webhook_env \<Rightarrow> (srv_msg \<Rightarrow> dispatch_result) \<Rightarrow> srv_msg list \<Rightarrow> string list" where
  "extension_lines w handle msgs =
     map (\<lambda>m. the (we_ext_to w m))
       (fst (extension_loop (we_srv_from w) (we_ext_to w) handle
         (map butlast (writer_loop (we_srv_to w) (\<lambda>_. True) 0 msgs))))"

text \<open>
  A request that nothing interleaves with: it is dispatched, the extension answers, the reader
  hands the answer over and the waiting task ends the request.
\<close>

definition webhook_run ::
  "'j webhook_env \<Rightarrow> (srv_msg \<Rightarrow> dispatch_result) \<Rightarrow> http_request \<Rightarrow> inner \<Rightarrow> response \<times> inner" where
  "webhook_run w handle rq st =
     (case ingest_start (we_to_str w) (we_base64 w) (we_req_id w) (we_tx w) True rq st of
        (Inl resp, st1) \<Rightarrow> (resp, st1)
      | (Inr fl, st1) \<Rightarrow>
          (let xid = eh_id (fl_handle fl); gen = eh_generation (fl_handle fl);
               msgs = (case extension_handle xid gen st1 of None \<Rightarrow> [] | Some h \<Rightarrow> [last (eh_sent h)])
           in (case reader_run (we_ext_from w) xid gen
                      (map (Pair (we_fan w)) (extension_lines w handle msgs)) st1 of
                 (answers, _, st2) \<Rightarrow>
                   ingest_finish (we_to_response w) (we_fan w)
                     (map_option Some (map_of answers (we_tx w))) fl st2)))"

text \<open>What the pipes rely on of JSON.\<close>

definition pipe_codec :: "'j webhook_env \<Rightarrow> srv_msg \<Rightarrow> 'j ext_msg \<Rightarrow> bool" where
  "pipe_codec w msg answer \<longleftrightarrow>
     line_codec (we_srv_to w) (we_srv_from w) msg \<and> line_codec (we_ext_to w) (we_ext_from w) answer"

lemma line_codec_decode:
  assumes "line_codec to_string from_str m"
  obtains t where "to_string m = Some t" "decode_line from_str t = Inr (Some m)"
proof -
  obtain t where t: "to_string m = Some t" "trimmed_text t" "from_str t = Some m"
    using assms by (auto simp: line_codec_def)
  then have "decode_line from_str t = Inr (Some m)"
    using trim_stable [OF t(2)] by (auto simp: decode_line_def trimmed_text_def)
  with t(1) show thesis by (rule that)
qed

lemma extension_lines_one:
  assumes "pipe_codec w (Dispatch d) (ExtResult (d_req_id d) http events)"
    and "handle (Dispatch d) = Inr (http, events)"
  obtains t where "extension_lines w handle [Dispatch d] = [t]"
    "decode_line (we_ext_from w) t = Inr (Some (ExtResult (d_req_id d) http events))"
proof -
  have 1: "line_codec (we_srv_to w) (we_srv_from w) (Dispatch d)"
    and 2: "line_codec (we_ext_to w) (we_ext_from w) (ExtResult (d_req_id d) http events)"
    using assms(1) by (simp_all add: pipe_codec_def)
  from 1 obtain s where s: "we_srv_to w (Dispatch d) = Some s" "decode_line (we_srv_from w) s = Inr (Some (Dispatch d))"
    by (rule line_codec_decode)
  from 2 obtain t where t: "we_ext_to w (ExtResult (d_req_id d) http events) = Some t"
    "decode_line (we_ext_from w) t = Inr (Some (ExtResult (d_req_id d) http events))"
    by (rule line_codec_decode)
  have "extension_lines w handle [Dispatch d] = [t]"
    using s t(1) assms(2) by (simp add: extension_lines_def encode_line_def Let_def)
  with t(2) show thesis by (rule that [rotated -1])
qed

text \<open>The dispatch message of a request, and the surroundings that let it through to an extension.\<close>

definition message_for :: "'j webhook_env \<Rightarrow> http_request \<Rightarrow> string \<Rightarrow> inner \<Rightarrow> dispatch_msg" where
  "message_for w rq xid st =
     \<lparr>d_req_id = we_req_id w, d_method = hr_method rq, d_path = hr_path rq, d_query = hr_query rq,
      d_headers = header_map_to_btree (we_to_str w) (hr_headers rq), d_body_b64 = we_base64 w (hr_body rq),
      d_secret = hget (cfg_secrets (in_config st)) xid\<rparr>"

definition reaches :: "'j webhook_env \<Rightarrow> http_request \<Rightarrow> ext_handle \<Rightarrow> inner \<Rightarrow> bool" where
  "reaches w rq h st \<longleftrightarrow> daemon_inv st \<and>
     length (hr_body rq) \<le> max_body_bytes (cfg_limits (in_config st)) \<and>
     (\<exists>key. route_key_from_path (hr_path rq) = Some key \<and> hget (in_routes st) key = Some (eh_id h)) \<and>
     hget (in_extensions st) (eh_id h) = Some h \<and>
     dw_in_flight (eh_dispatches h) < max_in_flight (cfg_limits (in_config st)) \<and>
     hget (dw_pending (eh_dispatches h)) (we_req_id w) = None"

lemma reaches_dispatch:
  assumes "reaches w rq h st"
  defines "w' \<equiv> (eh_dispatches h)\<lparr>dw_in_flight := dw_in_flight (eh_dispatches h) + 1,
      dw_pending := hinsert (we_req_id w) (we_tx w) (dw_pending (eh_dispatches h))\<rparr>"
  shows "ingest_start (we_to_str w) (we_base64 w) (we_req_id w) (we_tx w) True rq st =
    (Inr \<lparr>fl_handle = h, fl_reservation = \<lparr>rv_req_id = we_req_id w, rv_armed = True\<rparr>, fl_config = in_config st\<rparr>,
     with_handle (eh_id h) (eh_generation h) (\<lambda>g. g\<lparr>eh_dispatches := w',
       eh_sent := eh_sent g @ [Dispatch (message_for w rq (eh_id h) st)]\<rparr>) st)"
proof -
  obtain key where key: "route_key_from_path (hr_path rq) = Some key" "hget (in_routes st) key = Some (eh_id h)"
    using assms(1) by (auto simp: reaches_def)
  have "dispatch_route key st = Inr h" using assms(1) key(2) by (simp add: dispatch_route_def reaches_def)
  moreover have "reserve (max_in_flight (cfg_limits (in_config st))) (we_req_id w) (we_tx w) (eh_dispatches h) = Some w'"
    using assms(1) by (simp add: reaches_def reserve_def reserve_round_def pending_insert_def drop_permits_def w'_def)
  ultimately show ?thesis
    using assms(1) key(1)
    by (simp add: reaches_def ingest_start_def dispatch_start_def ext_dispatch_start_def Let_def message_for_def)
qed

lemma in_subscribers_with_handle [simp]: "in_subscribers (with_handle x g f st) = in_subscribers st"
  by (simp add: with_handle_def)

lemma extension_handle_present:
  "daemon_inv st \<Longrightarrow> hget (in_extensions st) (eh_id h) = Some h \<Longrightarrow>
   extension_handle (eh_id h) (eh_generation h) st = Some h"
  by (simp add: extension_handle_def)

context provider
begin

text \<open>
  A request that reaches a provider's extension is answered with what its handler answered, all of
  its events are fanned out, and the request's permit is given back.
\<close>

lemma webhook_answered:
  fixes w :: "'j webhook_env"
  assumes reach: "reaches w rq h st" and claims: "eh_paths h = claims" "eh_channels h = pres"
    and handled: "handle (Dispatch (message_for w rq (eh_id h) st)) = Inr (http, events)"
    and codec: "pipe_codec w (Dispatch (message_for w rq (eh_id h) st)) (ExtResult (we_req_id w) http events)"
  shows "\<exists>st' h'. webhook_run w handle rq st = (we_to_response w http, st') \<and>
    in_subscribers st' = in_subscribers (app_fanout (we_fan w) events st) \<and>
    hget (in_extensions st') (eh_id h) = Some h' \<and>
    dw_in_flight (eh_dispatches h') = dw_in_flight (eh_dispatches h)"
proof -
  define m where "m = message_for w rq (eh_id h) st"
  define w' where "w' = (eh_dispatches h)\<lparr>dw_in_flight := dw_in_flight (eh_dispatches h) + 1,
      dw_pending := hinsert (we_req_id w) (we_tx w) (dw_pending (eh_dispatches h))\<rparr>"
  define st1 where "st1 = with_handle (eh_id h) (eh_generation h)
      (\<lambda>g. g\<lparr>eh_dispatches := w', eh_sent := eh_sent g @ [Dispatch m]\<rparr>) st"
  define h1 where "h1 = h\<lparr>eh_dispatches := w', eh_sent := eh_sent h @ [Dispatch m]\<rparr>"
  define w2 where "w2 = snd (window_remove (we_req_id w) w')"
  have start: "ingest_start (we_to_str w) (we_base64 w) (we_req_id w) (we_tx w) True rq st =
      (Inr \<lparr>fl_handle = h, fl_reservation = \<lparr>rv_req_id = we_req_id w, rv_armed = True\<rparr>, fl_config = in_config st\<rparr>, st1)"
    using reaches_dispatch [OF reach] by (simp add: st1_def w'_def m_def)
  have "extension_handle (eh_id h) (eh_generation h) st = Some h"
    using reach by (simp add: reaches_def extension_handle_present)
  then have h1: "extension_handle (eh_id h) (eh_generation h) st1 = Some h1" by (simp add: st1_def h1_def)
  have own: "owned_events h events = events" "owned_events h1 events = events"
    using owned [OF handled] by (simp_all add: owned_events_def filter_id_conv h1_def claims)
  obtain t where t: "extension_lines w handle [Dispatch m] = [t]"
    "decode_line (we_ext_from w) t = Inr (Some (ExtResult (we_req_id w) http events))"
    using extension_lines_one [of w m http events handle] codec handled by (auto simp: m_def message_for_def)
  have rem: "window_remove (we_req_id w) w' = (Some (we_tx w), w2)" "dw_in_flight w2 = dw_in_flight (eh_dispatches h)"
    by (simp_all add: w2_def w'_def window_remove_def hm_simps drop_permits_def release_in_flight_def)
  define f where "f = (\<lambda>g :: ext_handle. g\<lparr>eh_dispatches := w2, eh_consecutive_timeouts := 0\<rparr>)"
  define k where "k = (\<lambda>g :: ext_handle. g\<lparr>eh_namespace_violations := eh_namespace_violations g + 0\<rparr>)"
  let ?on = "with_handle (eh_id h) (eh_generation h)"
  have read: "reader_line (we_fan w) (we_ext_from w) (eh_id h) (eh_generation h) t st1 =
      (ReadOn, Some (we_tx w, \<lparr>xr_http = http, xr_events = events\<rparr>), [], ?on k (?on f st1))"
    using own by (simp add: reader_line_def h1 t(2) reader_result_def rem(1) filter_events_eq Let_def h1_def f_def k_def)
  define st' where "st' = app_fanout (we_fan w) events
      (?on (EventStats_record (fe_now_ms (we_fan w)) (length events)) (?on k (?on k (?on f st1))))"
  have run: "webhook_run w handle rq st = (we_to_response w http, st')"
    using own(1) t(1) read
    by (simp add: webhook_run_def start Let_def h1 h1_def ingest_finish_def ext_dispatch_finish_def filter_events_eq
        st'_def k_def)
  have "\<exists>h'. hget (in_extensions st') (eh_id h) = Some h' \<and> eh_dispatches h' = w2"
    using reach by (auto simp: st'_def st1_def k_def f_def with_handle_def hm_simps reaches_def EventStats_record_def)
  moreover have "in_subscribers st' = in_subscribers (app_fanout (we_fan w) events st)"
    by (simp add: st'_def st1_def app_fanout_def)
  ultimately show ?thesis using run rem(2) by auto
qed

end

section \<open>Properties\<close>

text \<open>The request carries, in the configured header, a signature of its body under the extension's secret.\<close>

definition signed :: "crypto \<Rightarrow> hmac_config \<Rightarrow> (string \<times> string) list \<Rightarrow> string option \<Rightarrow> string \<Rightarrow> bool" where
  "signed cx config headers sec body \<longleftrightarrow>
     (\<exists>secret signature. sec = Some secret \<and>
        header_value headers (hc_header config) =
          Some ((case hc_prefix config of None \<Rightarrow> [] | Some pre \<Rightarrow> pre) @ signature) \<and>
        Encoding_decode cx (hc_encoding config) (trim signature) =
          Some (cx_mac cx (hc_algorithm config) secret body))"

lemma app_fanout_Nil: "in_subscribers (app_fanout fe [] st) = in_subscribers st"
  by (simp add: app_fanout_def fanout_def)


text \<open>A running HMAC extension, and a request signed with its secret.\<close>

definition hmac_running :: inner where
  "hmac_running = start_extensions
     \<lparr>se_from_str = \<lambda>_. Some (ExtRegister \<lparr>reg_protocol = PROTOCOL_VERSION, reg_id = Some ''hmac'', reg_paths = [],
                             reg_channels = [''hmac''], reg_meta = ()\<rparr>),
      se_spawn = \<lambda>_. Some (Some 1), se_first = \<lambda>_. Line ''R'', se_generation = \<lambda>_. 5, se_show_error = \<lambda>_. []\<rparr>
     [(''e'', ''/bin/e'')] (sample_start\<lparr>in_config := sample_config\<lparr>cfg_secrets := [(''hmac'', ''k'')]\<rparr>\<rparr>)"

definition hmac_handle :: ext_handle where
  "hmac_handle = the (hget (in_extensions hmac_running) ''hmac'')"

definition hmac_request :: http_request where
  "hmac_request = \<lparr>hr_method = ''POST'', hr_path = ''/hmac/Stripe'', hr_query = None,
     hr_headers = [(''X-Signature'', ''akba'')], hr_body = ''b''\<rparr>"

definition hmac_event :: event where
  "hmac_event = \<lparr>ev_channel = ''hmac.stripe'', ev_payload_b64 = ''b''\<rparr>"

definition hmac_env :: "unit webhook_env" where
  "hmac_env =
     \<lparr>we_srv_to = \<lambda>_. Some ''m'', we_srv_from = \<lambda>_. Some (Dispatch sample_dispatch_msg), we_ext_to = \<lambda>_. Some ''a'',
      we_ext_from = \<lambda>_. Some (ExtResult 3 (text_reply 200 ''ok'') [hmac_event]), we_base64 = \<lambda>b. b, we_to_str = Some,
      we_to_response = \<lambda>r. status_response (reply_status r), we_req_id = 3, we_tx = 0, we_fan = sample_fan\<rparr>"

lemma hmac_running_facts:
  "hget (in_extensions hmac_running) ''hmac'' = Some hmac_handle" "eh_id hmac_handle = ''hmac''"
  "eh_channels hmac_handle = [''hmac'']" "hget (in_routes hmac_running) ''hmac'' = Some ''hmac''"
  "dw_in_flight (eh_dispatches hmac_handle) = 0" "hget (dw_pending (eh_dispatches hmac_handle)) 3 = None"
  "length (hr_body hmac_request) \<le> max_body_bytes (cfg_limits (in_config hmac_running))"
  "0 < max_in_flight (cfg_limits (in_config hmac_running))"
  "route_key_from_path (hr_path hmac_request) = Some ''hmac''"
  "message_for hmac_env hmac_request ''hmac'' hmac_running = sample_dispatch_msg"
  "handle_hmac_dispatch sample_crypto HmacConfig_default (Dispatch sample_dispatch_msg) =
     Inr (text_reply 200 ''ok'', [hmac_event])"
  by code_simp+

lemma hmac_reaches: "reaches hmac_env hmac_request hmac_handle hmac_running"
proof -
  have "daemon_inv (sample_start\<lparr>in_config := sample_config\<lparr>cfg_secrets := [(''hmac'', ''k'')]\<rparr>\<rparr>)"
    by (simp add: sample_start_def daemon_inv_def ext_table_ok_def owners_ok_def hm_simps tables_inv.simps)
  then have "daemon_inv hmac_running" unfolding hmac_running_def by (rule start_extensions_inv)
  then show ?thesis using hmac_running_facts by (simp add: reaches_def hmac_env_def)
qed


end
