(* ===== verification/Control_Plane.thy ===== *)
theory Control_Plane
  imports Dispatch
begin

text \<open>
  \<^verbatim>\<open>crates/whdr-server/src/control_plane.rs\<close> and \<^verbatim>\<open>AppState::status_json\<close> of \<^verbatim>\<open>daemon.rs\<close>: the admin
  socket.  A status is the record the JSON object is built from; a connection is the list of its
  lines, and the responses written to it.
\<close>

section \<open>Status\<close>

record ready_row =
  rr_candidate_id :: string
  rr_id :: string
  rr_pid :: "u32 option"
  rr_path :: string
  rr_restarts :: nat
  rr_paths :: "string list"
  rr_channels :: "string list"
  rr_in_flight :: nat
  rr_protocol_errors :: nat
  rr_namespace_violations :: nat
  rr_consecutive_timeouts :: nat
  rr_events_emitted :: nat
  rr_last_event_at_ms :: "u64 option"

datatype ext_row = Ready ready_row | Failed string string

record delivery_row =
  dr_head_seq :: u64
  dr_floor_seq :: u64
  dr_retained_events :: u64
  dr_retained_bytes :: u64
  dr_persist_errors :: u64

record status =
  ss_uptime_ms :: nat
  ss_extensions :: "ext_row list"
  ss_subscribers :: "snapshot list"
  ss_routes :: nat
  ss_unavailable_routes :: nat
  ss_channel_prefixes :: nat
  ss_subscriber_count :: nat
  ss_delivery :: "delivery_row option"

definition ready_row_of :: "ext_handle \<Rightarrow> ready_row" where
  "ready_row_of h =
     \<lparr>rr_candidate_id = eh_candidate_id h, rr_id = eh_id h, rr_pid = eh_pid h, rr_path = eh_path h,
      rr_restarts = eh_restarts h, rr_paths = eh_paths h, rr_channels = eh_channels h,
      rr_in_flight = dw_in_flight (eh_dispatches h), rr_protocol_errors = eh_protocol_errors h,
      rr_namespace_violations = eh_namespace_violations h,
      rr_consecutive_timeouts = eh_consecutive_timeouts h, rr_events_emitted = eh_emitted h,
      rr_last_event_at_ms = EventStats_last_event_at_ms h\<rparr>"

definition status_json :: "nat \<Rightarrow> inner \<Rightarrow> status" where
  "status_json uptime st =
     (let sub_rows = snapshots (in_subscribers st)
      in \<lparr>ss_uptime_ms = uptime,
          ss_extensions = map (\<lambda>(_, h). Ready (ready_row_of h)) (in_extensions st) @
            map (\<lambda>(xid, reason). Failed xid reason) (in_failed st),
          ss_subscribers = sub_rows,
          ss_routes = length (in_routes st), ss_unavailable_routes = length (in_unavailable st),
          ss_channel_prefixes = length (in_prefixes st), ss_subscriber_count = length sub_rows,
          ss_delivery =
            (case rg_delivery (in_subscribers st) of
               None \<Rightarrow> None
             | Some log \<Rightarrow>
                 Some \<lparr>dr_head_seq = sh_head log, dr_floor_seq = sh_floor log,
                       dr_retained_events = sh_count log, dr_retained_bytes = sh_bytes log,
                       dr_persist_errors = rg_persist_errors (in_subscribers st)\<rparr>)\<rparr>)"

section \<open>Requests\<close>

text \<open>The admin plane's world: the token store's surroundings, its file, error texts and the clock.\<close>

record control_env =
  ce_tokens :: token_env
  ce_show_error :: "token_error \<Rightarrow> string"
  ce_uptime :: nat

definition handle_control_request ::
  "control_env \<Rightarrow> control_request \<Rightarrow> inner \<Rightarrow> token_file \<Rightarrow>
   status control_response \<times> inner \<times> token_file" where
  "handle_control_request env request st file =
     (case request of
        Status \<Rightarrow> (CtlStatus (status_json (ce_uptime env) st), st, file)
      | TokenAdd name \<Rightarrow>
          (case control_add (ce_show_error env) (ce_tokens env) name (in_token_store st) file of
             (resp, store, file') \<Rightarrow> (resp, st\<lparr>in_token_store := store\<rparr>, file'))
      | TokenRotate name \<Rightarrow>
          (case control_rotate (ce_show_error env) (ce_tokens env) name (in_token_store st) file
                  (in_subscribers st) of
             (resp, store, file', reg) \<Rightarrow>
               (resp, st\<lparr>in_token_store := store, in_subscribers := reg\<rparr>, file'))
      | TokenRevoke name \<Rightarrow>
          (case control_revoke (ce_show_error env) (ce_tokens env) name (in_token_store st) file
                  (in_subscribers st) of
             (resp, store, file', reg) \<Rightarrow>
               (resp, st\<lparr>in_token_store := store, in_subscribers := reg\<rparr>, file'))
      | TokenList \<Rightarrow> (control_list (in_token_store st) (in_subscribers st), st, file))"

text \<open>\<open>show_json_error\<close> is the decoding error's text; each request has its own surroundings.\<close>

fun handle_control_stream ::
  "(string \<Rightarrow> control_request option) \<Rightarrow> (ndjson_error \<Rightarrow> string) \<Rightarrow> (control_env \<times> string) list \<Rightarrow> inner \<Rightarrow>
   token_file \<Rightarrow> status control_response list \<times> inner \<times> token_file" where
  "handle_control_stream from_str show_json_error [] st file = ([], st, file)"
| "handle_control_stream from_str show_json_error ((env, line) # lines) st file =
     (case decode_line from_str line of
        Inr (Some request) \<Rightarrow>
          (case handle_control_request env request st file of
             (resp, st', file') \<Rightarrow>
               (case handle_control_stream from_str show_json_error lines st' file' of
                  (resps, out) \<Rightarrow> (resp # resps, out)))
      | Inr None \<Rightarrow> handle_control_stream from_str show_json_error lines st file
      | Inl err \<Rightarrow>
          (case handle_control_stream from_str show_json_error lines st file of
             (resps, out) \<Rightarrow> (CtlError (show_json_error err) # resps, out)))"

section \<open>What the admin plane can do\<close>

definition revoke_names :: "string set \<Rightarrow> subscriber \<Rightarrow> subscriber" where
  "revoke_names names s = (if sub_name s \<in> names then s\<lparr>sub_close := Some CloseRevoked\<rparr> else s)"

definition only_tokens :: "inner \<Rightarrow> inner \<Rightarrow> bool" where
  "only_tokens st' st \<longleftrightarrow> (\<exists>store names. st' = st\<lparr>in_token_store := store, in_subscribers :=
     (in_subscribers st)\<lparr>rg_subscribers :=
        map (\<lambda>(sid, s). (sid, revoke_names names s)) (rg_subscribers (in_subscribers st))\<rparr>\<rparr>)"

lemma revoke_names_simps [simp]:
  "revoke_names {} s = s" "revoke_names m (revoke_names n s) = revoke_names (m \<union> n) s"
  by (simp_all add: revoke_names_def)

lemma only_tokens_refl: "only_tokens st st"
  unfolding only_tokens_def
  by (intro exI [of _ "in_token_store st"] exI [of _ "{}"]) simp

lemma only_tokens_trans:
  assumes "only_tokens c b" and "only_tokens b a"
  shows "only_tokens c a"
proof -
  obtain s1 n1 where b: "b = a\<lparr>in_token_store := s1, in_subscribers := (in_subscribers a)\<lparr>rg_subscribers :=
      map (\<lambda>(sid, s). (sid, revoke_names n1 s)) (rg_subscribers (in_subscribers a))\<rparr>\<rparr>"
    using assms(2) unfolding only_tokens_def by blast
  obtain s2 n2 where c: "c = b\<lparr>in_token_store := s2, in_subscribers := (in_subscribers b)\<lparr>rg_subscribers :=
      map (\<lambda>(sid, s). (sid, revoke_names n2 s)) (rg_subscribers (in_subscribers b))\<rparr>\<rparr>"
    using assms(1) unfolding only_tokens_def by blast
  show ?thesis
    unfolding only_tokens_def
    by (intro exI [of _ s2] exI [of _ "n2 \<union> n1"]) (simp add: c b comp_def case_prod_unfold)
qed

lemma control_request_only_tokens:
  assumes "handle_control_request env request st tf = (resp, st', tf')"
  shows "only_tokens st' st"
proof -
  have keep: "only_tokens (st\<lparr>in_token_store := store\<rparr>) st" for store
    unfolding only_tokens_def by (intro exI [of _ store] exI [of _ "{}"]) simp
  have same: "only_tokens (st\<lparr>in_token_store := store, in_subscribers := in_subscribers st\<rparr>) st" for store
    using keep [of store] by simp
  have close: "only_tokens (st\<lparr>in_token_store := store, in_subscribers := close_named name CloseRevoked (in_subscribers st)\<rparr>) st"
    for store name
    unfolding only_tokens_def by (intro exI [of _ store] exI [of _ "{name}"]) (simp add: close_named_def revoke_names_def)
  show ?thesis
    using assms keep same close only_tokens_refl
    by (auto simp: handle_control_request_def control_rotate_def control_revoke_def
        split: control_request.splits prod.splits sum.splits)
qed

lemma control_stream_append:
  "handle_control_stream from_str show_err (xs @ ys) st tf =
     (case handle_control_stream from_str show_err xs st tf of
        (r1, st1, tf1) \<Rightarrow>
          (case handle_control_stream from_str show_err ys st1 tf1 of (r2, out) \<Rightarrow> (r1 @ r2, out)))"
  by (induction xs arbitrary: st tf)
    (auto split: prod.splits sum.splits option.splits)

abbreviation answered :: "(string \<Rightarrow> control_request option) \<Rightarrow> (control_env \<times> string) list \<Rightarrow> (control_env \<times> string) list" where
  "answered from_str \<equiv> filter (\<lambda>(_, l). decode_line from_str l \<noteq> Inr None)"

lemma control_stream_length:
  "length (fst (handle_control_stream from_str show_err zs st tf)) = length (answered from_str zs)"
  by (induction zs arbitrary: st tf)
    (auto split: prod.splits sum.splits option.splits, (metis fst_conv)+)

lemma control_stream_only_tokens:
  "only_tokens (fst (snd (handle_control_stream from_str show_err zs st tf))) st"
proof (induction zs arbitrary: st tf)
  case (Cons z zs)
  obtain env line where z: "z = (env, line)" by (cases z)
  show ?case
  proof (cases "\<exists>request. decode_line from_str line = Inr (Some request)")
    case True
    then obtain request where d: "decode_line from_str line = Inr (Some request)" by blast
    obtain resp st1 tf1 where r: "handle_control_request env request st tf = (resp, st1, tf1)"
      by (metis prod_cases3)
    have "fst (snd (handle_control_stream from_str show_err (z # zs) st tf)) =
        fst (snd (handle_control_stream from_str show_err zs st1 tf1))"
      by (simp add: z d r split: prod.splits)
    with Cons [of st1 tf1] control_request_only_tokens [OF r] show ?thesis
      using only_tokens_trans by metis
  next
    case False
    then have "fst (snd (handle_control_stream from_str show_err (z # zs) st tf)) =
        fst (snd (handle_control_stream from_str show_err zs st tf))"
      by (auto simp: z split: prod.splits sum.splits option.splits)
    with Cons [of st tf] show ?thesis by metis
  qed
qed (simp add: only_tokens_refl)

text \<open>
  C34: on an admin connection every line that is not blank gets exactly one response, in order: the
  response to a line follows those to the lines before it and is what the request gives in the
  state they left; a line that is no request gets an error, a blank one nothing, and neither
  changes anything.  Nothing sent there can change more than the token store and which connections
  are told that they were revoked.
\<close>

theorem control_stream_responses:
  "case (handle_control_stream from_str show_err xs st tf,
         handle_control_stream from_str show_err (xs @ (env, line) # ys) st tf) of
     ((r1, st1, tf1), (resps, st', tf')) \<Rightarrow>
       length resps = length (filter (\<lambda>(_, l). decode_line from_str l \<noteq> Inr None) (xs @ (env, line) # ys)) \<and>
       only_tokens st' st \<and> take (length r1) resps = r1 \<and>
       (case decode_line from_str line of
          Inr (Some request) \<Rightarrow> resps ! length r1 = fst (handle_control_request env request st1 tf1)
        | Inr None \<Rightarrow> handle_control_stream from_str show_err [(env, line)] st1 tf1 = ([], st1, tf1)
        | Inl err \<Rightarrow> resps ! length r1 = CtlError (show_err err) \<and>
            handle_control_stream from_str show_err [(env, line)] st1 tf1 = ([CtlError (show_err err)], st1, tf1))"
proof -
  let ?zs = "xs @ (env, line) # ys"
  obtain r1 st1 tf1 where h1: "handle_control_stream from_str show_err xs st tf = (r1, st1, tf1)"
    by (metis prod_cases3)
  obtain resps st' tf' where all: "handle_control_stream from_str show_err ?zs st tf = (resps, st', tf')"
    by (metis prod_cases3)
  have "length resps = length (answered from_str ?zs)" "only_tokens st' st"
    using control_stream_length [of from_str show_err ?zs st tf] control_stream_only_tokens [of from_str show_err ?zs st tf]
    by (simp_all add: all)
  moreover have "take (length r1) resps = r1"
    using all by (auto simp: control_stream_append h1 split: prod.splits)
  moreover have "case decode_line from_str line of
       Inr (Some request) \<Rightarrow> resps ! length r1 = fst (handle_control_request env request st1 tf1)
     | Inr None \<Rightarrow> handle_control_stream from_str show_err [(env, line)] st1 tf1 = ([], st1, tf1)
     | Inl err \<Rightarrow> resps ! length r1 = CtlError (show_err err) \<and>
         handle_control_stream from_str show_err [(env, line)] st1 tf1 = ([CtlError (show_err err)], st1, tf1)"
    using all by (auto simp: control_stream_append h1 nth_append split: prod.splits sum.splits option.splits)
  ultimately show ?thesis unfolding h1 all prod.case by blast
qed

end
