(* ===== verification/Server.thy ===== *)
theory Server
  imports Control_Plane
begin

text \<open>
  The daemon's top level, \<^verbatim>\<open>run_with_signals\<close>, \<^verbatim>\<open>start_servers\<close> and \<^verbatim>\<open>shutdown_state\<close> of
  \<^verbatim>\<open>crates/whdr-server/src/daemon.rs\<close> and the socket of \<^verbatim>\<open>control_plane.rs\<close>.  Binding a listener and the
  operations on the socket file succeed or fail as arguments say; the signals are a list; a
  server task is running or has been aborted.
\<close>

section \<open>Servers\<close>

datatype task_state = TaskRunning | TaskAborted

record running_servers =
  sv_ingest_task :: task_state
  sv_sub_task :: task_state
  sv_metrics_task :: "task_state option"
  sv_control_task :: task_state
  sv_prune_task :: "task_state option"

datatype bind_error = BindIngest | BindSubscriber | BindMetrics

definition start_servers :: "(socket_addr \<Rightarrow> bool) \<Rightarrow> inner \<Rightarrow> bind_error + running_servers" where
  "start_servers bind_ok st =
     (let server = cfg_server (in_config st)
      in if \<not> bind_ok (listen_addr server) then Inl BindIngest
         else if \<not> bind_ok (sub_addr server) then Inl BindSubscriber
         else (case (case metrics_addr server of
                       Some addr \<Rightarrow> if bind_ok addr then Inr (Some TaskRunning) else Inl BindMetrics
                     | None \<Rightarrow> Inr None) of
                 Inl e \<Rightarrow> Inl e
               | Inr metrics \<Rightarrow>
                   Inr \<lparr>sv_ingest_task = TaskRunning, sv_sub_task = TaskRunning, sv_metrics_task = metrics,
                        sv_control_task = TaskRunning,
                        sv_prune_task = map_option (\<lambda>_. TaskRunning) (rg_delivery (in_subscribers st))\<rparr>))"

text \<open>The aborts at the end of \<^verbatim>\<open>shutdown_state\<close>.\<close>

definition abort_servers :: "running_servers \<Rightarrow> running_servers" where
  "abort_servers servers =
     servers\<lparr>sv_ingest_task := TaskAborted, sv_sub_task := TaskAborted,
             sv_metrics_task := map_option (\<lambda>_. TaskAborted) (sv_metrics_task servers),
             sv_prune_task := map_option (\<lambda>_. TaskAborted) (sv_prune_task servers),
             sv_control_task := TaskAborted\<rparr>"

text \<open>One tick of the pruning task: a failure is logged and the task goes on.\<close>

definition prune_tick :: "(string \<Rightarrow> stored_event option) \<Rightarrow> bool \<times> u64 \<Rightarrow> inner \<Rightarrow> inner" where
  "prune_tick dec tick st =
     (case rg_delivery (in_subscribers st) of
        None \<Rightarrow> st
      | Some log \<Rightarrow>
          st\<lparr>in_subscribers := (in_subscribers st)\<lparr>rg_delivery :=
               Some (snd (prune_blocking dec (fst tick) (snd tick) log))\<rparr>\<rparr>)"

section \<open>The admin socket\<close>

text \<open>What \<^verbatim>\<open>control_loop\<close> does to the file system before it accepts connections.\<close>

datatype socket_op = RemoveOld | CreateParent | BindSocket | SetMode nat

fun attempt :: "(socket_op \<Rightarrow> bool) \<Rightarrow> socket_op list \<Rightarrow> socket_op list \<times> (socket_op + unit)" where
  "attempt ok [] = ([], Inr ())"
| "attempt ok (x # xs) =
     (if ok x then (case attempt ok xs of (ops, r) \<Rightarrow> (x # ops, r)) else ([], Inl x))"

definition control_loop_open ::
  "(string \<Rightarrow> bool) \<Rightarrow> (string \<Rightarrow> bool) \<Rightarrow> (socket_op \<Rightarrow> bool) \<Rightarrow> string \<Rightarrow> socket_op list \<times> (socket_op + unit)" where
  "control_loop_open file_exists has_parent ok path =
     attempt ok ((if file_exists path then [RemoveOld] else []) @
                 (if has_parent path then [CreateParent] else []) @ [BindSocket, SetMode 432])"

section \<open>Signals and shutdown\<close>

text \<open>A hangup comes with what the reload finds: the configuration, the token loader, the extensions.\<close>

datatype 'j signal =
    Terminate
  | Interrupt
  | Hangup "config_error + config" "string \<Rightarrow> token_error + token_store" "'j start_env" "(string, string) hashmap"

text \<open>The select loop: whether it was left, and the state then.\<close>

fun signal_loop :: "'j signal list \<Rightarrow> inner \<Rightarrow> bool \<times> inner" where
  "signal_loop [] st = (False, st)"
| "signal_loop (Terminate # signals) st = (True, st)"
| "signal_loop (Interrupt # signals) st = (True, st)"
| "signal_loop (Hangup loaded load_tokens env candidates # signals) st =
     signal_loop signals (snd (reload_from_path loaded load_tokens env candidates st))"

datatype run_error = RunApp app_error | RunBind bind_error

definition run_with_signals ::
  "config_error + config \<Rightarrow> (string \<Rightarrow> token_error + token_store) \<Rightarrow> (delivery_config \<Rightarrow> log_error + shared) \<Rightarrow>
   'j start_env \<Rightarrow> (string, string) hashmap \<Rightarrow> (socket_addr \<Rightarrow> bool) \<Rightarrow> 'j signal list \<Rightarrow>
   run_error + bool \<times> inner \<times> running_servers" where
  "run_with_signals loaded load_tokens open_log env candidates bind_ok signals =
     (case loaded of
        Inl e \<Rightarrow> Inl (RunApp (AppConfig e))
      | Inr config \<Rightarrow>
     (case AppState_new load_tokens open_log config of
        Inl e \<Rightarrow> Inl (RunApp e)
      | Inr st0 \<Rightarrow>
          (let st1 = start_extensions env candidates st0
           in (case start_servers bind_ok st1 of
                 Inl e \<Rightarrow> Inl (RunBind e)
               | Inr servers \<Rightarrow>
                   (case signal_loop signals st1 of
                      (False, st2) \<Rightarrow> Inr (False, st2, servers)
                    | (True, st2) \<Rightarrow> Inr (True, shutdown_state st2, abort_servers servers))))))"

text \<open>The same with the shutdown given as a future, here one that has completed.\<close>

definition run_until_shutdown ::
  "(string \<Rightarrow> token_error + token_store) \<Rightarrow> (delivery_config \<Rightarrow> log_error + shared) \<Rightarrow> 'j start_env \<Rightarrow>
   (string, string) hashmap \<Rightarrow> (socket_addr \<Rightarrow> bool) \<Rightarrow> config \<Rightarrow> run_error + inner \<times> running_servers" where
  "run_until_shutdown load_tokens open_log env candidates bind_ok config =
     (case AppState_new load_tokens open_log config of
        Inl e \<Rightarrow> Inl (RunApp e)
      | Inr st0 \<Rightarrow>
          (let st1 = start_extensions env candidates st0
           in (case start_servers bind_ok st1 of
                 Inl e \<Rightarrow> Inl (RunBind e)
               | Inr servers \<Rightarrow> Inr (shutdown_state st1, abort_servers servers))))"

text \<open>A daemon that is terminated at once does what \<^verbatim>\<open>run_until_shutdown\<close> does.\<close>

lemma run_terminated_at_once:
  "run_with_signals (Inr config) load_tokens open_log env candidates bind_ok (Terminate # signals) =
     map_sum id (Pair True) (run_until_shutdown load_tokens open_log env candidates bind_ok config)"
  by (simp add: run_with_signals_def run_until_shutdown_def Let_def split: sum.splits)

text \<open>
  The waits of \<^verbatim>\<open>send_shutdown_to_extensions\<close>, one after the other: each extension's drain is done at
  some time, if ever; the clock when all waits are over, and how many of them timed out.
\<close>

fun await_done :: "nat \<Rightarrow> nat option list \<Rightarrow> nat \<Rightarrow> nat \<times> nat" where
  "await_done wait_ms [] now = (now, 0)"
| "await_done wait_ms (done_at # receivers) now =
     (case done_at of
        Some t \<Rightarrow>
          if t \<le> now + wait_ms then await_done wait_ms receivers (max now t)
          else (case await_done wait_ms receivers (now + wait_ms) of (t', n) \<Rightarrow> (t', n + 1))
      | None \<Rightarrow> (case await_done wait_ms receivers (now + wait_ms) of (t', n) \<Rightarrow> (t', n + 1)))"

section \<open>Facts\<close>

lemma signal_loop_inv: "daemon_inv st \<Longrightarrow> daemon_inv (snd (signal_loop signals st))"
  by (induction signals st rule: signal_loop.induct) (simp_all add: reload_inv)

fun stops :: "'j signal \<Rightarrow> bool" where
  "stops (Hangup _ _ _ _) = False"
| "stops _ = True"

lemma signal_loop_left: "fst (signal_loop signals st) \<longleftrightarrow> list_ex stops signals"
  by (induction signals st rule: signal_loop.induct) simp_all

lemma await_done_bound:
  "fst (await_done wait_ms rs now) \<le> now + wait_ms * length rs"
proof (induction wait_ms rs now rule: await_done.induct)
  case (2 wait_ms d rs now)
  then show ?case
    by (cases d) (auto simp: add.assoc split: prod.splits)
qed simp

lemma await_done_prompt:
  "\<forall>d \<in> set rs. \<exists>t. d = Some t \<and> t \<le> limit \<Longrightarrow> limit \<le> now + wait_ms \<Longrightarrow>
   snd (await_done wait_ms rs now) = 0 \<and> fst (await_done wait_ms rs now) \<le> max now limit"
proof (induction rs arbitrary: now)
  case (Cons d rs)
  then obtain t where t: "d = Some t" "t \<le> limit" by auto
  have "snd (await_done wait_ms rs (max now t)) = 0 \<and> fst (await_done wait_ms rs (max now t)) \<le> max (max now t) limit"
    using Cons.prems by (intro Cons.IH) auto
  with t Cons.prems(2) show ?case by auto
qed simp

text \<open>What a shutdown leaves in every connection's entry and on every extension's command channel.\<close>

definition told_to_stop :: "inner \<Rightarrow> bool" where
  "told_to_stop st \<longleftrightarrow> in_shutting_down st \<and>
     (\<forall>(sid, s) \<in> set (rg_subscribers (in_subscribers st)). sub_close s = Some CloseShutdown) \<and>
     (\<forall>x h. hget (in_extensions st) x = Some h \<longrightarrow> DrainStop ''server shutdown'' True \<in> set (eh_commands h))"

definition send_all :: "supervisor_command \<Rightarrow> (string, ext_handle) hashmap \<Rightarrow> inner \<Rightarrow> inner" where
  "send_all cmd exts = fold (\<lambda>(_, h). send_command cmd (eh_id h)) exts"

lemma send_all_keeps:
  "rg_subscribers (in_subscribers (send_all cmd exts st)) = rg_subscribers (in_subscribers st)"
  "in_shutting_down (send_all cmd exts st) = in_shutting_down st"
  "hget (in_extensions (send_all cmd exts st)) x = None \<longleftrightarrow> hget (in_extensions st) x = None"
  unfolding send_all_def
  by (induction exts arbitrary: st) (auto simp: send_command_def hm_simps split: if_splits)

lemma send_all_reaches:
  "hget (in_extensions (send_all cmd exts st)) x = Some h \<Longrightarrow>
   (\<exists>g. g \<in> snd ` set exts \<and> eh_id g = x) \<or> (\<exists>g. hget (in_extensions st) x = Some g \<and> cmd \<in> set (eh_commands g)) \<Longrightarrow>
   cmd \<in> set (eh_commands h)"
proof (induction exts arbitrary: st)
  case (Cons e exts)
  obtain k g where e: "e = (k, g)" by (cases e)
  define st1 where "st1 = send_command cmd (eh_id g) st"
  have h: "hget (in_extensions (send_all cmd exts st1)) x = Some h"
    using Cons.prems(1) by (simp add: send_all_def e st1_def)
  then have "hget (in_extensions st1) x \<noteq> None" using send_all_keeps(3) [of cmd exts st1 x] by auto
  then have "eh_id g = x \<Longrightarrow> \<exists>g'. hget (in_extensions st1) x = Some g' \<and> cmd \<in> set (eh_commands g')"
    by (auto simp: st1_def send_command_def hm_simps)
  moreover have "\<exists>g'. hget (in_extensions st1) x = Some g' \<and> cmd \<in> set (eh_commands g')"
    if "hget (in_extensions st) x = Some g'" "cmd \<in> set (eh_commands g')" for g'
    using that by (auto simp: st1_def send_command_def hm_simps)
  ultimately show ?case using Cons.IH [OF h] Cons.prems(2) by (auto simp: e)
qed (auto simp: send_all_def)

lemma shutdown_tells_all:
  assumes "daemon_inv st"
  shows "told_to_stop (shutdown_state st)"
proof -
  define st1 where "st1 = st\<lparr>in_shutting_down := True, in_subscribers := close_all CloseShutdown (in_subscribers st)\<rparr>"
  have sd: "shutdown_state st = send_all (DrainStop ''server shutdown'' True) (in_extensions st1) st1"
    by (simp add: shutdown_state_def send_shutdown_to_extensions_def send_all_def st1_def)
  have ext: "ext_table_ok (in_extensions st1)" using assms by (simp add: st1_def daemon_inv_def)
  have "DrainStop ''server shutdown'' True \<in> set (eh_commands h)"
    if here: "hget (in_extensions (shutdown_state st)) x = Some h" for x h
  proof -
    obtain g where g: "hget (in_extensions st1) x = Some g"
      using here send_all_keeps(3) [of "DrainStop ''server shutdown'' True" "in_extensions st1" st1 x]
      unfolding sd by fastforce
    then have "g \<in> snd ` set (in_extensions st1)" "eh_id g = x"
      using ext_table_okD(2) [OF ext] by (force simp: hget_def dest: map_of_SomeD, blast)
    with send_all_reaches here show ?thesis unfolding sd by blast
  qed
  then show ?thesis
    unfolding told_to_stop_def by (auto simp: sd send_all_keeps st1_def close_all_def)
qed

lemma new_state_inv: "AppState_new load_tokens open_log config = Inr st \<Longrightarrow> daemon_inv st"
  by (auto simp: AppState_new_def daemon_inv_def ext_table_ok_def owners_ok_def hm_simps tables_inv.simps
      split: sum.splits if_splits)

section \<open>Properties\<close>


definition sample_signals :: "unit signal list" where
  "sample_signals = [Hangup (Inl ParseConfig) (\<lambda>_. Inl TokenFileError) sample_env [], Terminate]"

definition sample_daemon :: "run_error + bool \<times> inner \<times> running_servers" where
  "sample_daemon = run_with_signals (Inr sample_config) (\<lambda>_. Inr \<lparr>ts_path = [], ts_tokens = []\<rparr>) (\<lambda>_. Inl DbError)
     sample_env [(''e'', ''/bin/e'')] (\<lambda>_. True) sample_signals"


text \<open>The time an extension's supervisor gives it: the drain and two grace periods.\<close>

definition drain_limit :: "timeouts_config \<Rightarrow> nat" where
  "drain_limit t = unat (drain_ms t) + 2 * unat (term_grace_ms t)"

text \<open>
  C22: shutting down takes bounded time.  The daemon waits for the extensions one after the other,
  each wait bounded by the configured limit; and when every extension is done within the drain
  time and its two grace periods, all waits are over by then and none times out.
\<close>

theorem shutdown_wait_bounded:
  assumes "drain_limit t + 100 < 2 ^ 64"
  shows "fst (await_done (unat (shutdown_wait_ms t)) rs 0) \<le> (drain_limit t + 100) * length rs \<and>
    ((\<forall>d \<in> set rs. \<exists>u. d = Some u \<and> u \<le> drain_limit t) \<longrightarrow>
       await_done (unat (shutdown_wait_ms t)) rs 0 = (fst (await_done (unat (shutdown_wait_ms t)) rs 0), 0) \<and>
       fst (await_done (unat (shutdown_wait_ms t)) rs 0) \<le> drain_limit t)"
proof -
  have "unat (saturating_mul (term_grace_ms t) 2) = 2 * unat (term_grace_ms t)"
    using assms by (simp add: unat_saturating_mul drain_limit_def)
  then have "unat (saturating_add (drain_ms t) (saturating_mul (term_grace_ms t) 2)) = drain_limit t"
    using assms by (simp add: unat_saturating_add drain_limit_def)
  then have "unat (saturating_add (saturating_add (drain_ms t) (saturating_mul (term_grace_ms t) 2)) 100) = drain_limit t + 100"
    using assms by (simp add: unat_saturating_add)
  then have wait: "unat (shutdown_wait_ms t) = drain_limit t + 100"
    by (simp add: shutdown_wait_ms_def max_def word_le_nat_alt)
  show ?thesis
    using await_done_bound [of "drain_limit t + 100" rs 0] await_done_prompt [of rs "drain_limit t" 0 "drain_limit t + 100"]
    unfolding wait by (auto simp: prod_eq_iff)
qed

theorem shutdown_wait_bounded_witness:
  "fst (await_done (unat (shutdown_wait_ms TimeoutsConfig_default)) [Some 5, Some 7] 0) \<le>
     drain_limit TimeoutsConfig_default"
proof -
  have "drain_limit TimeoutsConfig_default + 100 < 2 ^ 64" "7 \<le> drain_limit TimeoutsConfig_default"
    by (simp_all add: drain_limit_def TimeoutsConfig_default_def)
  then show ?thesis using shutdown_wait_bounded [of TimeoutsConfig_default "[Some 5, Some 7]"] by simp
qed

end
