(* ===== verification/Metrics.thy ===== *)
theory Metrics
  imports Control_Plane
begin

text \<open>
  \<^verbatim>\<open>crates/whdr-server/src/metrics.rs\<close>: the Prometheus page, rendered from the status document.
  \<^verbatim>\<open>serde_json::Value\<close> is a parameter: the accessors the code calls, on a type of values.
\<close>

section \<open>The code\<close>

text \<open>\<open>vl_index\<close> is \<^verbatim>\<open>value["key"]\<close>, \<open>vl_entry\<close> is \<^verbatim>\<open>as_object\<close> followed by \<^verbatim>\<open>get\<close>.\<close>

record 'v value_lib =
  vl_index :: "'v \<Rightarrow> string \<Rightarrow> 'v"
  vl_is_null :: "'v \<Rightarrow> bool"
  vl_number :: "'v \<Rightarrow> string option"
  vl_str :: "'v \<Rightarrow> string option"
  vl_u64 :: "'v \<Rightarrow> u64 option"
  vl_bool :: "'v \<Rightarrow> bool option"
  vl_array :: "'v \<Rightarrow> 'v list option"
  vl_entry :: "'v \<Rightarrow> (string \<Rightarrow> 'v option) option"
  vl_of_u64 :: "u64 \<Rightarrow> 'v"

definition replace_char :: "char \<Rightarrow> string \<Rightarrow> string \<Rightarrow> string" where
  "replace_char c r s = concat (map (\<lambda>x. if x = c then r else [x]) s)"

definition escape_label :: "string \<Rightarrow> string" where
  "escape_label s =
     replace_char newline [CHR 0x5C, CHR ''n'']
       (replace_char (CHR 0x22) [CHR 0x5C, CHR 0x22] (replace_char (CHR 0x5C) [CHR 0x5C, CHR 0x5C] s))"

definition render_label :: "string \<times> string \<Rightarrow> string" where
  "render_label = (\<lambda>(key, label_value). key @ [CHR ''='', CHR 0x22] @ escape_label label_value @ [CHR 0x22])"

definition gauge ::
  "'v value_lib \<Rightarrow> string \<Rightarrow> string \<Rightarrow> (string \<times> string) list \<Rightarrow> 'v \<Rightarrow> string" where
  "gauge vl out name labels v =
     (let rendered =
        (case vl_number vl v of
           Some number \<Rightarrow> Some number
         | None \<Rightarrow> if vl_is_null vl v then None else vl_str vl v)
      in (case rendered of
            None \<Rightarrow> out
          | Some rendered \<Rightarrow>
              out @ name @
              (if labels = [] then [] else ''{'' @ join_with (CHR '','') (map render_label labels) @ ''}'') @
              '' '' @ rendered @ [newline]))"

definition gauges ::
  "'v value_lib \<Rightarrow> (string \<times> string) list \<Rightarrow> (string \<Rightarrow> 'v option) \<Rightarrow> (string \<times> string) list \<Rightarrow> string \<Rightarrow> string" where
  "gauges vl labels get metrics out =
     fold (\<lambda>(metric, field) out. case get field of None \<Rightarrow> out | Some v \<Rightarrow> gauge vl out metric labels v) metrics out"

definition render_extension :: "'v value_lib \<Rightarrow> 'v \<Rightarrow> string \<Rightarrow> string" where
  "render_extension vl ext out =
     (case vl_str vl (vl_index vl ext ''id'') of
        None \<Rightarrow> out
      | Some xid \<Rightarrow>
          (let labels = [(''ext'', xid)];
               up = (if vl_str vl (vl_index vl ext ''state'') = Some ''Ready'' then vl_of_u64 vl 1
                     else vl_of_u64 vl 0);
               out1 = gauge vl out ''whdr_ext_up'' labels up
           in gauges vl labels
                (\<lambda>field. if vl_is_null vl (vl_index vl ext field) then None else Some (vl_index vl ext field))
                [(''whdr_ext_restarts'', ''restarts''), (''whdr_ext_in_flight'', ''in_flight''),
                 (''whdr_ext_protocol_errors'', ''protocol_errors''),
                 (''whdr_ext_namespace_violations'', ''namespace_violations''),
                 (''whdr_ext_consecutive_timeouts'', ''consecutive_timeouts''),
                 (''whdr_ext_events_emitted'', ''events_emitted''),
                 (''whdr_ext_last_event_at_ms'', ''last_event_at_ms'')] out1))"

text \<open>The rows of the subscriber table: name, delivered, dropped, connections.\<close>

fun add_row ::
  "string \<Rightarrow> u64 \<Rightarrow> u64 \<Rightarrow> (string \<times> u64 \<times> u64 \<times> u64) list \<Rightarrow> (string \<times> u64 \<times> u64 \<times> u64) list" where
  "add_row name delivered dropped [] = [(name, delivered, dropped, 1)]"
| "add_row name delivered dropped ((n, a, b, c) # rows) =
     (if n = name then (n, a + delivered, b + dropped, c + 1) # rows
      else (n, a, b, c) # add_row name delivered dropped rows)"

definition subscriber_rows :: "'v value_lib \<Rightarrow> 'v list \<Rightarrow> (string \<times> u64 \<times> u64 \<times> u64) list" where
  "subscriber_rows vl subscribers =
     fold (\<lambda>s by_name.
       (case vl_str vl (vl_index vl s ''name'') of
          None \<Rightarrow> by_name
        | Some name \<Rightarrow>
            (let delivered = (case vl_u64 vl (vl_index vl s ''delivered'') of None \<Rightarrow> 0 | Some n \<Rightarrow> n);
                 dropped = (case vl_u64 vl (vl_index vl s ''dropped'') of None \<Rightarrow> 0 | Some n \<Rightarrow> n)
             in add_row name delivered dropped by_name))) subscribers []"

definition render_row :: "'v value_lib \<Rightarrow> string \<times> u64 \<times> u64 \<times> u64 \<Rightarrow> string \<Rightarrow> string" where
  "render_row vl row out =
     (case row of (name, delivered, dropped, connections) \<Rightarrow>
        (let labels = [(''name'', name)];
             out1 = gauge vl out ''whdr_subscriber_delivered'' labels (vl_of_u64 vl delivered);
             out2 = gauge vl out1 ''whdr_subscriber_dropped'' labels (vl_of_u64 vl dropped)
         in gauge vl out2 ''whdr_subscriber_connections'' labels (vl_of_u64 vl connections)))"

definition render_prometheus :: "'v value_lib \<Rightarrow> 'v \<Rightarrow> string" where
  "render_prometheus vl status =
     (let out1 = gauge vl [] ''whdr_uptime_ms'' [] (vl_index vl status ''uptime_ms'');
          out2 = (case vl_array vl (vl_index vl status ''extensions'') of
                    None \<Rightarrow> out1 | Some extensions \<Rightarrow> fold (render_extension vl) extensions out1);
          out3 = (case vl_array vl (vl_index vl status ''subscribers'') of
                    None \<Rightarrow> out2
                  | Some subscribers \<Rightarrow> fold (render_row vl) (subscriber_rows vl subscribers) out2);
          global = vl_index vl status ''global'';
          out4 = gauges vl [] (\<lambda>field. Some (vl_index vl global field))
                   [(''whdr_routes'', ''routes''), (''whdr_unavailable_routes'', ''unavailable_routes''),
                    (''whdr_channel_prefixes'', ''channel_prefixes''),
                    (''whdr_subscriber_count'', ''subscriber_count'')] out3
      in (case vl_entry vl (vl_index vl status ''delivery'') of
            None \<Rightarrow> out4
          | Some delivery \<Rightarrow>
              (let enabled = (if Option.bind (delivery ''enabled'') (vl_bool vl) = Some True
                              then vl_of_u64 vl 1 else vl_of_u64 vl 0);
                   out5 = gauge vl out4 ''whdr_delivery_enabled'' [] enabled
               in gauges vl [] delivery
                    [(''whdr_delivery_head_seq'', ''head_seq''), (''whdr_delivery_floor_seq'', ''floor_seq''),
                     (''whdr_delivery_retained_events'', ''retained_events''),
                     (''whdr_delivery_retained_bytes'', ''retained_bytes''),
                     (''whdr_delivery_persist_errors'', ''persist_errors'')] out5)))"

text \<open>\<open>to_value\<close> is the \<^verbatim>\<open>json!\<close> that \<^verbatim>\<open>status_json\<close> ends with.\<close>

definition metrics_handler :: "'v value_lib \<Rightarrow> (status \<Rightarrow> 'v) \<Rightarrow> nat \<Rightarrow> inner \<Rightarrow> string \<times> string" where
  "metrics_handler vl to_value uptime st =
     (''text/plain; version=0.0.4'', render_prometheus vl (to_value (status_json uptime st)))"

section \<open>Escaping\<close>

text \<open>The exposition format's reading of a label value: up to the closing quote.\<close>

fun read_label :: "string \<Rightarrow> (string \<times> string) option" where
  "read_label [] = None"
| "read_label (c # s) =
     (if c = CHR 0x22 then Some ([], s)
      else if c = CHR 0x5C then
        (case s of
           [] \<Rightarrow> None
         | d # s' \<Rightarrow> map_option (\<lambda>(v, r). ((if d = CHR ''n'' then newline else d) # v, r)) (read_label s'))
      else map_option (\<lambda>(v, r). (c # v, r)) (read_label s))"

definition escape_char :: "char \<Rightarrow> string" where
  "escape_char c =
     (if c = CHR 0x5C then [CHR 0x5C, CHR 0x5C]
      else if c = CHR 0x22 then [CHR 0x5C, CHR 0x22]
      else if c = newline then [CHR 0x5C, CHR ''n''] else [c])"

lemma escape_label_eq: "escape_label s = concat (map escape_char s)"
  by (induction s) (auto simp: escape_label_def replace_char_def escape_char_def newline_def)

lemma read_escaped: "read_label (escape_label s @ CHR 0x22 # r) = Some (s, r)"
  unfolding escape_label_eq
  by (induction s) (auto simp: escape_char_def newline_def)

lemma escaped_no_newline: "newline \<notin> set (escape_label s)"
  unfolding escape_label_eq by (auto simp: escape_char_def newline_def split: if_splits)

section \<open>The table of subscribers\<close>

text \<open>What one entry of the status document contributes, and the totals of one name.\<close>

definition contribution :: "'v value_lib \<Rightarrow> 'v \<Rightarrow> (string \<times> u64 \<times> u64) option" where
  "contribution vl s =
     map_option (\<lambda>name. (name, (case vl_u64 vl (vl_index vl s ''delivered'') of None \<Rightarrow> 0 | Some n \<Rightarrow> n),
                         (case vl_u64 vl (vl_index vl s ''dropped'') of None \<Rightarrow> 0 | Some n \<Rightarrow> n)))
       (vl_str vl (vl_index vl s ''name''))"

definition totals :: "string \<Rightarrow> (string \<times> u64 \<times> u64) list \<Rightarrow> u64 \<times> u64 \<times> u64" where
  "totals name cs =
     (let mine = filter (\<lambda>(n, _). n = name) cs
      in (sum_list (map (fst \<circ> snd) mine), sum_list (map (snd \<circ> snd) mine), of_nat (length mine)))"

lemma subscriber_rows_eq:
  "subscriber_rows vl subs = fold (\<lambda>(n, a, b). add_row n a b) (List.map_filter (contribution vl) subs) []"
proof -
  have "fold (\<lambda>s by_name.
       (case vl_str vl (vl_index vl s ''name'') of
          None \<Rightarrow> by_name
        | Some name \<Rightarrow>
            (let delivered = (case vl_u64 vl (vl_index vl s ''delivered'') of None \<Rightarrow> 0 | Some n \<Rightarrow> n);
                 dropped = (case vl_u64 vl (vl_index vl s ''dropped'') of None \<Rightarrow> 0 | Some n \<Rightarrow> n)
             in add_row name delivered dropped by_name))) subs rows =
     fold (\<lambda>(n, a, b). add_row n a b) (List.map_filter (contribution vl) subs) rows" for rows
    by (induction subs arbitrary: rows) (simp_all add: contribution_def map_filter_simps split: option.splits)
  then show ?thesis by (simp add: subscriber_rows_def)
qed

lemma map_of_add_row:
  "map_of (add_row n a b rows) k =
     (if k = n then (case map_of rows n of None \<Rightarrow> Some (a, b, 1) | Some (x, y, z) \<Rightarrow> Some (x + a, y + b, z + 1))
      else map_of rows k)"
  by (induction n a b rows rule: add_row.induct) (auto split: option.splits)

lemma names_add_row: "set (map fst (add_row n a b rows)) = insert n (set (map fst rows))"
  by (induction n a b rows rule: add_row.induct) auto

lemma distinct_add_row: "distinct (map fst rows) \<Longrightarrow> distinct (map fst (add_row n a b rows))"
proof (induction n a b rows rule: add_row.induct)
  case (2 n a b m x y z rows)
  then show ?case using names_add_row [of n a b rows] by (auto simp del: set_map)
qed simp

lemma rows_of_contributions:
  defines "rows cs \<equiv> fold (\<lambda>(n, a, b). add_row n a b) cs []"
  shows "distinct (map fst (rows cs))"
    and "map_of (rows cs) name = (if name \<in> fst ` set cs then Some (totals name cs) else None)"
proof -
  show "distinct (map fst (rows cs))"
    unfolding rows_def by (induction cs rule: rev_induct) (auto simp: distinct_add_row)
  show "map_of (rows cs) name = (if name \<in> fst ` set cs then Some (totals name cs) else None)"
    unfolding rows_def
  proof (induction cs rule: rev_induct)
    case (snoc c cs)
    obtain n a b where c: "c = (n, a, b)" by (cases c)
    have "name \<notin> fst ` set cs \<Longrightarrow> filter (\<lambda>(n, _). n = name) cs = []"
      by (force simp: filter_empty_conv)
    with snoc show ?case
      by (auto simp: c map_of_add_row totals_def Let_def)
  qed simp
qed

section \<open>Properties\<close>

text \<open>
  A label cannot be used to forge a sample.  Whatever the name of a subscriber or an extension
  holds (quotes, backslashes, line breaks), a rendered sample is one line, and a reader of the
  exposition format recovers from it exactly that name, followed by the closing brace and the value.
\<close>

theorem metrics_label_recovered:
  assumes "vl_number vl v = Some number" and "newline \<notin> set number"
    and "newline \<notin> set name" and "newline \<notin> set key"
  shows "\<exists>line. gauge vl out name [(key, label)] v = out @ line @ [newline] \<and> newline \<notin> set line \<and>
    (\<exists>rest. line = name @ ''{'' @ key @ [CHR ''='', CHR 0x22] @ rest \<and>
       read_label rest = Some (label, ''} '' @ number))"
proof -
  define rest where "rest = escape_label label @ CHR 0x22 # ''} '' @ number"
  have "read_label rest = Some (label, ''} '' @ number)" unfolding rest_def by (rule read_escaped)
  moreover have "newline \<notin> set (name @ ''{'' @ key @ [CHR ''='', CHR 0x22] @ rest)"
    using assms escaped_no_newline by (simp add: rest_def newline_def)
  moreover have "gauge vl out name [(key, label)] v =
      out @ (name @ ''{'' @ key @ [CHR ''='', CHR 0x22] @ rest) @ [newline]"
    using assms(1) by (simp add: gauge_def rest_def render_label_def)
  ultimately show ?thesis by blast
qed

definition sample_values :: "nat value_lib" where
  "sample_values =
     \<lparr>vl_index = \<lambda>_ _. 0, vl_is_null = \<lambda>_. False, vl_number = \<lambda>n. Some (nat_to_string n), vl_str = \<lambda>_. None,
      vl_u64 = \<lambda>_. None, vl_bool = \<lambda>_. None, vl_array = \<lambda>_. None, vl_entry = \<lambda>_. None, vl_of_u64 = unat\<rparr>"

theorem metrics_label_recovered_witness:
  "\<exists>line. gauge sample_values [] ''up'' [(''name'', [CHR ''a'', CHR 0x22, newline])] 7 = line @ [newline] \<and>
     newline \<notin> set line"
proof -
  have "newline \<notin> set ''7''" "newline \<notin> set ''up''" "newline \<notin> set ''name''" by (simp_all add: newline_def)
  moreover have "vl_number sample_values 7 = Some ''7''" by code_simp
  ultimately show ?thesis
    using metrics_label_recovered [of sample_values 7 "''7''" "''up''" "''name''" "[]" "[CHR ''a'', CHR 0x22, newline]"]
    by auto
qed

text \<open>
  The subscriber table has one row per name, for exactly the names in the status document, and a
  row holds the sums of the delivered and dropped counts of the connections of that name, in
  64-bit arithmetic, and their number.
\<close>

theorem metrics_rows_sum_by_name:
  "distinct (map fst (subscriber_rows vl subs)) \<and>
   map_of (subscriber_rows vl subs) name =
     (if name \<in> fst ` set (List.map_filter (contribution vl) subs)
      then Some (totals name (List.map_filter (contribution vl) subs)) else None)"
  unfolding subscriber_rows_eq using rows_of_contributions by blast

end
