(* ===== verification/Cli.thy ===== *)
theory Cli
  imports Metrics
begin

text \<open>
  \<^verbatim>\<open>crates/whdr-cli/src/main.rs\<close>: the command-line client of the admin socket.  The socket is an
  argument: nothing when it cannot be connected to, else what the daemon writes back, as lines,
  once the request line is written and the writing side closed.  What a command prints is its
  result; \<open>display\<close> and \<open>pretty\<close> are the two renderings of a JSON value.
\<close>

section \<open>The code\<close>

datatype token_command = CmdAdd string | CmdRotate string | CmdRevoke string | CmdList

datatype command = CmdStatus bool | CmdToken token_command

datatype cli_error =
    CliConnect
  | CliIo
  | CliEncode ndjson_error
  | CliNoResponse
  | CliBadResponse ndjson_error
  | CliBlankResponse
  | CliFailed string
  | CliUnexpected

fun request_of :: "command \<Rightarrow> control_request" where
  "request_of (CmdStatus _) = Status"
| "request_of (CmdToken (CmdAdd name)) = TokenAdd name"
| "request_of (CmdToken (CmdRotate name)) = TokenRotate name"
| "request_of (CmdToken (CmdRevoke name)) = TokenRevoke name"
| "request_of (CmdToken CmdList) = TokenList"

type_synonym admin_socket = "(string \<Rightarrow> string list option) option"

definition send_request ::
  "(control_request \<Rightarrow> string option) \<Rightarrow> (string \<Rightarrow> 'v control_response option) \<Rightarrow> admin_socket \<Rightarrow>
   control_request \<Rightarrow> cli_error + 'v control_response" where
  "send_request to_string from_str socket request =
     (case socket of
        None \<Rightarrow> Inl CliConnect
      | Some exchange \<Rightarrow>
          (case encode_line to_string request of
             Inl e \<Rightarrow> Inl (CliEncode e)
           | Inr line \<Rightarrow>
               (case exchange line of
                  None \<Rightarrow> Inl CliIo
                | Some [] \<Rightarrow> Inl CliNoResponse
                | Some (l # _) \<Rightarrow>
                    (case decode_line from_str l of
                       Inl e \<Rightarrow> Inl (CliBadResponse e)
                     | Inr None \<Rightarrow> Inl CliBlankResponse
                     | Inr (Some response) \<Rightarrow> Inr response))))"

definition show_u64 :: "u64 \<Rightarrow> string" where
  "show_u64 n = nat_to_string (unat n)"

definition humanize_ms :: "u64 \<Rightarrow> string" where
  "humanize_ms ms =
     (let total_secs = ms div 1000;
          days = total_secs div 86400;
          hours = (total_secs mod 86400) div 3600;
          mins = (total_secs mod 3600) div 60;
          secs = total_secs mod 60
      in if days > 0 then show_u64 days @ ''d '' @ show_u64 hours @ ''h''
         else if hours > 0 then show_u64 hours @ ''h '' @ show_u64 mins @ ''m''
         else if mins > 0 then show_u64 mins @ ''m '' @ show_u64 secs @ ''s''
         else show_u64 secs @ ''s'')"

definition tab :: string where
  "tab = [CHR 0x09]"

definition str_or_unknown :: "'v value_lib \<Rightarrow> 'v \<Rightarrow> string" where
  "str_or_unknown vl v = (case vl_str vl v of None \<Rightarrow> ''?'' | Some s \<Rightarrow> s)"

definition print_status :: "'v value_lib \<Rightarrow> ('v \<Rightarrow> string) \<Rightarrow> 'v \<Rightarrow> string" where
  "print_status vl display status =
     (let uptime_ms = (case vl_u64 vl (vl_index vl status ''uptime_ms'') of None \<Rightarrow> 0 | Some n \<Rightarrow> n);
          rows = (\<lambda>field. case vl_array vl (vl_index vl status field) of None \<Rightarrow> [] | Some vs \<Rightarrow> vs)
      in ''uptime_ms: '' @ show_u64 uptime_ms @ '' ('' @ humanize_ms uptime_ms @ '')'' @ [newline] @
         ''extensions:'' @ [newline] @
         concat (map (\<lambda>ext.
           ''  '' @ str_or_unknown vl (vl_index vl ext ''id'') @ tab @
           str_or_unknown vl (vl_index vl ext ''state'') @ tab @
           ''pid='' @ display (vl_index vl ext ''pid'') @ tab @
           ''events='' @ display (vl_index vl ext ''events_emitted'') @ tab @
           ''last_event_at_ms='' @ display (vl_index vl ext ''last_event_at_ms'') @ [newline]) (rows ''extensions'')) @
         ''subscribers:'' @ [newline] @
         concat (map (\<lambda>sub.
           ''  '' @ str_or_unknown vl (vl_index vl sub ''name'') @ tab @
           ''patterns='' @ display (vl_index vl sub ''patterns'') @ tab @
           ''delivered='' @ display (vl_index vl sub ''delivered'') @ tab @
           ''dropped='' @ display (vl_index vl sub ''dropped'') @ [newline]) (rows ''subscribers'')))"

definition token_line :: "token_summary \<Rightarrow> string" where
  "token_line t =
     sum_name t @ tab @ sum_fingerprint t @ tab @ sum_created t @ tab @ nat_to_string (sum_active_conns t) @ [newline]"

definition print_response ::
  "'v value_lib \<Rightarrow> ('v \<Rightarrow> string) \<Rightarrow> ('v \<Rightarrow> string) \<Rightarrow> command \<Rightarrow> 'v control_response \<Rightarrow> cli_error + string" where
  "print_response vl display pretty command response =
     (case response of
        CtlStatus status \<Rightarrow>
          (case command of
             CmdStatus json \<Rightarrow> Inr (if json then pretty status @ [newline] else print_status vl display status)
           | CmdToken _ \<Rightarrow> Inl CliUnexpected)
      | CtlToken name token \<Rightarrow> Inr (name @ '': '' @ token @ [newline])
      | CtlTokens tokens \<Rightarrow>
          Inr (''NAME'' @ tab @ ''FINGERPRINT'' @ tab @ ''CREATED'' @ tab @ ''ACTIVE'' @ [newline] @
               concat (map token_line tokens))
      | CtlOk \<Rightarrow> Inr (''ok'' @ [newline])
      | CtlError msg \<Rightarrow> Inl (CliFailed msg))"

definition cli_main ::
  "(control_request \<Rightarrow> string option) \<Rightarrow> (string \<Rightarrow> 'v control_response option) \<Rightarrow> 'v value_lib \<Rightarrow>
   ('v \<Rightarrow> string) \<Rightarrow> ('v \<Rightarrow> string) \<Rightarrow> admin_socket \<Rightarrow> command \<Rightarrow> cli_error + string" where
  "cli_main to_string from_str vl display pretty socket command =
     (case send_request to_string from_str socket (request_of command) of
        Inl e \<Rightarrow> Inl e
      | Inr response \<Rightarrow> print_response vl display pretty command response)"

section \<open>The client against the daemon\<close>

text \<open>
  The socket of a running daemon: it reads the request line, without its line break, and writes
  the encoded responses.
\<close>

definition daemon_socket ::
  "(string \<Rightarrow> control_request option) \<Rightarrow> (ndjson_error \<Rightarrow> string) \<Rightarrow> (status control_response \<Rightarrow> string option) \<Rightarrow>
   control_env \<Rightarrow> inner \<Rightarrow> token_file \<Rightarrow> admin_socket" where
  "daemon_socket from_str show_json_error to_string env st tf =
     Some (\<lambda>written. Some (map (the \<circ> to_string)
       (fst (handle_control_stream from_str show_json_error [(env, butlast written)] st tf))))"

text \<open>What the two sides rely on of JSON: the request and the response are lines, and are understood.\<close>

definition admin_codec ::
  "(control_request \<Rightarrow> string option) \<Rightarrow> (string \<Rightarrow> control_request option) \<Rightarrow>
   (status control_response \<Rightarrow> string option) \<Rightarrow> (string \<Rightarrow> 'v control_response option) \<Rightarrow> (status \<Rightarrow> 'v) \<Rightarrow>
   control_request \<Rightarrow> status control_response \<Rightarrow> bool" where
  "admin_codec req_to req_from resp_to resp_from to_value request response \<longleftrightarrow>
     line_codec req_to req_from request \<and>
     (\<exists>t. resp_to response = Some t \<and> trimmed_text t \<and>
        resp_from t = Some (map_control_response to_value response))"

lemma decode_line_text: "trimmed_text t \<Longrightarrow> decode_line from_str t =
  (case from_str t of None \<Rightarrow> Inl MalformedJson | Some v \<Rightarrow> Inr (Some v))"
  using trim_stable [of t] by (auto simp: decode_line_def trimmed_text_def Let_def)

lemma send_request_daemon:
  assumes "admin_codec req_to req_from resp_to resp_from to_value request (fst (handle_control_request env request st tf))"
  shows "send_request req_to resp_from (daemon_socket req_from show_json_error resp_to env st tf) request =
    Inr (map_control_response to_value (fst (handle_control_request env request st tf)))"
proof -
  obtain t where t: "req_to request = Some t" "trimmed_text t" "req_from t = Some request"
    using assms by (auto simp: admin_codec_def line_codec_def)
  define resp where "resp = fst (handle_control_request env request st tf)"
  obtain u where u: "resp_to resp = Some u" "trimmed_text u" "resp_from u = Some (map_control_response to_value resp)"
    using assms by (auto simp: admin_codec_def resp_def)
  have "decode_line req_from t = Inr (Some request)" by (simp add: decode_line_text [OF t(2)] t(3))
  then have "fst (handle_control_stream req_from show_json_error [(env, t)] st tf) = [resp]"
    by (simp add: resp_def split: prod.splits)
  then show ?thesis
    using t(1) u by (simp add: decode_line_text [OF u(2)] send_request_def daemon_socket_def encode_line_def resp_def)
qed

lemma add_token_found:
  assumes "token_add env name store tf = (Inr token, store', tf')" and "hm_ok (ts_tokens store)"
    and "only_under name (hash_token (te_digest env) (mint_token (te_random env))) (ts_tokens store)"
  shows "authenticate (te_digest env) store' token = Some name"
proof -
  define v where "v = record_for (te_digest env) (te_now env) token"
  have "put_token env name store tf = (Inr token, store', tf')"
    using assms(1) by (auto simp: token_add_def split: sum.splits if_splits)
  from put_token_ok [OF this] have "token = mint_token (te_random env)"
    "ts_tokens store' = hinsert name v (ts_tokens store)" by (simp_all add: v_def)
  then show ?thesis
    using assms(2,3) unfolding authenticate_def
    by (intro find_hash_unique [where r = v])
      (auto simp: hm_simps only_under_def v_def record_for_def split: if_splits)
qed

section \<open>Properties\<close>

text \<open>
  C25: each command of the client prints what the daemon did.  Against a running daemon it reports no
  unexpected, missing or unreadable response: a status command prints the daemon's status, a
  token command prints the new token, the list or the acknowledgement, and it fails exactly with
  the daemon's own error text, when the operation on the token store failed.
\<close>

theorem cli_prints_daemon_answer:
  assumes "admin_codec req_to req_from resp_to resp_from to_value (request_of cmd)
    (fst (handle_control_request env (request_of cmd) st tf))"
  shows "cli_main req_to resp_from vl display pretty (daemon_socket req_from show_json_error resp_to env st tf) cmd =
    (let failed = (\<lambda>e. Inl (CliFailed (ce_show_error env e)));
         tok = (\<lambda>name r. case r of Inl e \<Rightarrow> failed e | Inr token \<Rightarrow> Inr (name @ '': '' @ token @ [newline]));
         store = in_token_store st; value = to_value (status_json (ce_uptime env) st)
     in (case cmd of
           CmdStatus True \<Rightarrow> Inr (pretty value @ [newline])
         | CmdStatus False \<Rightarrow> Inr (print_status vl display value)
         | CmdToken (CmdAdd name) \<Rightarrow> tok name (fst (token_add (ce_tokens env) name store tf))
         | CmdToken (CmdRotate name) \<Rightarrow> tok name (fst (token_rotate (ce_tokens env) name store tf))
         | CmdToken (CmdRevoke name) \<Rightarrow>
             (case fst (token_revoke (ce_tokens env) name store tf) of
                Inl e \<Rightarrow> failed e | Inr _ \<Rightarrow> Inr (''ok'' @ [newline]))
         | CmdToken CmdList \<Rightarrow>
             Inr (''NAME'' @ tab @ ''FINGERPRINT'' @ tab @ ''CREATED'' @ tab @ ''ACTIVE'' @ [newline] @
               concat (map token_line
                 (token_list (active_connection_counts (in_subscribers st)) store)))))"
  unfolding cli_main_def send_request_daemon [OF assms]
  by (cases cmd rule: request_of.cases)
    (auto simp: print_response_def handle_control_request_def control_add_def control_rotate_def control_revoke_def
      control_list_def Let_def split: prod.splits sum.splits)

definition sample_admin :: control_env where
  "sample_admin = \<lparr>ce_tokens = sample_tenv Persisted, ce_show_error = \<lambda>_. ''e'', ce_uptime = 0\<rparr>"

lemma sample_added:
  "token_add (sample_tenv Persisted) ''n'' (in_token_store sample_start) None =
     (Inr ''tok_r'', \<lparr>ts_path = [], ts_tokens = [(''n'', sample_record)]\<rparr>, Some (384, ''s''))"
  by code_simp

lemma sample_admin_codec:
  "admin_codec (\<lambda>_. Some ''r'') (\<lambda>_. Some (TokenAdd ''n'')) (\<lambda>_. Some ''r'')
     (\<lambda>_. Some (CtlToken ''n'' ''tok_r'')) (\<lambda>_. ()) (TokenAdd ''n'')
     (fst (handle_control_request sample_admin (TokenAdd ''n'') sample_start None))"
proof -
  have "trimmed_text ''r''" "newline \<notin> set ''r''" by code_simp+
  then show ?thesis
    using sample_added
    by (simp add: admin_codec_def line_codec_def handle_control_request_def control_add_def sample_admin_def)
qed

definition unit_values :: "unit value_lib" where
  "unit_values =
     \<lparr>vl_index = \<lambda>_ _. (), vl_is_null = \<lambda>_. True, vl_number = \<lambda>_. None, vl_str = \<lambda>_. None,
      vl_u64 = \<lambda>_. None, vl_bool = \<lambda>_. None, vl_array = \<lambda>_. None, vl_entry = \<lambda>_. None, vl_of_u64 = \<lambda>_. ()\<rparr>"

theorem cli_prints_daemon_answer_witness:
  "cli_main (\<lambda>_. Some ''r'') (\<lambda>_. Some (CtlToken ''n'' ''tok_r'')) unit_values (\<lambda>_. []) (\<lambda>_. [])
     (daemon_socket (\<lambda>_. Some (TokenAdd ''n'')) (\<lambda>_. []) (\<lambda>_. Some ''r'') sample_admin sample_start None)
     (CmdToken (CmdAdd ''n'')) = Inr (''n: tok_r'' @ [newline])"
  using cli_prints_daemon_answer [of "\<lambda>_. Some ''r''" "\<lambda>_. Some (TokenAdd ''n'')" "\<lambda>_. Some ''r''"
      "\<lambda>_. Some (CtlToken ''n'' ''tok_r'')" "\<lambda>_. ()" "CmdToken (CmdAdd ''n'')" sample_admin sample_start None]
    sample_admin_codec sample_added
  by (simp add: Let_def sample_admin_def)

text \<open>
  C26: the token that \<^verbatim>\<open>token add\<close> prints opens connections: when the command succeeds, what it
  prints is the name and a token that the daemon, afterwards, authenticates under that name,
  provided its hash collides with no stored one.
\<close>

theorem cli_added_token_opens:
  assumes "admin_codec req_to req_from resp_to resp_from to_value (TokenAdd name)
      (fst (handle_control_request env (TokenAdd name) st tf))"
    and "cli_main req_to resp_from vl display pretty (daemon_socket req_from show_json_error resp_to env st tf)
      (CmdToken (CmdAdd name)) = Inr out"
    and "hm_ok (ts_tokens (in_token_store st))"
    and "only_under name (hash_token (te_digest (ce_tokens env)) (mint_token (te_random (ce_tokens env))))
      (ts_tokens (in_token_store st))"
  shows "\<exists>token. out = name @ '': '' @ token @ [newline] \<and>
    authenticate (te_digest (ce_tokens env))
      (in_token_store (fst (snd (handle_control_request env (TokenAdd name) st tf)))) token = Some name"
proof -
  obtain r store' tf' where add: "token_add (ce_tokens env) name (in_token_store st) tf = (r, store', tf')"
    by (cases "token_add (ce_tokens env) name (in_token_store st) tf")
  with assms(2) obtain token where r: "r = Inr token" "out = name @ '': '' @ token @ [newline]"
    unfolding cli_main_def send_request_daemon [OF assms(1)] request_of.simps
    by (auto simp: print_response_def handle_control_request_def control_add_def split: sum.splits prod.splits)
  have "authenticate (te_digest (ce_tokens env)) store' token = Some name"
    using add_token_found [of "ce_tokens env" name] add r(1) assms(3,4) by blast
  then show ?thesis using r add by (simp add: handle_control_request_def control_add_def)
qed

theorem cli_added_token_opens_witness:
  "\<exists>token. ''n: tok_r'' @ [newline] = ''n: '' @ token @ [newline] \<and>
     authenticate (\<lambda>s. s) \<lparr>ts_path = [], ts_tokens = [(''n'', sample_record)]\<rparr> token = Some ''n''"
proof -
  have "cli_main (\<lambda>_. Some ''r'') (\<lambda>_. Some (CtlToken ''n'' ''tok_r'')) unit_values (\<lambda>_. []) (\<lambda>_. [])
     (daemon_socket (\<lambda>_. Some (TokenAdd ''n'')) (\<lambda>_. []) (\<lambda>_. Some ''r'') sample_admin sample_start None)
     (CmdToken (CmdAdd ''n'')) = Inr (''n: tok_r'' @ [newline])"
    unfolding cli_main_def request_of.simps send_request_daemon [OF sample_admin_codec]
    using sample_added
    by (simp add: print_response_def handle_control_request_def control_add_def sample_admin_def)
  from cli_added_token_opens [OF sample_admin_codec this] sample_added show ?thesis
    by (simp add: sample_start_def only_under_def hm_simps handle_control_request_def control_add_def
        sample_admin_def sample_tenv_def)
qed

end
