(* ===== verification/Fake_Ext.thy ===== *)
theory Fake_Ext
  imports Webhook "HOL-Library.Multiset"
begin

text \<open>
  \<^verbatim>\<open>crates/whdr-server/examples/whdr-ext-fake.rs\<close>: the scriptable extension the system tests run against
  the daemon.  Its behaviour file makes it late, silent, noisy, out of order or short-lived.
  What it does is the list of its writes and sleeps; the TOML parser, base64 and JSON are
  arguments.
\<close>

section \<open>The code\<close>

record fake_behavior =
  fb_register :: bool
  fb_register_delay_ms :: u64
  fb_exit_on_start :: bool
  fb_id :: "string option"
  fb_paths :: "string list"
  fb_channels :: "string list"
  fb_protocol :: u32
  fb_garbage_on_start :: nat
  fb_reply_delay_ms :: u64
  fb_out_of_order_pairs :: bool
  fb_stall_after :: "nat option"
  fb_exit_after :: "nat option"
  fb_die_mid_line :: bool
  fb_events_per_dispatch :: nat
  fb_event_channel :: "string option"
  fb_flood_events :: nat
  fb_status :: u16

definition Behavior_default :: fake_behavior where
  "Behavior_default =
     \<lparr>fb_register = True, fb_register_delay_ms = 0, fb_exit_on_start = False, fb_id = None, fb_paths = [],
      fb_channels = [], fb_protocol = PROTOCOL_VERSION, fb_garbage_on_start = 0, fb_reply_delay_ms = 0,
      fb_out_of_order_pairs = False, fb_stall_after = None, fb_exit_after = None, fb_die_mid_line = False,
      fb_events_per_dispatch = 1, fb_event_channel = None, fb_flood_events = 0, fb_status = 200\<rparr>"

text \<open>\<open>file_name\<close>: the last component of \<^verbatim>\<open>argv[0]\<close>; \<open>contents\<close>: the behaviour file, if it can be read.\<close>

definition load_behavior ::
  "(string \<Rightarrow> fake_behavior option) \<Rightarrow> string option \<Rightarrow> string option \<Rightarrow> string \<times> fake_behavior" where
  "load_behavior toml file_name contents =
     ((case Option.bind file_name (\<lambda>nm. strip_prefix nm ''whdr-ext-'') of Some x \<Rightarrow> x | None \<Rightarrow> ''fake''),
      (case Option.bind contents toml of Some b \<Rightarrow> b | None \<Rightarrow> Behavior_default))"

datatype 'j fake_act = Wrote "'j ext_msg" | WroteRaw string | Slept u64

datatype fake_end = FakeReturned | FakeExited

definition fake_sleep :: "u64 \<Rightarrow> 'j fake_act list" where
  "fake_sleep ms = (if ms > 0 then [Slept ms] else [])"

definition write_msg :: "('j ext_msg \<Rightarrow> string option) \<Rightarrow> 'j ext_msg \<Rightarrow> 'j fake_act list" where
  "write_msg to_string msg =
     (case encode_line to_string msg of Inr _ \<Rightarrow> [Wrote msg] | Inl _ \<Rightarrow> [])"

definition fake_result :: "fake_behavior \<Rightarrow> string \<Rightarrow> uuid \<times> string \<Rightarrow> 'j ext_msg" where
  "fake_result behavior channel held =
     (case held of (req_id, body) \<Rightarrow>
        ExtResult req_id \<lparr>reply_status = fb_status behavior, reply_headers = [], reply_body = body\<rparr>
          (replicate (fb_events_per_dispatch behavior) \<lparr>ev_channel = channel, ev_payload_b64 = body\<rparr>))"

definition fake_reply ::
  "('j ext_msg \<Rightarrow> string option) \<Rightarrow> fake_behavior \<Rightarrow> string \<Rightarrow> uuid \<times> string \<Rightarrow> 'j fake_act list" where
  "fake_reply to_string behavior channel held =
     fake_sleep (fb_reply_delay_ms behavior) @ write_msg to_string (fake_result behavior channel held)"

definition reached :: "nat option \<Rightarrow> nat \<Rightarrow> bool" where
  "reached limit n = (case limit of None \<Rightarrow> False | Some mx \<Rightarrow> n \<ge> mx)"

fun fake_loop ::
  "(string \<Rightarrow> srv_msg option) \<Rightarrow> ('j ext_msg \<Rightarrow> string option) \<Rightarrow> fake_behavior \<Rightarrow> string \<Rightarrow> nat \<Rightarrow>
   (uuid \<times> string) list \<Rightarrow> string list \<Rightarrow> 'j fake_act list \<times> fake_end" where
  "fake_loop from_str to_string behavior channel replies_sent held [] = ([], FakeReturned)"
| "fake_loop from_str to_string behavior channel replies_sent held (line # rest) =
     (case decode_line from_str line of
        Inl _ \<Rightarrow> fake_loop from_str to_string behavior channel replies_sent held rest
      | Inr None \<Rightarrow> fake_loop from_str to_string behavior channel replies_sent held rest
      | Inr (Some SrvShutdown) \<Rightarrow> ([], FakeReturned)
      | Inr (Some (Dispatch d)) \<Rightarrow>
          if reached (fb_stall_after behavior) replies_sent
          then fake_loop from_str to_string behavior channel replies_sent held rest
          else
            (let pair = (d_req_id d, d_body_b64 d);
                 held = (if fb_out_of_order_pairs behavior then held @ [pair] else held)
             in if fb_out_of_order_pairs behavior \<and> length held < 2
                then fake_loop from_str to_string behavior channel replies_sent held rest
                else
                  (let now = (if fb_out_of_order_pairs behavior then rev held else [pair]);
                       held = (if fb_out_of_order_pairs behavior then [] else held);
                       acts = concat (map (fake_reply to_string behavior channel) now);
                       replies_sent = replies_sent + length now
                   in if reached (fb_exit_after behavior) replies_sent
                      then (acts @ (if fb_die_mid_line behavior
                                    then [WroteRaw (''{'' @ [CHR 0x22] @ ''type'' @ [CHR 0x22] @ '':'' @ [CHR 0x22] @
                                            ''result'' @ [CHR 0x22] @ '','' @ [CHR 0x22] @ ''req_id'' @ [CHR 0x22] @ '':'')]
                                    else []), FakeExited)
                      else (case fake_loop from_str to_string behavior channel replies_sent held rest of
                              (out, res) \<Rightarrow> (acts @ out, res)))))"

definition fake_channel :: "string \<Rightarrow> fake_behavior \<Rightarrow> string" where
  "fake_channel ext_id behavior =
     (case fb_event_channel behavior of Some c \<Rightarrow> c | None \<Rightarrow> ext_id @ ''.echo'')"

definition fake_main ::
  "(string \<Rightarrow> srv_msg option) \<Rightarrow> ('j ext_msg \<Rightarrow> string option) \<Rightarrow> (string \<Rightarrow> string) \<Rightarrow> 'j \<Rightarrow>
   string \<times> fake_behavior \<Rightarrow> string list \<Rightarrow> 'j fake_act list \<times> fake_end" where
  "fake_main from_str to_string base64_encode meta loaded input =
     (case loaded of (ext_id, behavior) \<Rightarrow>
        if fb_exit_on_start behavior then ([], FakeExited)
        else if \<not> fb_register behavior then (fake_sleep (fb_register_delay_ms behavior), FakeReturned)
        else
          (let channel = fake_channel ext_id behavior;
               start = fake_sleep (fb_register_delay_ms behavior) @
                 write_msg to_string (ExtRegister \<lparr>reg_protocol = fb_protocol behavior, reg_id = fb_id behavior,
                   reg_paths = fb_paths behavior, reg_channels = fb_channels behavior, reg_meta = meta\<rparr>) @
                 map (\<lambda>n. WroteRaw (''this is not json '' @ nat_to_string n @ [newline])) [0..<fb_garbage_on_start behavior] @
                 concat (map (\<lambda>n. write_msg to_string (ExtEvent \<lparr>ev_channel = channel,
                   ev_payload_b64 = base64_encode (''flood-'' @ nat_to_string n)\<rparr>)) [0..<fb_flood_events behavior])
           in (case fake_loop from_str to_string behavior channel 0 [] input of
                 (out, res) \<Rightarrow> (start @ out, res))))"

section \<open>What it is like\<close>

text \<open>The handler an extension on the kit would have to answer the same.\<close>

fun echo_handler :: "fake_behavior \<Rightarrow> string \<Rightarrow> srv_msg \<Rightarrow> dispatch_result" where
  "echo_handler behavior channel SrvShutdown = Inl HandlerPanic"
| "echo_handler behavior channel (Dispatch d) =
     Inr (\<lparr>reply_status = fb_status behavior, reply_headers = [], reply_body = d_body_b64 d\<rparr>,
          replicate (fb_events_per_dispatch behavior) \<lparr>ev_channel = channel, ev_payload_b64 = d_body_b64 d\<rparr>)"

definition well_behaved :: "fake_behavior \<Rightarrow> bool" where
  "well_behaved b \<longleftrightarrow> fb_reply_delay_ms b = 0 \<and> fb_stall_after b = None \<and> fb_exit_after b = None"

lemma write_msg_total: "to_string m \<noteq> None \<Longrightarrow> write_msg to_string m = [Wrote m]"
  by (auto simp: write_msg_def encode_line_def)

lemma fake_reply_prompt:
  "well_behaved b \<Longrightarrow> (\<And>m. to_string m \<noteq> None) \<Longrightarrow> fake_reply to_string b ch p = [Wrote (fake_result b ch p)]"
  by (simp add: fake_reply_def fake_sleep_def well_behaved_def write_msg_total)

text \<open>Without a behaviour that says otherwise it is the echo extension on the kit, on input that parses.\<close>

theorem fake_loop_is_echo:
  fixes to_string :: "'j ext_msg \<Rightarrow> string option"
  assumes "well_behaved b" and "\<not> fb_out_of_order_pairs b" and "\<And>m. to_string m \<noteq> None"
    and "list_all (\<lambda>line. \<exists>m. decode_line from_str line = Inr m) input"
  shows "fake_loop from_str to_string b ch n [] input =
     (map Wrote (fst (extension_loop from_str to_string (echo_handler b ch) input)), FakeReturned)"
  using assms(4)
proof (induction input arbitrary: n)
  case (Cons line rest)
  have enc: "encode_line to_string m = Inr (the (to_string m) @ [newline])" for m
    using assms(3) [of m] by (auto simp: encode_line_def)
  obtain m where m: "decode_line from_str line = Inr m" using Cons.prems by auto
  have IH: "fake_loop from_str to_string b ch k [] rest =
      (map Wrote (fst (extension_loop from_str to_string (echo_handler b ch) rest)), FakeReturned)" for k
    using Cons by simp
  consider "m = None" | "m = Some SrvShutdown" | d where "m = Some (Dispatch d)"
    by (metis not_None_eq srv_msg.exhaust)
  then show ?case
  proof cases
    case (3 d)
    then show ?thesis
      using m assms(1,2) fake_reply_prompt [of b to_string ch, OF assms(1,3)]
      by (simp add: IH enc reached_def well_behaved_def Let_def fake_result_def split: prod.splits)
  qed (simp_all add: m IH)
qed simp

fun swap_pairs :: "'a list \<Rightarrow> 'a list" where
  "swap_pairs (x # y # zs) = y # x # swap_pairs zs"
| "swap_pairs _ = []"

lemma mset_swap_pairs: "even (length xs) \<Longrightarrow> mset (swap_pairs xs) = mset xs"
  by (induction xs rule: swap_pairs.induct) auto

text \<open>Out of order, it still answers each of an even number of dispatches once, every second one first.\<close>

theorem fake_loop_pairs:
  fixes to_string :: "'j ext_msg \<Rightarrow> string option"
  assumes "well_behaved b" and "fb_out_of_order_pairs b" and "\<And>m. to_string m \<noteq> None"
    and "map (decode_line from_str) input = map (\<lambda>d. Inr (Some (Dispatch d))) ds"
  shows "fake_loop from_str to_string b ch n [] input =
     (map (\<lambda>d. Wrote (fake_result b ch (d_req_id d, d_body_b64 d))) (swap_pairs ds), FakeReturned)"
  using assms(4)
proof (induction ds arbitrary: input n rule: swap_pairs.induct)
  case (1 x y zs)
  then obtain l1 l2 rest where input: "input = l1 # l2 # rest" "decode_line from_str l1 = Inr (Some (Dispatch x))"
    "decode_line from_str l2 = Inr (Some (Dispatch y))" "map (decode_line from_str) rest = map (\<lambda>d. Inr (Some (Dispatch d))) zs"
    by (auto simp: Cons_eq_map_conv map_eq_Cons_conv)
  then show ?case
    using 1(1) [OF input(4)] assms(1,2) fake_reply_prompt [of b to_string ch, OF assms(1,3)]
    by (simp add: reached_def well_behaved_def Let_def)
next
  case "2_2"
  then show ?case using assms(1,2) by (auto simp: map_eq_Cons_conv reached_def well_behaved_def)
qed simp

text \<open>
  Under a valid id the echo keeps to its own namespace; pointed at a channel it does not own, all
  its events are dropped and counted.
\<close>

lemma echo_provider:
  assumes "valid_plain_token xid"
  shows "provider (echo_handler b (xid @ ''.echo'')) [xid] []"
proof
  have "CHR ''.'' \<notin> set xid" using assms by (auto simp: valid_plain_token_def list_all_iff plain_byte_def
      is_ascii_lowercase_def is_ascii_digit_def code_of_def)
  then have "split_on (CHR ''.'') (xid @ ''.echo'') = [xid, ''echo'']" by (simp add: split_on_append_sep)
  moreover have "valid_plain_token ''echo''" by code_simp
  ultimately have "owns_channel [xid] [] (xid @ ''.echo'')"
    using assms by (simp add: owns_channel_def validate_channel_ok channel_grammar_def)
  then show "owns_channel [xid] [] (ev_channel e)"
    if "echo_handler b (xid @ ''.echo'') msg = Inr (http, events)" "e \<in> set events" for msg http events e
    using that by (cases msg) (auto split: if_splits)
qed

lemma spoofed_events_dropped:
  assumes "\<not> owns_channel claims pres ch" and "echo_handler b ch (Dispatch d) = Inr (http, events)"
  shows "filter_owned_events xid claims pres n events = ([], n + fb_events_per_dispatch b)"
  using assms by (auto simp: filter_owned_events_eq)

section \<open>Against the daemon's reader\<close>

text \<open>The lines of its output, as the daemon's reader gets them.\<close>

fun act_line :: "('j ext_msg \<Rightarrow> string option) \<Rightarrow> 'j fake_act \<Rightarrow> string option" where
  "act_line to_string (Wrote msg) = to_string msg"
| "act_line to_string (WroteRaw raw) = Some (takeWhile (\<lambda>c. c \<noteq> newline) raw)"
| "act_line to_string (Slept ms) = None"

text \<open>Results in any order, each for a request that is pending: each goes to the task that waits for it.\<close>

lemma reader_run_results:
  assumes "extension_handle x g st = Some h" and "daemon_inv st"
    and "map (decode_line from_str) lines = map (\<lambda>(r, http, es). Inr (Some (ExtResult r http es))) rs"
    and "distinct (map fst rs)" and "\<forall>r \<in> fst ` set rs. hget (dw_pending (eh_dispatches h)) r = Some (tx r)"
  shows "fst (reader_run from_str x g (map (Pair fe) lines) st) =
    map (\<lambda>(r, http, es). (tx r, \<lparr>xr_http = http, xr_events = owned_events h es\<rparr>)) rs"
  using assms
proof (induction rs arbitrary: lines st h)
  case (Cons res rs)
  obtain r http es where res: "res = (r, http, es)" by (cases res)
  obtain line rest where lines: "lines = line # rest" "decode_line from_str line = Inr (Some (ExtResult r http es))"
    "map (decode_line from_str) rest = map (\<lambda>(r, http, es). Inr (Some (ExtResult r http es))) rs"
    using Cons.prems(3) by (auto simp: res map_eq_Cons_conv)
  note hx = extension_handleD [OF Cons.prems(1,2)]
  have pending: "hget (dw_pending (eh_dispatches h)) r = Some (tx r)" using Cons.prems(5) by (simp add: res)
  obtain answer st2 where rr: "reader_result h r http es st = (answer, st2)" by fastforce
  define w where "w = snd (window_remove r (eh_dispatches h))"
  define h2 where "h2 = h\<lparr>eh_dispatches := w, eh_consecutive_timeouts := 0,
      eh_namespace_violations := eh_namespace_violations h + (length es - length (owned_events h es))\<rparr>"
  have h2: "extension_handle x g st2 = Some h2" and answer: "answer = Some (tx r, \<lparr>xr_http = http, xr_events = owned_events h es\<rparr>)"
    using rr Cons.prems(1) hx pending
    by (auto simp: reader_result_def window_remove_def filter_events_eq Let_def h2_def w_def)
  have "daemon_inv st2" using reader_result_facts [OF Cons.prems(1,2) rr] by blast
  moreover have "\<forall>r' \<in> fst ` set rs. hget (dw_pending (eh_dispatches h2)) r' = Some (tx r')"
    using Cons.prems(4,5) pending by (auto simp: h2_def w_def window_remove_def res hm_simps)
  moreover have "owned_events h2 = owned_events h" by (simp add: fun_eq_iff owned_events_def h2_def)
  ultimately have "fst (reader_run from_str x g (map (Pair fe) rest) st2) =
      map (\<lambda>(r, http, es). (tx r, \<lparr>xr_http = http, xr_events = owned_events h es\<rparr>)) rs"
    using Cons.IH [OF h2 _ lines(3)] Cons.prems(4) by simp
  then show ?case
    using rr Cons.prems(1) answer
    by (cases "reader_run from_str x g (map (Pair fe) rest) st2") (simp add: lines(1,2) reader_line_def res)
qed simp

text \<open>
  C29: an extension may answer out of order.  When it holds every other dispatch back and answers it
  after the next one, each of the waiting requests is still handed exactly the answer to its own
  dispatch, once, with those of its events the extension owns.
\<close>

theorem out_of_order_replies_reach_owners:
  fixes to_string :: "'j ext_msg \<Rightarrow> string option"
  assumes "extension_handle x g st = Some h" and "daemon_inv st"
    and "well_behaved b" and "fb_out_of_order_pairs b" and "\<And>m. to_string m \<noteq> None"
    and "map (decode_line srv_from_str) input = map (\<lambda>d. Inr (Some (Dispatch d))) ds"
    and "even (length ds)" and "distinct (map d_req_id ds)"
    and "\<forall>d \<in> set ds. hget (dw_pending (eh_dispatches h)) (d_req_id d) = Some (tx (d_req_id d))"
    and "\<forall>d \<in> set ds. line_codec to_string from_str (fake_result b ch (d_req_id d, d_body_b64 d))"
  shows "mset (fst (reader_run from_str x g
      (map (Pair fe) (List.map_filter (act_line to_string) (fst (fake_loop srv_from_str to_string b ch n [] input)))) st)) =
    image_mset (\<lambda>d. (tx (d_req_id d),
        \<lparr>xr_http = \<lparr>reply_status = fb_status b, reply_headers = [], reply_body = d_body_b64 d\<rparr>,
         xr_events = owned_events h (replicate (fb_events_per_dispatch b) \<lparr>ev_channel = ch, ev_payload_b64 = d_body_b64 d\<rparr>)\<rparr>))
      (mset ds)"
proof -
  define res where "res = (\<lambda>d :: dispatch_msg. (d_req_id d, \<lparr>reply_status = fb_status b, reply_headers = [], reply_body = d_body_b64 d\<rparr>,
      replicate (fb_events_per_dispatch b) \<lparr>ev_channel = ch, ev_payload_b64 = d_body_b64 d\<rparr>))"
  define line where "line = (\<lambda>d :: dispatch_msg. the (to_string (fake_result b ch (d_req_id d, d_body_b64 d))))"
  have perm: "mset (swap_pairs ds) = mset ds" by (rule mset_swap_pairs [OF assms(7)])
  then have set: "set (swap_pairs ds) = set ds" by (metis set_mset_mset)
  have lines: "List.map_filter (act_line to_string) (fst (fake_loop srv_from_str to_string b ch n [] input)) =
      map line (swap_pairs ds)"
    unfolding fake_loop_pairs [OF assms(3-6)] fst_conv using assms(5)
    by (induction ds rule: swap_pairs.induct) (auto simp: line_def List.map_filter_simps split: option.splits)
  have dec: "decode_line from_str (line d) = Inr (Some (fake_result b ch (d_req_id d, d_body_b64 d)))" if "d \<in> set ds" for d
  proof -
    have "line_codec to_string from_str (fake_result b ch (d_req_id d, d_body_b64 d))" using assms(10) that by blast
    then obtain t where "to_string (fake_result b ch (d_req_id d, d_body_b64 d)) = Some t"
      "decode_line from_str t = Inr (Some (fake_result b ch (d_req_id d, d_body_b64 d)))" by (rule line_codec_decode)
    then show ?thesis by (simp add: line_def)
  qed
  have "map (decode_line from_str) (map line (swap_pairs ds)) =
      map (\<lambda>(r, http, es). Inr (Some (ExtResult r http es))) (map res (swap_pairs ds))"
    using dec set by (simp add: res_def fake_result_def)
  moreover have "distinct (map fst (map res (swap_pairs ds)))"
  proof -
    have "mset (map d_req_id (swap_pairs ds)) = mset (map d_req_id ds)" using perm by simp
    then show ?thesis using assms(8) mset_eq_imp_distinct_iff by (fastforce simp: res_def comp_def)
  qed
  moreover have "\<forall>r \<in> fst ` set (map res (swap_pairs ds)). hget (dw_pending (eh_dispatches h)) r = Some (tx r)"
    using assms(9) set by (auto simp: res_def)
  ultimately have "fst (reader_run from_str x g (map (Pair fe) (map line (swap_pairs ds))) st) =
      map (\<lambda>(r, http, es). (tx r, \<lparr>xr_http = http, xr_events = owned_events h es\<rparr>)) (map res (swap_pairs ds))"
    by (rule reader_run_results [OF assms(1,2)])
  then show ?thesis unfolding lines using perm by (simp add: res_def comp_def)
qed

text \<open>The running extension with two requests pending, and the fake's messages in one-letter JSON.\<close>

definition sample_pairs :: fake_behavior where
  "sample_pairs = Behavior_default\<lparr>fb_out_of_order_pairs := True\<rparr>"

definition sample_dispatches :: "dispatch_msg list" where
  "sample_dispatches = [sample_input\<lparr>d_req_id := 1, d_body_b64 := ''p''\<rparr>, sample_input\<lparr>d_req_id := 2, d_body_b64 := ''q''\<rparr>]"

definition sample_pending :: inner where
  "sample_pending = with_handle ''e'' 5 (\<lambda>h. h\<lparr>eh_dispatches := \<lparr>dw_pending = [(1, 10), (2, 20)], dw_in_flight = 2\<rparr>\<rparr>) sample_running"

definition sample_srv_from :: "string \<Rightarrow> srv_msg option" where
  "sample_srv_from t = Some (Dispatch (if t = ''1'' then sample_dispatches ! 0 else sample_dispatches ! 1))"

definition sample_ext_to :: "unit ext_msg \<Rightarrow> string option" where
  "sample_ext_to m = Some (case m of ExtResult r _ _ \<Rightarrow> if r = 1 then ''1'' else ''2'' | _ \<Rightarrow> ''0'')"

definition sample_ext_from :: "string \<Rightarrow> unit ext_msg option" where
  "sample_ext_from t = Some (fake_result sample_pairs ''e.x''
     (if t = ''1'' then (1, ''p'') else (2, ''q'')))"

theorem out_of_order_replies_reach_owners_witness:
  "mset (map (\<lambda>(tx, res). (tx, reply_body (xr_http res))) (fst (reader_run sample_ext_from ''e'' 5
     (map (Pair sample_fan) (List.map_filter (act_line sample_ext_to)
        (fst (fake_loop sample_srv_from sample_ext_to sample_pairs ''e.x'' 0 [] [''1'', ''2''])))) sample_pending))) =
   {# (10, ''p''), (20, ''q'') #}"
proof -
  have inv: "daemon_inv sample_running"
    unfolding sample_running_def by (rule start_extensions_inv)
      (simp add: sample_start_def daemon_inv_def ext_table_ok_def owners_ok_def hm_simps tables_inv.simps)
  then have "daemon_inv sample_pending" unfolding sample_pending_def
    by (rule with_handle_inv) (simp add: same_claims_def)
  moreover obtain h where "extension_handle ''e'' 5 sample_pending = Some h"
    "dw_pending (eh_dispatches h) = [(1, 10), (2, 20)]"
  proof -
    have "extension_handle ''e'' 5 sample_running \<noteq> None" by code_simp
    then obtain h0 where h0: "extension_handle ''e'' 5 sample_running = Some h0" by blast
    moreover have "eh_generation h0 = 5" using extension_handleD [OF h0 inv] by blast
    ultimately show thesis by (intro that) (auto simp: sample_pending_def)
  qed
  moreover have "well_behaved sample_pairs" "fb_out_of_order_pairs sample_pairs" by code_simp+
  moreover have "map (decode_line sample_srv_from) [''1'', ''2''] = map (\<lambda>d. Inr (Some (Dispatch d))) sample_dispatches"
    by code_simp
  moreover have "even (length sample_dispatches)" "distinct (map d_req_id sample_dispatches)" by code_simp+
  moreover have "trimmed_text ''1''" "trimmed_text ''2''" "newline \<notin> set ''1''" "newline \<notin> set ''2''" by code_simp+
  ultimately show ?thesis
    using out_of_order_replies_reach_owners [of "''e''" 5 sample_pending h sample_pairs sample_ext_to sample_srv_from
        "[''1'', ''2'']" sample_dispatches "\<lambda>r. 10 * unat r" sample_ext_from "''e.x''" sample_fan 0]
    by (simp add: sample_dispatches_def sample_ext_to_def sample_ext_from_def fake_result_def line_codec_def hget_def)
qed

end
